(* ===== verification/Prelude.thy ===== *)
theory Prelude
  imports Main "HOL-Library.Word"
begin

text \<open>
  The vocabulary shared by every component.  The platform is the i386 build of the firmware:
  pointers, \<open>size_t\<close>, \<open>unsigned long\<close> and \<open>unsigned int\<close> are 32 bits wide, all arithmetic on
  them wraps, and memory is little-endian.  The theory names the machine types, the error
  numbers of \<open>src/include/errno.h\<close> that the modelled code returns, and the flat byte memory; it
  proves the facts on words, masks and lists that the component theories use.
\<close>

unbundle bit_operations_syntax

section \<open>Machine types\<close>

type_synonym byte = "8 word"
type_synonym u16 = "16 word"
type_synonym u32 = "32 word"
type_synonym ptr = u32

text \<open>
  The error numbers returned (negated) by the modelled functions.  An \<open>int\<close> status code \<open>rc\<close> is
  a value of \<open>errno option\<close>: \<open>None\<close> is the zero status.
\<close>

datatype errno =
    EACCES | EADDRINUSE | EAFNOSUPPORT | EAGAIN | EBTHM | ECANCELED | ECONNRESET | EINVAL | ENETUNREACH | ENOBUFS | ENODEV | ENOENT
  | ENOMEM | ENOSPC | ENOTCONN | ENOTSUP | ENOTTY | EPROTONOSUPPORT | ERANGE | ETIMEDOUT

type_synonym rc = "errno option"

abbreviation NULL :: ptr where
  "NULL \<equiv> 0"

named_theorems wsimps \<open>word facts read as facts on natural numbers\<close>

section \<open>Facts on words\<close>

lemma sint_minus_eq:
  fixes x y :: u32
  assumes "- (2 ^ 31) \<le> int (unat x) - int (unat y)" and "int (unat x) - int (unat y) < 2 ^ 31"
  shows "sint (x - y) = int (unat x) - int (unat y)"
proof -
  have "sint (x - y) = signed_take_bit 31 (take_bit 32 (uint x - uint y))"
    by (simp add: sint_uint uint_word_ariths take_bit_eq_mod)
  also have "\<dots> = signed_take_bit 31 (uint x - uint y)"
    by (simp only: signed_take_bit_take_bit) simp
  finally show ?thesis using assms
    by (simp add: signed_take_bit_int_eq_self)
qed

lemma unat_and_mask [wsimps]: "unat (x AND mask n :: 'a::len word) = unat x mod 2 ^ n"
proof -
  have "uint (take_bit n x) = take_bit n (uint x)"
    by transfer (simp add: min_def ac_simps)
  then have "unat (take_bit n x) = take_bit n (unat x)"
    by (metis unat_eq_nat_uint nat_take_bit_eq uint_nonnegative)
  then show ?thesis by (metis take_bit_eq_mask take_bit_eq_mod)
qed

lemma and_15_mask: "(x :: u32) AND 15 = x AND mask 4"
  by (simp add: mask_eq_exp_minus_1)

lemma unat_and_15 [wsimps]: "unat (x AND 15 :: u32) = unat x mod 16"
  by (simp only: and_15_mask unat_and_mask) simp

lemma mask_or_mask: "mask a OR mask b = (mask (max a b) :: 'a::len word)"
  by (rule bit_word_eqI) (auto simp: bit_or_iff bit_mask_iff)

lemma and_not_mask: "(x :: 'a::len word) AND NOT (mask n) = x - (x AND mask n)"
proof -
  have "(x AND mask n) + (x AND NOT (mask n)) = (x AND mask n) OR (x AND NOT (mask n))"
    by (rule disjunctive_add) (simp add: bit_simps)
  also have "\<dots> = x"
    by (rule bit_word_eqI) (auto simp: bit_simps)
  finally show ?thesis by (simp add: algebra_simps)
qed

lemma unat_and_not_mask [wsimps]:
  "unat ((x :: 'a::len word) AND NOT (mask n)) = unat x - unat x mod 2 ^ n"
proof -
  have "unat (x AND mask n) \<le> unat x"
    by (simp add: unat_and_mask)
  then have "unat (x - (x AND mask n)) = unat x - unat (x AND mask n)"
    by (simp add: unat_sub word_le_nat_alt)
  then show ?thesis by (simp add: and_not_mask unat_and_mask)
qed

lemma unat_add_nowrap [wsimps]:
  "unat (x :: 'a::len word) + unat y < 2 ^ LENGTH('a) \<Longrightarrow> unat (x + y) = unat x + unat y"
  by (simp add: unat_add_lem)

lemma unat_sub_le [wsimps]:
  "unat (y :: 'a::len word) \<le> unat x \<Longrightarrow> unat (x - y) = unat x - unat y"
  by (simp add: unat_sub word_le_nat_alt)

lemma unat_plus1: "unat (p :: u32) + 1 < 2 ^ 32 \<Longrightarrow> unat (p + 1) = unat p + 1"
  using unat_add_nowrap [of p 1] by simp

lemma unat_plus_of_nat: "unat (p :: u32) + n < 2 ^ 32 \<Longrightarrow> unat (p + of_nat n) = unat p + n"
  by (simp add: unat_add_nowrap unat_of_nat)

lemma sint_eq_0 [simp]: "sint (w :: byte) = 0 \<longleftrightarrow> w = 0"
  by (rule signed_eq_0_iff)

end
