(* ===== verification/Linked_Lists.thy ===== *)
theory Linked_Lists
  imports Prelude
begin

text \<open>
  The intrusive circular doubly-linked lists of \<open>src/src/include/ipxe/list.h\<close>, which every other
  component links its objects with.  The pointer fields are an explicit store, so that aliasing
  between the head, the entry and its neighbours is part of the model.  \<open>dlist s h xs\<close> says that
  the store \<open>s\<close> holds, at head \<open>h\<close>, a well-formed ring with the entries \<open>xs\<close>; the lemmas show that
  each pointer operation implements the corresponding operation on \<open>xs\<close>, which justifies the HOL
  lists used for queues in the other theories.  The locale \<open>ring_ops\<close> is the interface.
\<close>

section \<open>The store and the operations\<close>

record list_head =
  nxt :: "ptr \<Rightarrow> ptr"
  prv :: "ptr \<Rightarrow> ptr"

definition set_nxt :: "ptr \<Rightarrow> ptr \<Rightarrow> list_head \<Rightarrow> list_head" where
  "set_nxt p v s = s\<lparr>nxt := (nxt s)(p := v)\<rparr>"

definition set_prv :: "ptr \<Rightarrow> ptr \<Rightarrow> list_head \<Rightarrow> list_head" where
  "set_prv p v s = s\<lparr>prv := (prv s)(p := v)\<rparr>"

definition INIT_LIST_HEAD :: "ptr \<Rightarrow> list_head \<Rightarrow> list_head" where
  "INIT_LIST_HEAD l s = set_prv l l (set_nxt l l s)"

definition list_check :: "ptr \<Rightarrow> list_head \<Rightarrow> bool" where
  "list_check l s \<longleftrightarrow>
     l \<noteq> NULL \<and> prv s l \<noteq> NULL \<and> nxt s l \<noteq> NULL \<and> prv s (nxt s l) = l \<and> nxt s (prv s l) = l"

definition inline_list_add :: "ptr \<Rightarrow> ptr \<Rightarrow> list_head \<Rightarrow> list_head" where
  "inline_list_add new head s =
     (let prev = head; next = nxt s head;
          s = set_prv next new s;
          s = set_nxt new next s;
          s = set_prv new prev s
      in set_nxt prev new s)"

definition inline_list_add_tail :: "ptr \<Rightarrow> ptr \<Rightarrow> list_head \<Rightarrow> list_head" where
  "inline_list_add_tail new head s =
     (let prev = prv s head; next = head;
          s = set_prv next new s;
          s = set_nxt new next s;
          s = set_prv new prev s
      in set_nxt prev new s)"

definition inline_list_del :: "ptr \<Rightarrow> list_head \<Rightarrow> list_head" where
  "inline_list_del l s =
     (let next = nxt s l; prev = prv s l;
          s = set_prv next prev s
      in set_nxt prev next s)"

definition inline_list_empty :: "ptr \<Rightarrow> list_head \<Rightarrow> bool" where
  "inline_list_empty l s \<longleftrightarrow> nxt s l = l"

definition inline_list_is_singular :: "ptr \<Rightarrow> list_head \<Rightarrow> bool" where
  "inline_list_is_singular l s \<longleftrightarrow> \<not> inline_list_empty l s \<and> nxt s l = prv s l"

definition inline_list_is_last :: "ptr \<Rightarrow> ptr \<Rightarrow> list_head \<Rightarrow> bool" where
  "inline_list_is_last l head s \<longleftrightarrow> nxt s l = head"

definition inline_list_cut_position :: "ptr \<Rightarrow> ptr \<Rightarrow> ptr \<Rightarrow> list_head \<Rightarrow> list_head" where
  "inline_list_cut_position new l entry s =
     (let first = nxt s entry in
      if l \<noteq> entry then
        let s = set_nxt new (nxt s l) s;
            s = set_prv (nxt s new) new s;
            s = set_prv new entry s;
            s = set_nxt (prv s new) new s;
            s = set_nxt l first s
        in set_prv (nxt s l) l s
      else s)"

definition inline_list_splice :: "ptr \<Rightarrow> ptr \<Rightarrow> list_head \<Rightarrow> list_head" where
  "inline_list_splice l entry s =
     (let first = nxt s l; last = prv s l in
      if \<not> inline_list_empty l s then
        let s = set_nxt last (nxt s entry) s;
            s = set_prv (nxt s last) last s;
            s = set_prv first entry s
        in set_nxt (prv s first) first s
      else s)"

definition inline_list_splice_tail :: "ptr \<Rightarrow> ptr \<Rightarrow> list_head \<Rightarrow> list_head" where
  "inline_list_splice_tail l entry s =
     (let first = nxt s l; last = prv s l in
      if \<not> inline_list_empty l s then
        let s = set_prv first (prv s entry) s;
            s = set_nxt (prv s first) first s;
            s = set_nxt last entry s
        in set_prv (nxt s last) last s
      else s)"

definition inline_list_splice_init :: "ptr \<Rightarrow> ptr \<Rightarrow> list_head \<Rightarrow> list_head" where
  "inline_list_splice_init l entry s = INIT_LIST_HEAD l (inline_list_splice l entry s)"

definition inline_list_splice_tail_init :: "ptr \<Rightarrow> ptr \<Rightarrow> list_head \<Rightarrow> list_head" where
  "inline_list_splice_tail_init l entry s = INIT_LIST_HEAD l (inline_list_splice_tail l entry s)"

definition list_first_entry :: "ptr \<Rightarrow> list_head \<Rightarrow> ptr" where
  "list_first_entry l s = (if inline_list_empty l s then NULL else nxt s l)"

text \<open>
  The membership walk follows \<open>next\<close> pointers until it is back at the head; on a ring that never
  returns to the head it does not stop, so it is a partial function.
\<close>

partial_function (option) list_contains_from :: "ptr \<Rightarrow> ptr \<Rightarrow> ptr \<Rightarrow> list_head \<Rightarrow> bool option" where
  "list_contains_from tmp entry head s =
     (if tmp = head then Some False
      else if tmp = entry then Some True
      else list_contains_from (nxt s tmp) entry head s)"

definition inline_list_contains :: "ptr \<Rightarrow> ptr \<Rightarrow> list_head \<Rightarrow> bool option" where
  "inline_list_contains entry head s = list_contains_from (nxt s head) entry head s"

lemmas list_op_defs =
  set_nxt_def set_prv_def INIT_LIST_HEAD_def inline_list_add_def inline_list_add_tail_def
  inline_list_del_def inline_list_empty_def inline_list_is_singular_def inline_list_is_last_def
  inline_list_cut_position_def inline_list_splice_def inline_list_splice_tail_def Let_def

section \<open>Rings\<close>

definition lk :: "list_head \<Rightarrow> ptr \<Rightarrow> ptr \<Rightarrow> bool" where
  "lk s a b \<longleftrightarrow> nxt s a = b \<and> prv s b = a"

definition dlist :: "list_head \<Rightarrow> ptr \<Rightarrow> ptr list \<Rightarrow> bool" where
  "dlist s h xs \<longleftrightarrow>
     distinct (h # xs) \<and> NULL \<notin> set (h # xs) \<and> successively (lk s) (h # xs @ [h])"

lemma successively_frame:
  assumes "successively (lk s) ys"
    and "\<And>x. x \<in> set (butlast ys) \<Longrightarrow> nxt s' x = nxt s x"
    and "\<And>y. y \<in> set (tl ys) \<Longrightarrow> prv s' y = prv s y"
  shows "successively (lk s') ys"
  using assms
proof (induction ys rule: induct_list012)
  case (3 x y zs)
  have "successively (lk s') (y # zs)"
    using 3 by (intro "3.IH"(2)) (auto split: if_splits dest: list.set_sel(2))
  then show ?case using 3 by (auto simp: lk_def)
qed auto

text \<open>The ring cut into two segments, the form in which every operation sees it.\<close>

lemma dlist_split:
  "dlist s h (as @ bs) \<longleftrightarrow>
     distinct (h # as @ bs) \<and> NULL \<notin> set (h # as @ bs) \<and>
     successively (lk s) (h # as) \<and> successively (lk s) (bs @ [h]) \<and>
     lk s (last (h # as)) (hd (bs @ [h]))"
proof -
  have "h # (as @ bs) @ [h] = (h # as) @ (bs @ [h])" by simp
  then show ?thesis
    unfolding dlist_def by (simp only: successively_append_iff) auto
qed

lemma dlist_links:
  assumes "dlist s h (as @ bs)"
  shows "nxt s (last (h # as)) = hd (bs @ [h])" and "prv s (hd (bs @ [h])) = last (h # as)"
  using assms by (simp_all only: dlist_split lk_def)

lemma dlist_empty_iff: "dlist s h xs \<Longrightarrow> inline_list_empty h s \<longleftrightarrow> xs = []"
  using dlist_links(1) [of s h "[]" xs] by (cases xs) (auto simp: inline_list_empty_def dlist_def)

lemma dlist_INIT: "h \<noteq> NULL \<Longrightarrow> dlist (INIT_LIST_HEAD h s) h []"
  by (simp add: dlist_def list_op_defs lk_def)

lemma hd_snoc_notin: "distinct (h # as @ bs) \<Longrightarrow> hd (bs @ [h]) \<notin> set as"
  by (cases bs) auto

lemma last_Cons_notin: "distinct (h # as @ bs) \<Longrightarrow> last (h # as) \<notin> set bs"
  by (cases as rule: rev_cases) auto

lemma hd_snoc_notin_tl: "distinct (h # as @ bs) \<Longrightarrow> hd (bs @ [h]) \<notin> set (tl (bs @ [h]))"
  by (cases bs) auto

lemma last_Cons_notin_butlast: "distinct (h # as @ bs) \<Longrightarrow> last (h # as) \<notin> set (butlast (h # as))"
  by (cases as rule: rev_cases) (auto simp: butlast_append)

lemmas ring_notin = hd_snoc_notin last_Cons_notin hd_snoc_notin_tl last_Cons_notin_butlast

lemma in_butlast_Cons: "x \<in> set (butlast (h # as)) \<Longrightarrow> x \<in> set (h # as)"
  by (rule in_set_butlastD)

lemma in_tl_snoc: "x \<in> set (tl (bs @ [h])) \<Longrightarrow> x \<in> set (h # bs)"
  by (cases bs) auto

lemma hd_snoc_in: "hd (bs @ [h]) \<in> set (h # bs)"
  by (cases bs) auto

text \<open>
  Linking a new entry between the two segments: the effect of both \<open>list_add\<close> (after the entry at
  the end of the first segment) and \<open>list_add_tail\<close> (before the entry at the start of the second).
\<close>

lemma dlist_link_new:
  assumes d: "dlist s h (as @ bs)" and new: "new \<noteq> NULL" "new \<notin> set (h # as @ bs)"
    and e: "e = last (h # as)" and n: "n = hd (bs @ [h])"
  shows "dlist (set_nxt e new (set_prv new e (set_nxt new n (set_prv n new s)))) h (as @ new # bs)"
proof -
  let ?s' = "set_nxt e new (set_prv new e (set_nxt new n (set_prv n new s)))"
  have dist: "distinct (h # as @ bs)" and nn: "NULL \<notin> set (h # as @ bs)"
    and l1: "successively (lk s) (h # as)" and l2: "successively (lk s) (bs @ [h])"
    using d by (auto simp: dlist_split)
  note ni = ring_notin [OF dist]
  have en: "e \<in> set (h # as)" "n \<in> set (h # bs)" "e \<noteq> new" "n \<noteq> new"
    using new hd_snoc_in [of bs h] last_in_set [of "h # as"] unfolding e n by auto
  have "successively (lk ?s') (h # as)"
    using l1 ni(1,4) new(2) e n
    by (rule_tac successively_frame) (auto simp: set_nxt_def set_prv_def dest: in_set_butlastD)
  moreover have "successively (lk ?s') (bs @ [h])"
    using l2 ni(2,3) new(2) e n in_tl_snoc [of _ bs h]
    by (rule_tac successively_frame) (auto simp: set_nxt_def set_prv_def)
  moreover have "lk ?s' e new" "lk ?s' new n"
    using en by (auto simp: lk_def set_nxt_def set_prv_def)
  ultimately have "successively (lk ?s') ((h # as) @ [new] @ (bs @ [h]))"
    unfolding successively_append_iff using e n by (auto simp: successively_Cons)
  then show ?thesis
    using dist nn new by (auto simp: dlist_def)
qed

lemma dlist_add_after:
  assumes "dlist s h (as @ bs)" "new \<noteq> NULL" "new \<notin> set (h # as @ bs)" "e = last (h # as)"
  shows "dlist (inline_list_add new e s) h (as @ new # bs)"
  using dlist_link_new [OF assms refl] dlist_links(1) [OF assms(1)]
  by (simp add: inline_list_add_def Let_def assms(4))

lemma dlist_add_before:
  assumes "dlist s h (as @ bs)" "new \<noteq> NULL" "new \<notin> set (h # as @ bs)" "n = hd (bs @ [h])"
  shows "dlist (inline_list_add_tail new n s) h (as @ new # bs)"
  using dlist_link_new [OF assms(1-3) refl assms(4)] dlist_links(2) [OF assms(1)]
  by (simp add: inline_list_add_tail_def Let_def assms(4))

lemma dlist_add:
  "dlist s h xs \<Longrightarrow> new \<noteq> NULL \<Longrightarrow> new \<notin> set (h # xs) \<Longrightarrow>
     dlist (inline_list_add new h s) h (new # xs)"
  using dlist_add_after [of s h "[]" xs new h] by simp

lemma dlist_add_tail:
  "dlist s h xs \<Longrightarrow> new \<noteq> NULL \<Longrightarrow> new \<notin> set (h # xs) \<Longrightarrow>
     dlist (inline_list_add_tail new h s) h (xs @ [new])"
  using dlist_add_before [of s h xs "[]" new h] by simp

text \<open>Unlinking an entry joins its two neighbours.\<close>

lemma dlist_del:
  assumes d: "dlist s h (as @ x # bs)"
  shows "dlist (inline_list_del x s) h (as @ bs)"
proof -
  define e where "e = last (h # as)"
  define n where "n = hd (bs @ [h])"
  have dist: "distinct (h # as @ x # bs)" and nn: "NULL \<notin> set (h # as @ x # bs)"
    and l1: "successively (lk s) (h # as)" and l2: "successively (lk s) (bs @ [h])"
    and ex: "lk s e x" and xn: "lk s x n"
    using d unfolding e_def n_def
    by (auto simp: dlist_split successively_Cons successively_append_iff)
  have dist': "distinct (h # as @ bs)" using dist by auto
  note ni = ring_notin [OF dist']
  have "successively (lk (set_nxt e n (set_prv n e s))) (h # as)"
    using l1 ni(1,4) unfolding e_def n_def
    by (rule_tac successively_frame) (auto simp: set_nxt_def set_prv_def)
  moreover have "successively (lk (set_nxt e n (set_prv n e s))) (bs @ [h])"
    using l2 ni(2,3) unfolding e_def n_def
    by (rule_tac successively_frame) (auto simp: set_nxt_def set_prv_def)
  moreover have "lk (set_nxt e n (set_prv n e s)) e n"
    by (simp add: lk_def set_nxt_def set_prv_def)
  moreover have "inline_list_del x s = set_nxt e n (set_prv n e s)"
    using ex xn by (simp add: inline_list_del_def lk_def Let_def)
  ultimately show ?thesis
    using dist' nn by (auto simp: dlist_split e_def n_def)
qed

text \<open>Splicing a whole ring into another between two neighbouring entries.\<close>

lemma dlist_segment:
  assumes "dlist s l xs" and "xs \<noteq> []"
  shows "successively (lk s) xs" and "nxt s l = hd xs" and "prv s l = last xs"
proof -
  have 1: "dlist s l (xs @ [])" and 2: "dlist s l ([] @ xs)" using assms by simp_all
  show "successively (lk s) xs"
    using 1 assms(2) unfolding dlist_split by (cases xs) (simp_all add: successively_Cons)
  show "nxt s l = hd xs" using dlist_links(1) [OF 2] assms(2) by simp
  show "prv s l = last xs" using dlist_links(2) [OF 1] assms(2) by simp
qed

lemma dlist_link_segment:
  assumes d: "dlist s h (as @ bs)" and seg: "successively (lk s) xs" "xs \<noteq> []"
    and dist: "distinct (h # as @ xs @ bs)" and nn: "NULL \<notin> set xs"
    and e: "e = last (h # as)" and n: "n = hd (bs @ [h])"
    and f: "f = hd xs" and g: "g = last xs"
    and s': "nxt s' = (nxt s)(g := n, e := f)" "prv s' = (prv s)(n := g, f := e)"
  shows "dlist s' h (as @ xs @ bs)"
proof -
  have d2: "distinct (h # as @ bs)" and nn2: "NULL \<notin> set (h # as @ bs)"
    and l1: "successively (lk s) (h # as)" and l2: "successively (lk s) (bs @ [h])"
    using d by (auto simp: dlist_split)
  note ni = ring_notin [OF d2]
  have fg: "f \<in> set xs" "g \<in> set xs" using seg(2) f g by auto
  have en: "e \<in> set (h # as)" "n \<in> set (h # bs)"
    using hd_snoc_in [of bs h] last_in_set [of "h # as"] unfolding e n by auto
  have dx: "distinct xs" using dist by simp
  have hd_tl: "f \<notin> set (tl xs)" using dx seg(2) f by (cases xs) auto
  have la_bu: "g \<notin> set (butlast xs)" using dx seg(2) g by (cases xs rule: rev_cases) auto
  have fn: "f \<notin> set (h # as)" "f \<notin> set (h # bs)" "g \<notin> set (h # as)" "g \<notin> set (h # bs)"
    and enx: "e \<notin> set xs" "n \<notin> set xs"
    using fg en dist by auto
  have "successively (lk s') (h # as)"
  proof (rule successively_frame [OF l1])
    show "nxt s' x = nxt s x" if "x \<in> set (butlast (h # as))" for x
      using that ni(4) fn(3) in_set_butlastD [OF that] by (auto simp: s'(1) e simp del: butlast.simps)
    show "prv s' y = prv s y" if "y \<in> set (tl (h # as))" for y
      using that ni(1) fn(1) by (auto simp: s'(2) n)
  qed
  moreover have "successively (lk s') (bs @ [h])"
  proof (rule successively_frame [OF l2])
    show "nxt s' x = nxt s x" if "x \<in> set (butlast (bs @ [h]))" for x
      using that ni(2) fn(4) by (auto simp: s'(1) e)
    show "prv s' y = prv s y" if "y \<in> set (tl (bs @ [h]))" for y
      using that ni(3) fn(2) in_tl_snoc [OF that] by (auto simp: s'(2) n)
  qed
  moreover have "successively (lk s') xs"
  proof (rule successively_frame [OF seg(1)])
    show "nxt s' x = nxt s x" if "x \<in> set (butlast xs)" for x
      using that la_bu enx(1) in_set_butlastD [OF that] by (auto simp: s'(1))
    show "prv s' y = prv s y" if "y \<in> set (tl xs)" for y
      using that hd_tl enx(2) list.set_sel(2) [OF seg(2) that] by (auto simp: s'(2))
  qed
  moreover have "lk s' e f" "lk s' g n"
    using fn enx en fg by (auto simp: lk_def s')
  ultimately have "successively (lk s') ((h # as) @ xs @ (bs @ [h]))"
    unfolding successively_append_iff using e n f g seg(2) by auto
  then show ?thesis
    using dist nn nn2 by (auto simp: dlist_def)
qed

lemma dlist_splice:
  assumes d: "dlist s h (as @ bs)" and l: "dlist s l xs"
    and dist: "distinct (h # as @ xs @ bs)" and "l \<notin> set (h # as @ bs)" and "e = last (h # as)"
  shows "dlist (inline_list_splice l e s) h (as @ xs @ bs)"
proof (cases "xs = []")
  case True
  then show ?thesis using d l by (simp add: inline_list_splice_def dlist_empty_iff Let_def)
next
  case False
  have n: "nxt s e = hd (bs @ [h])" using dlist_links(1) [OF d] assms(5) by simp
  have "e \<in> set (h # as)" using assms(5) last_in_set [of "h # as"] by simp
  moreover have "last xs \<in> set xs" using False by simp
  ultimately have neq: "last xs \<noteq> e" using dist by auto
  show ?thesis
    using False l n neq dist hd_snoc_in [of bs h]
    by (intro dlist_link_segment [OF d dlist_segment(1) [OF l False] False dist _ assms(5) refl refl refl])
      (auto simp: inline_list_splice_def dlist_empty_iff [OF l] dlist_segment [OF l False]
        Let_def set_nxt_def set_prv_def dlist_def fun_eq_iff)
qed

lemma dlist_splice_tail:
  assumes d: "dlist s h (as @ bs)" and l: "dlist s l xs"
    and dist: "distinct (h # as @ xs @ bs)" and "l \<notin> set (h # as @ bs)" and "n = hd (bs @ [h])"
  shows "dlist (inline_list_splice_tail l n s) h (as @ xs @ bs)"
proof (cases "xs = []")
  case True
  then show ?thesis using d l by (simp add: inline_list_splice_tail_def dlist_empty_iff Let_def)
next
  case False
  have e: "prv s n = last (h # as)" using dlist_links(2) [OF d] assms(5) by simp
  have "n \<in> set (h # bs)" using assms(5) hd_snoc_in by metis
  moreover have "hd xs \<in> set xs" "last xs \<in> set xs" using False by simp_all
  moreover have "last (h # as) \<in> set (h # as)" by simp
  ultimately have neq: "hd xs \<noteq> n" "last xs \<noteq> last (h # as)" using dist by auto
  show ?thesis
    using False l e neq dist
    by (intro dlist_link_segment [OF d dlist_segment(1) [OF l False] False dist _ refl assms(5) refl refl])
      (auto simp: inline_list_splice_tail_def dlist_empty_iff [OF l] dlist_segment [OF l False]
        Let_def set_nxt_def set_prv_def dlist_def fun_eq_iff)
qed

lemma dlist_frame:
  assumes "dlist s h xs"
    and "\<And>x. x \<in> set (h # xs) \<Longrightarrow> nxt s' x = nxt s x"
    and "\<And>x. x \<in> set (h # xs) \<Longrightarrow> prv s' x = prv s x"
  shows "dlist s' h xs"
proof -
  have "successively (lk s') (h # xs @ [h])"
  proof (rule successively_frame)
    show "successively (lk s) (h # xs @ [h])" using assms(1) by (simp add: dlist_def)
  qed (use assms(2,3) in \<open>auto dest!: in_set_butlastD simp del: butlast.simps split: if_splits\<close>)
  then show ?thesis using assms(1) by (simp add: dlist_def)
qed

lemma dlist_splice_init:
  assumes d: "dlist s h (as @ bs)" and l: "dlist s l xs"
    and dist: "distinct (h # as @ xs @ bs)" and "l \<notin> set (h # as @ bs)" and "e = last (h # as)"
  shows "dlist (inline_list_splice_init l e s) h (as @ xs @ bs) \<and>
         dlist (inline_list_splice_init l e s) l []"
proof -
  have "l \<notin> set (h # as @ xs @ bs)" "l \<noteq> NULL" using assms(4) l by (auto simp: dlist_def)
  then show ?thesis
    unfolding inline_list_splice_init_def
    by (intro conjI dlist_INIT dlist_frame [OF dlist_splice [OF assms]])
      (auto simp: INIT_LIST_HEAD_def set_nxt_def set_prv_def)
qed

lemma dlist_splice_tail_init:
  assumes d: "dlist s h (as @ bs)" and l: "dlist s l xs"
    and dist: "distinct (h # as @ xs @ bs)" and "l \<notin> set (h # as @ bs)" and "n = hd (bs @ [h])"
  shows "dlist (inline_list_splice_tail_init l n s) h (as @ xs @ bs) \<and>
         dlist (inline_list_splice_tail_init l n s) l []"
proof -
  have "l \<notin> set (h # as @ xs @ bs)" "l \<noteq> NULL" using assms(4) l by (auto simp: dlist_def)
  then show ?thesis
    unfolding inline_list_splice_tail_init_def
    by (intro conjI dlist_INIT dlist_frame [OF dlist_splice_tail [OF assms]])
      (auto simp: INIT_LIST_HEAD_def set_nxt_def set_prv_def)
qed

text \<open>Cutting a ring after an entry moves the first segment to the new (empty) head.\<close>

lemma dlist_cut_position:
  assumes d: "dlist s l (as @ bs)" and new: "dlist s new []" "new \<notin> set (l # as @ bs)"
    and e: "e = last (l # as)"
  shows "dlist (inline_list_cut_position new l e s) new as \<and>
         dlist (inline_list_cut_position new l e s) l bs"
proof (cases "as = []")
  case True
  then show ?thesis using assms by (simp add: inline_list_cut_position_def Let_def)
next
  case False
  define n where "n = hd (bs @ [l])"
  let ?s' = "inline_list_cut_position new l e s"
  have dist: "distinct (l # as @ bs)" and nn: "NULL \<notin> set (l # as @ bs)" "new \<noteq> NULL"
    and l1: "successively (lk s) (l # as)" and l2: "successively (lk s) (bs @ [l])"
    using d new(1) by (simp_all add: dlist_split dlist_def [of s new])
  have en: "nxt s e = n" using dlist_links(1) [OF d] e by (simp add: n_def)
  have la: "successively (lk s) as" "nxt s l = hd as"
    using l1 False by (cases as; simp add: lk_def successively_Cons)+
  note ni = ring_notin [OF dist]
  have el: "e \<in> set as" "hd as \<in> set as" "n \<in> set (l # bs)"
    using e False hd_snoc_in [of bs l] by (auto simp: n_def)
  have neq: "e \<noteq> l" "e \<noteq> new" "hd as \<noteq> l" "hd as \<noteq> new" "n \<noteq> new" "n \<notin> set as" "e \<notin> set bs"
    "hd as \<notin> set bs" "new \<noteq> l"
    using el dist new by auto
  have s': "nxt ?s' = (nxt s)(new := hd as, e := new, l := n)"
    "prv ?s' = (prv s)(hd as := new, new := e, n := l)"
    using neq la en el
    by (auto simp: inline_list_cut_position_def Let_def set_nxt_def set_prv_def fun_eq_iff)
  have dx: "distinct as" using dist by simp
  have hd_tl: "hd as \<notin> set (tl as)" using dx False by (cases as) auto
  have la_bu: "e \<notin> set (butlast as)" using dx False e by (cases as rule: rev_cases) auto
  have "successively (lk ?s') as"
  proof (rule successively_frame [OF la(1)])
    show "nxt ?s' x = nxt s x" if "x \<in> set (butlast as)" for x
      using that la_bu new(2) dist in_set_butlastD [OF that] by (auto simp: s'(1))
    show "prv ?s' y = prv s y" if "y \<in> set (tl as)" for y
      using that hd_tl neq(6) new(2) list.set_sel(2) [OF False that] by (auto simp: s'(2))
  qed
  moreover have "lk ?s' new (hd as)" "lk ?s' e new"
    unfolding lk_def s' using neq el by auto
  ultimately have 1: "dlist ?s' new as"
    using dist nn new False e
    by (auto simp: dlist_def successively_Cons successively_append_iff)
  have "successively (lk ?s') (bs @ [l])"
  proof (rule successively_frame [OF l2])
    show "nxt ?s' x = nxt s x" if "x \<in> set (butlast (bs @ [l]))" for x
      using that new(2) neq dist by (auto simp: s'(1))
    show "prv ?s' y = prv s y" if "y \<in> set (tl (bs @ [l]))" for y
      using that ni(3) neq new(2) in_tl_snoc [OF that] by (auto simp: s'(2) n_def)
  qed
  moreover have "lk ?s' l n" by (simp add: lk_def s')
  ultimately have "dlist ?s' l ([] @ bs)"
    unfolding dlist_split using dist nn by (auto simp: n_def)
  with 1 show ?thesis by simp
qed

lemma dlist_list_check:
  assumes "dlist s h (as @ x # bs)"
  shows "list_check x s"
proof -
  have 1: "dlist s h (as @ (x # bs))" and 2: "dlist s h ((as @ [x]) @ bs)" using assms by simp_all
  have "NULL \<notin> set (h # as @ x # bs)" using assms by (simp add: dlist_def)
  moreover have "last (h # as) \<in> set (h # as)" "hd (bs @ [h]) \<in> set (h # bs)"
    using hd_snoc_in [of bs h] by (simp, blast)
  ultimately show ?thesis
    using dlist_links [OF 1] dlist_links [OF 2] unfolding list_check_def by auto
qed

text \<open>The membership walk reaches the head again, and answers membership.\<close>

lemma list_contains_walk:
  "dlist s h (as @ bs) \<Longrightarrow>
     list_contains_from (hd (bs @ [h])) e h s = Some (e \<in> set bs)"
proof (induction bs arbitrary: as)
  case Nil
  show ?case by (simp add: list_contains_from.simps)
next
  case (Cons b bs)
  have "dlist s h ((as @ [b]) @ bs)" using Cons.prems by simp
  note IH = Cons.IH [OF this] and nb = dlist_links(1) [OF this]
  have "b \<noteq> h" using Cons.prems by (auto simp: dlist_def)
  then show ?case
    using IH nb by (subst list_contains_from.simps) auto
qed

lemma dlist_contains: "dlist s h xs \<Longrightarrow> inline_list_contains e h s = Some (e \<in> set xs)"
  using list_contains_walk [of s h "[]" xs e] dlist_links(1) [of s h "[]" xs]
  by (simp add: inline_list_contains_def)

lemma dlist_is_last:
  assumes "dlist s h (as @ x # bs)"
  shows "inline_list_is_last x h s \<longleftrightarrow> bs = []"
proof -
  have "nxt s x = hd (bs @ [h])" using dlist_links(1) [of s h "as @ [x]" bs] assms by simp
  moreover have "h \<notin> set bs" using assms by (auto simp: dlist_def)
  ultimately show ?thesis by (cases bs) (auto simp: inline_list_is_last_def)
qed

lemma dlist_is_singular: "dlist s h xs \<Longrightarrow> inline_list_is_singular h s \<longleftrightarrow> length xs = 1"
proof (cases xs)
  case (Cons x bs)
  assume d: "dlist s h xs"
  have "nxt s h = x" "prv s h = last xs" using dlist_segment [OF d] Cons by auto
  moreover have "last xs = x \<longleftrightarrow> bs = []"
    using d Cons by (cases bs rule: rev_cases) (auto simp: dlist_def)
  ultimately show ?thesis
    using Cons dlist_empty_iff [OF d] by (auto simp: inline_list_is_singular_def)
qed (auto simp: inline_list_is_singular_def dlist_empty_iff)

lemma dlist_first: "dlist s h xs \<Longrightarrow> list_first_entry h s = (if xs = [] then NULL else hd xs)"
  by (simp add: list_first_entry_def dlist_empty_iff dlist_segment)

section \<open>The interface the queues of the other components rely on\<close>

locale ring_ops =
  fixes ring :: "'s \<Rightarrow> 'p \<Rightarrow> 'p list \<Rightarrow> bool"
    and add_tail :: "'p \<Rightarrow> 'p \<Rightarrow> 's \<Rightarrow> 's"
    and add_first :: "'p \<Rightarrow> 'p \<Rightarrow> 's \<Rightarrow> 's"
    and del :: "'p \<Rightarrow> 's \<Rightarrow> 's"
    and first :: "'p \<Rightarrow> 's \<Rightarrow> 'p"
    and nil :: 'p
  assumes ring_add_tail:
      "ring s h xs \<Longrightarrow> x \<noteq> nil \<Longrightarrow> x \<notin> set (h # xs) \<Longrightarrow> ring (add_tail x h s) h (xs @ [x])"
    and ring_add_first:
      "ring s h xs \<Longrightarrow> x \<noteq> nil \<Longrightarrow> x \<notin> set (h # xs) \<Longrightarrow> ring (add_first x h s) h (x # xs)"
    and ring_del: "ring s h (as @ x # bs) \<Longrightarrow> ring (del x s) h (as @ bs)"
    and ring_first: "ring s h xs \<Longrightarrow> first h s = (if xs = [] then nil else hd xs)"
    and ring_ok: "ring s h xs \<Longrightarrow> distinct (h # xs) \<and> nil \<notin> set (h # xs)"
begin

lemma ring_remove1:
  assumes "ring s h xs" and "x \<in> set xs"
  shows "ring (del x s) h (remove1 x xs)"
proof -
  obtain as bs where xs: "xs = as @ x # bs" and "x \<notin> set as"
    using assms(2) by (auto dest: split_list_first)
  then show ?thesis using ring_del [of s h as x bs] assms(1) by (simp add: remove1_append)
qed

text \<open>Taking the first entry off a ring and putting it back at the tail: the round-robin step.\<close>

lemma ring_rotate:
  assumes r: "ring s h xs" and ne: "xs \<noteq> []"
  shows "ring (add_tail (first h s) h (del (first h s) s)) h (rotate1 xs)"
proof -
  obtain x bs where xs: "xs = x # bs" using ne by (cases xs) auto
  have "ring (del x s) h bs" using ring_del [of s h "[]" x bs] r xs by simp
  moreover have "x \<noteq> nil" "x \<notin> set (h # bs)" using ring_ok [OF r] xs by auto
  ultimately have "ring (add_tail x h (del x s)) h (bs @ [x])" by (rule ring_add_tail)
  then show ?thesis using ring_first [OF r] xs by simp
qed

text \<open>Draining a ring from the front meets the entries in the order they were queued.\<close>

lemma ring_pop:
  assumes r: "ring s h (x # xs)"
  shows "first h s = x" and "ring (del (first h s) s) h xs"
  using ring_first [OF r] ring_del [of s h "[]" x xs] r by simp_all

end

interpretation ipxe_list: ring_ops dlist inline_list_add_tail inline_list_add inline_list_del
    list_first_entry NULL
proof
  show "\<And>s h as x bs. dlist s h (as @ x # bs) \<Longrightarrow> dlist (inline_list_del x s) h (as @ bs)"
    by (rule dlist_del)
qed (auto simp: dlist_add_tail dlist_add dlist_first, auto simp: dlist_def)

section \<open>Properties\<close>

text \<open>C20: inserting after or before any position of a well-formed ring and deleting any entry from
  it perform exactly the corresponding list edit and leave the ring well-formed, whatever the
  aliasing between the head, the entry and its neighbours.\<close>

theorem list_edit_refines:
  "(dlist s h (as @ bs) \<and> new \<noteq> NULL \<and> new \<notin> set (h # as @ bs) \<longrightarrow>
      dlist (inline_list_add new (last (h # as)) s) h (as @ new # bs) \<and>
      dlist (inline_list_add_tail new (hd (bs @ [h])) s) h (as @ new # bs)) \<and>
   (dlist s h (as @ x # bs) \<longrightarrow> dlist (inline_list_del x s) h (as @ bs) \<and> list_check x s)"
  using dlist_add_after [of s h as bs new] dlist_add_before [of s h as bs new]
    dlist_del [of s h as x bs] dlist_list_check [of s h as x bs] by blast

theorem list_edit_refines_witness:
  "dlist (inline_list_add 8 4 (INIT_LIST_HEAD 4 \<lparr>nxt = \<lambda>_. 0, prv = \<lambda>_. 0\<rparr>)) 4 [8]"
proof -
  have "dlist (INIT_LIST_HEAD 4 \<lparr>nxt = \<lambda>_. 0, prv = \<lambda>_. 0\<rparr>) 4 ([] @ [])" by (simp add: dlist_INIT)
  then show ?thesis
    using list_edit_refines [of "INIT_LIST_HEAD 4 \<lparr>nxt = \<lambda>_. 0, prv = \<lambda>_. 0\<rparr>" 4 "[]" "[]" 8] by simp
qed

text \<open>Splicing moves every entry of one ring into another at the chosen position and leaves
  the source ring empty, and cutting is its inverse: it moves the entries up to the chosen one to a
  new head and leaves the rest.\<close>

theorem list_splice_cut_refines:
  "(dlist s h (as @ bs) \<and> dlist s l xs \<and> distinct (h # as @ xs @ bs) \<and> l \<notin> set (h # as @ bs) \<longrightarrow>
      (let s' = inline_list_splice_init l (last (h # as)) s in
         dlist s' h (as @ xs @ bs) \<and> dlist s' l []) \<and>
      (let s' = inline_list_splice_tail_init l (hd (bs @ [h])) s in
         dlist s' h (as @ xs @ bs) \<and> dlist s' l [])) \<and>
   (dlist s h (as @ bs) \<and> dlist s l [] \<and> l \<notin> set (h # as @ bs) \<longrightarrow>
      (let s' = inline_list_cut_position l h (last (h # as)) s in dlist s' l as \<and> dlist s' h bs))"
  using dlist_splice_init [of s h as bs l xs] dlist_splice_tail_init [of s h as bs l xs]
    dlist_cut_position [of s h as bs l] unfolding Let_def by blast

theorem list_splice_cut_refines_witness:
  "\<exists>s. dlist s 4 [8] \<and> dlist s 12 [] \<and>
     dlist (inline_list_cut_position 12 4 8 s) 12 [8] \<and> dlist (inline_list_cut_position 12 4 8 s) 4 []"
proof -
  define s where "s = \<lparr>nxt = (\<lambda>x. if x = 4 then 8 else if x = 8 then 4 else 12),
    prv = (\<lambda>x. if x = 4 then 8 else if x = 8 then 4 else (12 :: ptr))\<rparr>"
  have "dlist s 4 ([8] @ [])" "dlist s 12 []" by (simp_all add: dlist_def lk_def s_def)
  then show ?thesis
    using list_splice_cut_refines [of s 4 "[8]" "[]" 12 "[]"] by (auto simp: Let_def)
qed

end
