(* ===== verification/Memory.thy ===== *)
theory Memory
  imports Prelude
begin

text \<open>
  Byte memory and the routines of \<open>src/src/core/string.c\<close> over it.  Memory is flat: a pointer is a
  32-bit word, and every routine is the loop of the source, one byte per step, so that overlapping
  areas behave as they do in the code.  Loops bounded by a count recurse on the count; loops that
  look for a terminator are partial functions, since an unterminated string makes them run on.
  \<open>cstr m p s\<close> says that a NUL-terminated string with the characters \<open>s\<close> is stored at \<open>p\<close>.
\<close>

type_synonym memory = "ptr \<Rightarrow> byte"

section \<open>Block operations\<close>

fun memset :: "ptr \<Rightarrow> byte \<Rightarrow> nat \<Rightarrow> memory \<Rightarrow> memory" where
  "memset xs c 0 m = m"
| "memset xs c (Suc count) m = memset (xs + 1) c count (m(xs := c))"

fun memcpy :: "ptr \<Rightarrow> ptr \<Rightarrow> nat \<Rightarrow> memory \<Rightarrow> memory" where
  "memcpy tmp s 0 m = m"
| "memcpy tmp s (Suc count) m = memcpy (tmp + 1) (s + 1) count (m(tmp := m s))"

text \<open>The descending loop of \<open>memmove()\<close>: both pointers are decremented before the byte is copied.\<close>

fun memmove_down :: "ptr \<Rightarrow> ptr \<Rightarrow> nat \<Rightarrow> memory \<Rightarrow> memory" where
  "memmove_down tmp s 0 m = m"
| "memmove_down tmp s (Suc count) m = memmove_down (tmp - 1) (s - 1) count (m(tmp - 1 := m (s - 1)))"

definition memmove :: "ptr \<Rightarrow> ptr \<Rightarrow> nat \<Rightarrow> memory \<Rightarrow> memory" where
  "memmove dest src count m =
     (if dest \<le> src then memcpy dest src count m
      else memmove_down (dest + of_nat count) (src + of_nat count) count m)"

fun memcmp :: "ptr \<Rightarrow> ptr \<Rightarrow> nat \<Rightarrow> memory \<Rightarrow> int" where
  "memcmp su1 su2 0 m = 0"
| "memcmp su1 su2 (Suc count) m =
     (let res = uint (m su1) - uint (m su2)
      in if res \<noteq> 0 then res else memcmp (su1 + 1) (su2 + 1) count m)"

fun memchr :: "ptr \<Rightarrow> byte \<Rightarrow> nat \<Rightarrow> memory \<Rightarrow> ptr" where
  "memchr p c 0 m = NULL"
| "memchr p c (Suc n) m = (if c = m p then p else memchr (p + 1) c n m)"

section \<open>String operations\<close>

partial_function (option) strlen_from :: "ptr \<Rightarrow> ptr \<Rightarrow> memory \<Rightarrow> u32 option" where
  "strlen_from sc s m = (if m sc \<noteq> 0 then strlen_from (sc + 1) s m else Some (sc - s))"

definition strlen :: "ptr \<Rightarrow> memory \<Rightarrow> u32 option" where
  "strlen s m = strlen_from s s m"

fun strnlen_from :: "ptr \<Rightarrow> ptr \<Rightarrow> nat \<Rightarrow> memory \<Rightarrow> u32" where
  "strnlen_from sc s 0 m = sc - s"
| "strnlen_from sc s (Suc count) m = (if m sc \<noteq> 0 then strnlen_from (sc + 1) s count m else sc - s)"

definition strnlen :: "ptr \<Rightarrow> nat \<Rightarrow> memory \<Rightarrow> u32" where
  "strnlen s count m = strnlen_from s s count m"

text \<open>The comparison result is kept in a \<open>signed char\<close>, so it is the difference modulo 256.\<close>

partial_function (option) strcmp :: "ptr \<Rightarrow> ptr \<Rightarrow> memory \<Rightarrow> int option" where
  "strcmp cs ct m =
     (let res = m cs - m ct
      in if res \<noteq> 0 \<or> m cs = 0 then Some (sint res) else strcmp (cs + 1) (ct + 1) m)"

fun strncmp :: "ptr \<Rightarrow> ptr \<Rightarrow> nat \<Rightarrow> memory \<Rightarrow> int" where
  "strncmp cs ct 0 m = 0"
| "strncmp cs ct (Suc count) m =
     (let res = m cs - m ct
      in if res \<noteq> 0 \<or> m cs = 0 then sint res else strncmp (cs + 1) (ct + 1) count m)"

definition char_fold :: "byte \<Rightarrow> int" where
  "char_fold c = sint c AND NOT 32"

partial_function (option) strcasecmp :: "ptr \<Rightarrow> ptr \<Rightarrow> memory \<Rightarrow> int option" where
  "strcasecmp a b m =
     (if m a \<noteq> 0 \<and> m b \<noteq> 0 \<and> char_fold (m a) = char_fold (m b)
      then strcasecmp (a + 1) (b + 1) m
      else Some (char_fold (m a) - char_fold (m b)))"

partial_function (option) strchr :: "ptr \<Rightarrow> byte \<Rightarrow> memory \<Rightarrow> ptr option" where
  "strchr s c m =
     (if m s \<noteq> c then (if m s = 0 then Some NULL else strchr (s + 1) c m) else Some s)"

text \<open>\<open>strrchr()\<close> steps down from the terminator; \<open>n\<close> is the distance \<open>p - s\<close> still to go.\<close>

fun strrchr_from :: "ptr \<Rightarrow> nat \<Rightarrow> byte \<Rightarrow> memory \<Rightarrow> ptr" where
  "strrchr_from s 0 c m = (if m s = c then s else NULL)"
| "strrchr_from s (Suc n) c m =
     (let p = s + of_nat (Suc n) in if m p = c then p else strrchr_from s n c m)"

definition strrchr :: "ptr \<Rightarrow> byte \<Rightarrow> memory \<Rightarrow> ptr option" where
  "strrchr s c m = (case strlen s m of None \<Rightarrow> None | Some l \<Rightarrow> Some (strrchr_from s (unat l) c m))"

partial_function (option) strcpy_loop :: "ptr \<Rightarrow> ptr \<Rightarrow> memory \<Rightarrow> memory option" where
  "strcpy_loop dest src m =
     (let c = m src; m' = m(dest := c)
      in if c \<noteq> 0 then strcpy_loop (dest + 1) (src + 1) m' else Some m')"

definition strcpy :: "ptr \<Rightarrow> ptr \<Rightarrow> memory \<Rightarrow> memory option" where
  "strcpy dest src m = strcpy_loop dest src m"

fun strncpy :: "ptr \<Rightarrow> ptr \<Rightarrow> nat \<Rightarrow> memory \<Rightarrow> memory" where
  "strncpy dest src 0 m = m"
| "strncpy dest src (Suc count) m =
     (let c = m src; m' = m(dest := c)
      in if c \<noteq> 0 then strncpy (dest + 1) (src + 1) count m' else m')"

definition strcat :: "ptr \<Rightarrow> ptr \<Rightarrow> memory \<Rightarrow> memory option" where
  "strcat dest src m =
     (case strlen dest m of None \<Rightarrow> None | Some l \<Rightarrow> strcpy_loop (dest + l) src m)"

fun strstr_loop :: "nat \<Rightarrow> ptr \<Rightarrow> ptr \<Rightarrow> nat \<Rightarrow> memory \<Rightarrow> ptr" where
  "strstr_loop l1 s1 s2 l2 m =
     (if l1 \<ge> l2 \<and> 0 < l2 then
        (if memcmp s1 s2 l2 m = 0 then s1 else strstr_loop (l1 - 1) (s1 + 1) s2 l2 m)
      else NULL)"

definition strstr :: "ptr \<Rightarrow> ptr \<Rightarrow> memory \<Rightarrow> ptr option" where
  "strstr s1 s2 m =
     (case strlen s2 m of None \<Rightarrow> None
      | Some l2 \<Rightarrow> if l2 = 0 then Some s1
          else (case strlen s1 m of None \<Rightarrow> None
                | Some l1 \<Rightarrow> Some (strstr_loop (unat l1) s1 s2 (unat l2) m)))"

declare strstr_loop.simps [simp del]

section \<open>Areas and strings\<close>

definition area :: "memory \<Rightarrow> ptr \<Rightarrow> nat \<Rightarrow> byte list" where
  "area m p n = map (\<lambda>i. m (p + of_nat i)) [0..<n]"

definition within :: "ptr \<Rightarrow> nat \<Rightarrow> ptr \<Rightarrow> bool" where
  "within p n a \<longleftrightarrow> unat p \<le> unat a \<and> unat a < unat p + n"

fun cstr :: "memory \<Rightarrow> ptr \<Rightarrow> byte list \<Rightarrow> bool" where
  "cstr m p [] \<longleftrightarrow> m p = 0"
| "cstr m p (c # cs) \<longleftrightarrow> c \<noteq> 0 \<and> m p = c \<and> cstr m (p + 1) cs"

text \<open>Two areas that do not overlap and do not wrap around the end of the address space.\<close>

definition apart :: "ptr \<Rightarrow> nat \<Rightarrow> ptr \<Rightarrow> nat \<Rightarrow> bool" where
  "apart p k q n \<longleftrightarrow> unat p + k \<le> 2 ^ 32 \<and> unat q + n \<le> 2 ^ 32 \<and>
     (unat p + k \<le> unat q \<or> unat q + n \<le> unat p)"

text \<open>Little-endian 32-bit loads and stores.\<close>

definition load32 :: "ptr \<Rightarrow> memory \<Rightarrow> u32" where
  "load32 p m = ucast (m p) OR push_bit 8 (ucast (m (p + 1))) OR
     push_bit 16 (ucast (m (p + 2))) OR push_bit 24 (ucast (m (p + 3)))"

definition store32 :: "ptr \<Rightarrow> u32 \<Rightarrow> memory \<Rightarrow> memory" where
  "store32 p v m = m(p := ucast v, p + 1 := ucast (drop_bit 8 v),
     p + 2 := ucast (drop_bit 16 v), p + 3 := ucast (drop_bit 24 v))"

definition trailing_space_memory :: memory where
  "trailing_space_memory = (\<lambda>a. if a = 16 then 0x61 else if a = 32 then 0x61 else if a = 33 then 0x20 else 0)"

section \<open>Areas\<close>

lemma within_Suc:
  "unat p + Suc n \<le> 2 ^ 32 \<Longrightarrow> within p (Suc n) a \<longleftrightarrow> a = p \<or> within (p + 1) n a"
proof (cases n)
  case 0
  then show ?thesis by (auto simp: within_def unat_arith_simps)
next
  case (Suc k)
  assume "unat p + Suc n \<le> 2 ^ 32"
  then have "unat (p + 1) = unat p + 1" using Suc by (simp add: unat_plus1)
  then show ?thesis by (auto simp: within_def unat_arith_simps)
qed

lemma within_0 [simp]: "\<not> within p 0 a"
  by (simp add: within_def)

lemma within_1 [simp]: "within p (Suc 0) a \<longleftrightarrow> a = p"
  by (auto simp: within_def word_unat_eq_iff)

lemma within_offset:
  "within p n a \<Longrightarrow> unat s + n \<le> 2 ^ 32 \<Longrightarrow> unat (s + (a - p)) = unat s + (unat a - unat p)"
  unfolding within_def
  by (subst unat_add_nowrap) (auto simp: unat_sub_le)

lemma memcpy_apply:
  assumes "unat d + n \<le> 2 ^ 32" "unat s + n \<le> 2 ^ 32" "unat d \<le> unat s \<or> unat s + n \<le> unat d"
  shows "memcpy d s n m a = (if within d n a then m (s + (a - d)) else m a)"
  using assms
proof (induction n arbitrary: d s m)
  case 0
  then show ?case by simp
next
  case (Suc n)
  show ?case
  proof (cases n)
    case 0
    then show ?thesis by simp
  next
    case (Suc k)
    have 1: "unat (d + 1) = unat d + 1" "unat (s + 1) = unat s + 1"
      using Suc.prems \<open>n = Suc k\<close> by (auto simp: unat_plus1)
    let ?m = "m(d := m s)"
    have IH: "memcpy (d + 1) (s + 1) n ?m a =
       (if within (d + 1) n a then ?m (s + 1 + (a - (d + 1))) else ?m a)"
      using Suc.prems 1 by (intro Suc.IH) auto
    have "s + (a - d) \<noteq> d" if "within (d + 1) n a"
    proof
      assume eq: "s + (a - d) = d"
      have "unat (s + 1 + (a - (d + 1))) = unat s + 1 + (unat a - (unat d + 1))"
        using within_offset [OF that, of "s + 1"] Suc.prems 1 by simp
      moreover have "s + 1 + (a - (d + 1)) = d" using eq by simp
      ultimately show False using Suc.prems that 1 by (auto simp: within_def)
    qed
    moreover have "\<not> within (d + 1) n d" using 1 by (simp add: within_def)
    ultimately show ?thesis
      using IH within_Suc [of d n a] Suc.prems by auto
  qed
qed

lemma memmove_down_apply:
  assumes "unat d + n \<le> 2 ^ 32" "unat s + n \<le> 2 ^ 32" "unat s \<le> unat d"
  shows "memmove_down (d + of_nat n) (s + of_nat n) n m a = (if within d n a then m (s + (a - d)) else m a)"
  using assms
proof (induction n arbitrary: m)
  case 0
  then show ?case by simp
next
  case (Suc n)
  have 1: "unat (d + of_nat n) = unat d + n" "unat (s + of_nat n) = unat s + n"
    using Suc.prems by (auto simp: unat_plus_of_nat)
  let ?m = "m(d + of_nat n := m (s + of_nat n))"
  have IH: "memmove_down (d + of_nat n) (s + of_nat n) n ?m a =
     (if within d n a then ?m (s + (a - d)) else ?m a)"
    using Suc.prems by (intro Suc.IH) auto
  have "s + (a - d) \<noteq> d + of_nat n" if "within d n a"
    using within_offset [OF that, of s] Suc.prems 1 that by (auto simp: within_def unat_arith_simps)
  moreover have "within d (Suc n) a \<longleftrightarrow> a = d + of_nat n \<or> within d n a"
    using 1 by (auto simp: within_def unat_arith_simps)
  moreover have "\<not> within d n (d + of_nat n)" using 1 by (simp add: within_def)
  ultimately show ?case using IH by (auto simp: algebra_simps)
qed

lemma area_eqI:
  assumes "\<And>i. i < n \<Longrightarrow> m (p + of_nat i) = m' (q + of_nat i)"
  shows "area m p n = area m' q n"
  using assms by (simp add: area_def)

lemma within_of_nat: "i < n \<Longrightarrow> unat d + n \<le> 2 ^ 32 \<Longrightarrow> within d n (d + of_nat i)"
  by (simp add: within_def unat_plus_of_nat)

lemma memmove_apply:
  assumes "unat d + n \<le> 2 ^ 32" "unat s + n \<le> 2 ^ 32"
  shows "memmove d s n m a = (if within d n a then m (s + (a - d)) else m a)"
  using assms memcpy_apply [of d n s m a] memmove_down_apply [of d n s m a]
  by (auto simp: memmove_def word_le_nat_alt)

lemma memset_apply:
  assumes "unat d + n \<le> 2 ^ 32"
  shows "memset d c n m a = (if within d n a then c else m a)"
  using assms
proof (induction n arbitrary: d m)
  case (Suc n)
  show ?case
  proof (cases n)
    case 0
    then show ?thesis by simp
  next
    case (Suc k)
    have 1: "unat (d + 1) = unat d + 1" using Suc.prems Suc by (simp add: unat_plus1)
    have "memset (d + 1) c n (m(d := c)) a = (if within (d + 1) n a then c else (m(d := c)) a)"
      using 1 Suc.prems by (intro Suc.IH) auto
    then show ?thesis using Suc.prems within_Suc [of d n a] by auto
  qed
qed simp

lemma cstr_strlen_from:
  "cstr m p s \<Longrightarrow> strlen_from p q m = Some (p - q + of_nat (length s))"
proof (induction s arbitrary: p)
  case Nil
  then show ?case by (simp add: strlen_from.simps)
next
  case (Cons c s)
  then show ?case by (subst strlen_from.simps) (simp add: algebra_simps)
qed

lemma cstr_strlen: "cstr m p s \<Longrightarrow> strlen p m = Some (of_nat (length s))"
  by (simp add: strlen_def cstr_strlen_from)

lemma cstr_strcmp:
  "cstr m p s \<Longrightarrow> cstr m q t \<Longrightarrow> \<exists>r. strcmp p q m = Some r \<and> (r = 0 \<longleftrightarrow> s = t)"
proof (induction s arbitrary: p q t)
  case Nil
  then show ?case by (cases t; subst strcmp.simps) (auto simp: Let_def)
next
  case (Cons c s)
  show ?case
  proof (cases t)
    case Nil
    then show ?thesis using Cons.prems by (subst strcmp.simps) (auto simp: Let_def)
  next
    case (Cons d ds)
    then show ?thesis using Cons.prems Cons.IH [of "p + 1" "q + 1" ds]
      by (subst strcmp.simps) (auto simp: Let_def)
  qed
qed

lemma cstr_strchr:
  "cstr m p s \<Longrightarrow> c \<noteq> 0 \<Longrightarrow>
     strchr p c m = Some (if c \<in> set s then p + of_nat (length (takeWhile ((\<noteq>) c) s)) else NULL)"
proof (induction s arbitrary: p)
  case Nil
  then show ?case by (subst strchr.simps) auto
next
  case (Cons a s)
  then show ?case by (subst strchr.simps) (auto simp: algebra_simps)
qed

lemma area_Suc: "area m p (Suc n) = m p # area m (p + 1) n"
  by (simp add: area_def upt_conv_Cons map_Suc_upt [symmetric] algebra_simps del: upt_Suc)

lemma memcmp_eq_0: "memcmp p q n m = 0 \<longleftrightarrow> area m p n = area m q n"
proof (induction n arbitrary: p q)
  case 0
  show ?case by (simp add: area_def)
next
  case (Suc n)
  show ?case using Suc [of "p + 1" "q + 1"] by (simp add: area_Suc Let_def word_uint_eq_iff)
qed

lemma cstr_strncmp:
  "cstr m p s \<Longrightarrow> cstr m q t \<Longrightarrow> strncmp p q n m = 0 \<longleftrightarrow> take n s = take n t"
proof (induction n arbitrary: p q s t)
  case 0
  show ?case by simp
next
  case (Suc n)
  then show ?case
    using Suc.IH [of "p + 1" "tl s" "q + 1" "tl t"] by (cases s; cases t) (auto simp: Let_def)
qed

lemma cstr_cong:
  "(\<And>i. i \<le> length s \<Longrightarrow> m' (p + of_nat i) = m (p + of_nat i)) \<Longrightarrow> cstr m' p s = cstr m p s"
proof (induction s arbitrary: p)
  case Nil
  then show ?case by force
next
  case (Cons c s)
  have "cstr m' (p + 1) s = cstr m (p + 1) s"
    using Cons.prems [of "Suc i" for i] by (intro Cons.IH) (simp add: algebra_simps)
  then show ?case using Cons.prems [of 0] by simp
qed

lemma cstr_area: "cstr m p s \<longleftrightarrow> area m p (length s + 1) = s @ [0] \<and> 0 \<notin> set s"
  by (induction s arbitrary: p) (auto simp: area_Suc, auto simp: area_def)

lemma strcpy_loop_memcpy:
  assumes "cstr m q s" and "apart p (length s + 1) q (length s + 1)"
  shows "strcpy_loop p q m = Some (memcpy p q (length s + 1) m)"
  using assms
proof (induction s arbitrary: p q m)
  case Nil
  then show ?case by (subst strcpy_loop.simps) (simp add: Let_def)
next
  case (Cons c s)
  have u: "unat (p + 1) = unat p + 1" "unat (q + 1) = unat q + 1"
    using Cons.prems(2) by (auto simp: apart_def unat_plus1)
  have "p \<noteq> q + 1 + of_nat i" if "i \<le> length s" for i
  proof -
    have "unat (q + 1 + of_nat i) = unat q + 1 + i"
      using that u Cons.prems(2) by (subst unat_plus_of_nat) (auto simp: apart_def)
    then show ?thesis using that Cons.prems(2) by (auto simp: apart_def)
  qed
  then have "cstr (m(p := m q)) (q + 1) s"
    using Cons.prems(1) by (subst cstr_cong [where m = m]) auto
  moreover have "apart (p + 1) (length s + 1) (q + 1) (length s + 1)"
    using Cons.prems(2) u by (auto simp: apart_def)
  ultimately have "strcpy_loop (p + 1) (q + 1) (m(p := m q)) =
      Some (memcpy (p + 1) (q + 1) (length s + 1) (m(p := m q)))"
    by (rule Cons.IH)
  then show ?case using Cons.prems(1) by (subst strcpy_loop.simps) (simp add: Let_def)
qed

lemma memcpy_area:
  assumes "apart d n s n"
  shows "area (memcpy d s n m) d n = area m s n"
  using assms by (intro area_eqI) (auto simp: apart_def memcpy_apply within_of_nat)

lemma strcpy_cstr:
  assumes "cstr m q s" and "apart p (length s + 1) q (length s + 1)"
  shows "\<exists>m'. strcpy p q m = Some m' \<and> cstr m' p s \<and> (\<forall>a. \<not> within p (length s + 1) a \<longrightarrow> m' a = m a)"
proof -
  have "memcpy p q (length s + 1) m a = m a" if "\<not> within p (length s + 1) a" for a
    using that assms(2) by (subst memcpy_apply) (auto simp: apart_def)
  then show ?thesis
    using strcpy_loop_memcpy [OF assms] memcpy_area [OF assms(2), of m] assms(1)
    by (simp add: strcpy_def cstr_area del: memcpy.simps)
qed

lemma strrchr_from_spec:
  "strrchr_from p n c m = (if c \<in> set (area m p (Suc n))
     then p + of_nat (n - length (takeWhile ((\<noteq>) c) (rev (area m p (Suc n))))) else NULL)"
proof (induction n)
  case 0
  then show ?case by (simp add: area_def)
next
  case (Suc n)
  have "area m p (Suc (Suc n)) = area m p (Suc n) @ [m (p + of_nat (Suc n))]" by (simp add: area_def)
  then show ?case using Suc by (auto simp: Let_def)
qed

lemma bytes_of_word32:
  "ucast (ucast v :: byte) OR push_bit 8 (ucast (ucast (drop_bit 8 v) :: byte)) OR
   push_bit 16 (ucast (ucast (drop_bit 16 v) :: byte)) OR
   push_bit 24 (ucast (ucast (drop_bit 24 v) :: byte)) = (v :: u32)"
proof (rule bit_word_eqI)
  fix n :: nat
  assume "n < LENGTH(32)"
  then show "bit (ucast (ucast v :: byte) OR push_bit 8 (ucast (ucast (drop_bit 8 v) :: byte)) OR
   push_bit 16 (ucast (ucast (drop_bit 16 v) :: byte)) OR
   push_bit 24 (ucast (ucast (drop_bit 24 v) :: byte)) :: u32) n = bit v n"
    by (cases "n < 8"; cases "n < 16"; cases "n < 24") (auto simp: bit_simps)
qed

lemma load_store32: "load32 p (store32 p v m) = v"
proof -
  have "store32 p v m p = ucast v" "store32 p v m (p + 1) = ucast (drop_bit 8 v)"
    "store32 p v m (p + 2) = ucast (drop_bit 16 v)" "store32 p v m (p + 3) = ucast (drop_bit 24 v)"
    by (simp_all add: store32_def)
  then show ?thesis by (simp only: load32_def bytes_of_word32)
qed

lemma within_4: "unat p + 4 \<le> 2 ^ 32 \<Longrightarrow> within p 4 p \<and> within p 4 (p + 1) \<and> within p 4 (p + 2) \<and> within p 4 (p + 3)"
  using within_of_nat [of 0 4 p] within_of_nat [of 1 4 p] within_of_nat [of 2 4 p] within_of_nat [of 3 4 p] by simp

lemma store32_other: "\<not> within p 4 a \<Longrightarrow> unat p + 4 \<le> 2 ^ 32 \<Longrightarrow> store32 p v m a = m a"
  using within_4 [of p] by (auto simp: store32_def)

section \<open>Properties\<close>

text \<open>Memmove() copies the source area to the destination area byte for byte, also when the two
  overlap in either direction, and writes nothing outside the destination.\<close>

theorem memmove_correct:
  assumes "unat d + n \<le> 2 ^ 32" and "unat s + n \<le> 2 ^ 32"
  shows "area (memmove d s n m) d n = area m s n \<and>
    (\<forall>a. \<not> within d n a \<longrightarrow> memmove d s n m a = m a)"
  using assms by (auto intro!: area_eqI simp: memmove_apply within_of_nat)

theorem memmove_correct_witness:
  "area (memmove 101 100 2 (\<lambda>a. ucast a)) 101 2 = [100, 101]"
proof -
  have "area (memmove 101 100 2 (\<lambda>a. ucast a)) 101 2 = area (\<lambda>a. ucast a) 100 2"
    using memmove_correct [of 101 2 100 "\<lambda>a. ucast a"] by simp
  also have "\<dots> = [100, 101]" by (simp add: area_def upt_rec)
  finally show ?thesis .
qed

text \<open>On NUL-terminated strings the searching and comparing routines return (they do not run
  past the terminator): strlen() the length, strcmp() and strncmp() zero exactly on equal strings
  (equal prefixes), strchr() the first occurrence or NULL.\<close>

theorem cstring_routines:
  assumes "cstr m p s" and "cstr m q t" and "c \<noteq> 0"
  shows "strlen p m = Some (of_nat (length s)) \<and>
    (\<exists>r. strcmp p q m = Some r \<and> (r = 0 \<longleftrightarrow> s = t)) \<and>
    (strncmp p q n m = 0 \<longleftrightarrow> take n s = take n t) \<and>
    strchr p c m = Some (if c \<in> set s then p + of_nat (length (takeWhile ((\<noteq>) c) s)) else NULL)"
  using assms by (simp add: cstr_strlen cstr_strcmp cstr_strncmp cstr_strchr)

theorem cstring_routines_witness:
  "strlen 32 trailing_space_memory = Some 2 \<and> strchr 32 0x20 trailing_space_memory = Some 33"
  using cstring_routines [of trailing_space_memory 32 "[0x61, 0x20]" 16 "[0x61]" "0x20" 0]
  by (simp add: trailing_space_memory_def)

text \<open>Strcasecmp() reports the strings "a" and "a " (with a trailing space) as equal, because
  masking out bit 5 maps the space onto the terminating NUL.\<close>

theorem strcasecmp_trailing_space:
  "cstr trailing_space_memory 16 [0x61] \<and> cstr trailing_space_memory 32 [0x61, 0x20] \<and>
   strcasecmp 16 32 trailing_space_memory = Some 0"
  by (simp add: trailing_space_memory_def strcasecmp.simps char_fold_def)

end
