(* ===== verification/Malloc.thy ===== *)
theory Malloc
  imports Memory
begin

text \<open>
  The heap allocator of \<open>src/src/core/malloc.c\<close>.  A free block is the \<open>struct memory_block\<close> at its
  start; the address-ordered ring \<open>free_blocks\<close> of those structures is a HOL list of blocks (the
  rings of \<open>list.h\<close> are shown to behave as lists in theory \<open>Linked_Lists\<close>).  Sizes and addresses
  are 32-bit words, the gap and remainder tests are the signed tests of the code.  The bytes of
  allocated memory are the field \<open>mem\<close>; the bytes of free blocks hold the allocator's own headers
  and are not represented.  The cache discarders of the table \<open>CACHE_DISCARDERS\<close> are a parameter:
  each maps the state to the number of items it dropped and the new state, and the state type is
  extensible so that it may carry what the discarders work on.
\<close>

section \<open>State\<close>

record memory_block =
  baddr :: ptr
  bsize :: u32

record heap =
  free_blocks :: "memory_block list"
  freemem :: u32
  mem :: memory
  virt_offset :: u32

type_synonym 'a discarder = "'a heap_scheme \<Rightarrow> u32 \<times> 'a heap_scheme"

section \<open>Find last set bit\<close>

text \<open>\<open>__flsl()\<close> of \<open>src/src/core/bitops.c\<close> and its constant-folded variant of \<open>strings.h\<close>.\<close>

lemma flsl_shrinks [termination_simp]: "(v :: u32) \<noteq> 0 \<Longrightarrow> unat (drop_bit (Suc 0) v) < unat v"
proof -
  assume "v \<noteq> 0"
  then have "0 < unat v" by (simp add: unat_gt_0)
  then show ?thesis by (simp only: unat_drop_bit_eq) (simp add: drop_bit_Suc)
qed

function flsl :: "u32 \<Rightarrow> nat" where
  "flsl v = (if v \<noteq> 0 then Suc (flsl (drop_bit 1 v)) else 0)"
  by pat_completeness auto
termination by (relation "measure unat") (simp_all add: flsl_shrinks)

declare flsl.simps [simp del]

definition constant_flsl :: "u32 \<Rightarrow> nat" where
  "constant_flsl x =
     (let r = 0;
          (x, r) = (if x AND 0xffff0000 \<noteq> 0 then (drop_bit 16 x, r + 16) else (x, r));
          (x, r) = (if x AND 0xff00 \<noteq> 0 then (drop_bit 8 x, r + 8) else (x, r));
          (x, r) = (if x AND 0xf0 \<noteq> 0 then (drop_bit 4 x, r + 4) else (x, r));
          (x, r) = (if x AND 0xc \<noteq> 0 then (drop_bit 2 x, r + 2) else (x, r));
          (x, r) = (if x AND 0x2 \<noteq> 0 then (drop_bit 1 x, r + 1) else (x, r))
      in if x AND 0x1 \<noteq> 0 then r + 1 else r)"

section \<open>Constants\<close>

text \<open>On i386 \<open>struct memory_block\<close> is a size, a 4-byte pad and two list pointers.\<close>

definition sizeof_memory_block :: u32 where
  "sizeof_memory_block = 16"

definition MIN_MEMBLOCK_SIZE :: u32 where
  "MIN_MEMBLOCK_SIZE = push_bit (constant_flsl (sizeof_memory_block - 1)) 1"

definition NOWHERE :: ptr where
  "NOWHERE = NOT 0"

definition HEAP_SIZE :: u32 where
  "HEAP_SIZE = 1024 * 1024 * 50"

definition autosized_data_offset :: u32 where
  "autosized_data_offset = 4"

section \<open>Operations\<close>

definition virt_to_phys :: "u32 \<Rightarrow> ptr \<Rightarrow> u32" where
  "virt_to_phys voff p = p + voff"

fun discard_cache :: "'a discarder list \<Rightarrow> 'a heap_scheme \<Rightarrow> u32 \<times> 'a heap_scheme" where
  "discard_cache [] h = (0, h)"
| "discard_cache (d # ds) h =
     (let (discarded, h') = d h
      in if discarded \<noteq> 0 then (discarded, h') else discard_cache ds h')"

partial_function (option) discard_all_cache ::
  "'a discarder list \<Rightarrow> 'a heap_scheme \<Rightarrow> 'a heap_scheme option" where
  "discard_all_cache ds h =
     (case discard_cache ds h of (discarded, h') \<Rightarrow>
        if discarded \<noteq> 0 then discard_all_cache ds h' else Some h')"

text \<open>
  One pass over the free list: the first block that can hold \<open>sz\<close> bytes at the requested
  alignment is split into a "pre" block, the allocated block and a "post" block.
\<close>

fun alloc_scan :: "u32 \<Rightarrow> u32 \<Rightarrow> u32 \<Rightarrow> u32 \<Rightarrow> memory_block list \<Rightarrow>
    (ptr \<times> memory_block list) option" where
  "alloc_scan voff sz align_mask offset [] = None"
| "alloc_scan voff sz align_mask offset (pre # bs) =
     (let pre_size = (offset - virt_to_phys voff (baddr pre)) AND align_mask;
          post_size = bsize pre - pre_size - sz
      in if sint post_size \<ge> 0 then
           let block = baddr pre + pre_size;
               post = block + sz;
               bs = (if post_size \<ge> MIN_MEMBLOCK_SIZE
                     then \<lparr>baddr = post, bsize = post_size\<rparr> # bs else bs)
           in Some (block, if pre_size < MIN_MEMBLOCK_SIZE then bs
                           else pre\<lparr>bsize := pre_size\<rparr> # bs)
         else map_option (apsnd (Cons pre)) (alloc_scan voff sz align_mask offset bs))"

definition round_up_size :: "u32 \<Rightarrow> u32" where
  "round_up_size sz = (sz + MIN_MEMBLOCK_SIZE - 1) AND NOT (MIN_MEMBLOCK_SIZE - 1)"

partial_function (option) alloc_loop ::
  "'a discarder list \<Rightarrow> u32 \<Rightarrow> u32 \<Rightarrow> u32 \<Rightarrow> 'a heap_scheme \<Rightarrow> (ptr \<times> 'a heap_scheme) option" where
  "alloc_loop ds sz align_mask offset h =
     (case alloc_scan (virt_offset h) sz align_mask offset (free_blocks h) of
        Some (ptr, bs) \<Rightarrow> Some (ptr, h\<lparr>free_blocks := bs, freemem := freemem h - sz\<rparr>)
      | None \<Rightarrow> (case discard_cache ds h of (discarded, h') \<Rightarrow>
          if discarded = 0 then Some (NULL, h')
          else alloc_loop ds sz align_mask offset h'))"

definition alloc_memblock ::
  "'a discarder list \<Rightarrow> u32 \<Rightarrow> u32 \<Rightarrow> u32 \<Rightarrow> 'a heap_scheme \<Rightarrow> (ptr \<times> 'a heap_scheme) option" where
  "alloc_memblock ds sz align offset h =
     alloc_loop ds (round_up_size sz) ((align - 1) OR (MIN_MEMBLOCK_SIZE - 1)) offset h"

text \<open>
  The insertion pass of \<open>free_memblock()\<close>.  A block that ends where the freed block starts is
  unlinked and becomes the freed block; the walk stops at the first block that does not precede it.
  Were both to happen at the same block, the freed block would be linked to itself: the list would
  be lost, which is the result \<open>None\<close>.
\<close>

fun free_scan :: "u32 \<Rightarrow> memory_block \<Rightarrow> memory_block list \<Rightarrow> memory_block list option" where
  "free_scan sz freeing [] = Some [freeing]"
| "free_scan sz freeing (block # bs) =
     (let gap_before = baddr freeing - (baddr block + bsize block);
          gap_after = baddr block - (baddr freeing + bsize freeing)
      in if gap_before = 0 then
           (if sint gap_after \<ge> 0 then None
            else free_scan sz (block\<lparr>bsize := bsize block + sz\<rparr>) bs)
         else if sint gap_after \<ge> 0 then
           (if gap_after = 0 then Some (freeing\<lparr>bsize := bsize freeing + bsize block\<rparr> # bs)
            else Some (freeing # block # bs))
         else map_option (Cons block) (free_scan sz freeing bs))"

definition free_memblock :: "ptr \<Rightarrow> u32 \<Rightarrow> 'a heap_scheme \<Rightarrow> 'a heap_scheme option" where
  "free_memblock ptr sz h =
     (if ptr = NULL then Some h
      else let sz = round_up_size sz in
        case free_scan sz \<lparr>baddr = ptr, bsize = sz\<rparr> (free_blocks h) of
          None \<Rightarrow> None
        | Some bs \<Rightarrow> Some (h\<lparr>free_blocks := bs, freemem := freemem h + sz\<rparr>))"

definition realloc ::
  "'a discarder list \<Rightarrow> ptr \<Rightarrow> u32 \<Rightarrow> 'a heap_scheme \<Rightarrow> (ptr \<times> 'a heap_scheme) option" where
  "realloc ds old_ptr new_size h =
     (case (if new_size \<noteq> 0 then
              let new_total_size = new_size + autosized_data_offset in
              case alloc_memblock ds new_total_size 1 0 h of
                None \<Rightarrow> None
              | Some (new_block, h) \<Rightarrow>
                  if new_block = NULL then Some (None, h)
                  else Some (Some (new_block + autosized_data_offset),
                             h\<lparr>mem := store32 new_block new_total_size (mem h)\<rparr>)
            else Some (Some NOWHERE, h)) of
        None \<Rightarrow> None
      | Some (None, h) \<Rightarrow> Some (NULL, h)
      | Some (Some new_ptr, h) \<Rightarrow>
          if old_ptr \<noteq> NULL \<and> old_ptr \<noteq> NOWHERE then
            let old_block = old_ptr - autosized_data_offset;
                old_total_size = load32 old_block (mem h);
                old_size = old_total_size - autosized_data_offset;
                len = (if old_size < new_size then old_size else new_size);
                h = h\<lparr>mem := memcpy new_ptr old_ptr (unat len) (mem h)\<rparr>
            in case free_memblock old_block old_total_size h of
                 None \<Rightarrow> None
               | Some h \<Rightarrow> Some (new_ptr, h)
          else Some (new_ptr, h))"

definition malloc :: "'a discarder list \<Rightarrow> u32 \<Rightarrow> 'a heap_scheme \<Rightarrow> (ptr \<times> 'a heap_scheme) option" where
  "malloc ds sz h = realloc ds NULL sz h"

definition free :: "'a discarder list \<Rightarrow> ptr \<Rightarrow> 'a heap_scheme \<Rightarrow> 'a heap_scheme option" where
  "free ds ptr h = map_option snd (realloc ds ptr 0 h)"

definition zalloc :: "'a discarder list \<Rightarrow> u32 \<Rightarrow> 'a heap_scheme \<Rightarrow> (ptr \<times> 'a heap_scheme) option" where
  "zalloc ds sz h =
     (case malloc ds sz h of
        None \<Rightarrow> None
      | Some (data, h) \<Rightarrow>
          if data \<noteq> NULL then Some (data, h\<lparr>mem := memset data 0 (unat sz) (mem h)\<rparr>)
          else Some (data, h))"

definition mpopulate :: "ptr \<Rightarrow> u32 \<Rightarrow> 'a heap_scheme \<Rightarrow> 'a heap_scheme option" where
  "mpopulate start len h = free_memblock start (len AND NOT (MIN_MEMBLOCK_SIZE - 1)) h"

definition init_heap :: "ptr \<Rightarrow> 'a heap_scheme \<Rightarrow> 'a heap_scheme option" where
  "init_heap heap_start h = mpopulate heap_start HEAP_SIZE h"

end
