(* ===== verification/Malloc_Correct.thy ===== *)
theory Malloc_Correct
  imports Malloc
begin

text \<open>
  Correctness of the allocator.  The free list is well formed (\<open>blocks_ok\<close>) when its blocks lie in the
  arena, are sorted by address, do not touch and are at least one header long; \<open>heap_free\<close> is the set
  of addresses it covers.  An arena spans less than half the address space, because the signed gap and
  remainder tests of the code read a distance of 2 GB or more as negative; requests are at most 1 GB
  with an alignment of at most 512 MB for the same reason.  The first group of lemmas restates one
  step of each list walk in natural numbers; the second derives what a whole walk does to the set of
  free bytes; the properties follow from these.  \<open>heap_step\<close> is the system of the allocator and its
  clients: each client may allocate, free a block it holds, or write to memory.
\<close>

section \<open>Well-formedness and client view\<close>

abbreviation blo :: "memory_block \<Rightarrow> nat" where "blo b \<equiv> unat (baddr b)"

abbreviation bhi :: "memory_block \<Rightarrow> nat" where "bhi b \<equiv> unat (baddr b) + unat (bsize b)"

definition free_bytes :: "memory_block list \<Rightarrow> nat set" where
  "free_bytes bs = (\<Union>b \<in> set bs. {blo b..<bhi b})"

definition arena :: "nat \<Rightarrow> nat \<Rightarrow> bool" where
  "arena base lim \<longleftrightarrow> 0 < base \<and> lim < 2 ^ 32 \<and> lim < base + 2 ^ 31"

definition block_ok :: "nat \<Rightarrow> nat \<Rightarrow> memory_block \<Rightarrow> bool" where
  "block_ok base lim b \<longleftrightarrow> base \<le> blo b \<and> bhi b \<le> lim \<and> 16 \<le> unat (bsize b)"

definition blocks_ok :: "nat \<Rightarrow> nat \<Rightarrow> memory_block list \<Rightarrow> bool" where
  "blocks_ok base lim bs \<longleftrightarrow>
     (\<forall>b \<in> set bs. block_ok base lim b) \<and> sorted_wrt (\<lambda>a b. bhi a < blo b) bs"

definition pre_gap :: "u32 \<Rightarrow> u32 \<Rightarrow> u32 \<Rightarrow> memory_block \<Rightarrow> u32" where
  "pre_gap voff m off b = (off - virt_to_phys voff (baddr b)) AND m"

definition fits :: "u32 \<Rightarrow> u32 \<Rightarrow> u32 \<Rightarrow> u32 \<Rightarrow> memory_block \<Rightarrow> bool" where
  "fits voff sz m off b \<longleftrightarrow> unat (pre_gap voff m off b) + unat sz \<le> unat (bsize b)"

definition split_block :: "u32 \<Rightarrow> u32 \<Rightarrow> memory_block \<Rightarrow> memory_block list" where
  "split_block ps sz b =
    (if 16 \<le> unat ps then [b\<lparr>bsize := ps\<rparr>] else []) @
    (if 16 \<le> unat (bsize b) - unat ps - unat sz
     then [\<lparr>baddr = baddr b + ps + sz, bsize = bsize b - ps - sz\<rparr>] else [])"

definition heap_inv :: "nat \<Rightarrow> nat \<Rightarrow> 'a heap_scheme \<Rightarrow> bool" where
  "heap_inv base lim h \<longleftrightarrow> arena base lim \<and> blocks_ok base lim (free_blocks h)"

definition heap_free :: "'a heap_scheme \<Rightarrow> nat set" where
  "heap_free h = free_bytes (free_blocks h)"

definition reserved :: "u32 \<Rightarrow> nat" where
  "reserved sz = (unat sz + 15) div 16 * 16"

definition alloc_req :: "u32 \<Rightarrow> nat \<Rightarrow> bool" where
  "alloc_req sz k \<longleftrightarrow> 0 < unat sz \<and> unat sz \<le> 2 ^ 30 \<and> k \<le> 29"

inductive discarded_to :: "'a discarder list \<Rightarrow> 'a heap_scheme \<Rightarrow> 'a heap_scheme \<Rightarrow> bool"
  for ds where
  discard_none: "discarded_to ds h h"
| discard_more: "discard_cache ds h = (n, h1) \<Longrightarrow> discarded_to ds h1 h2 \<Longrightarrow> discarded_to ds h h2"

definition discards_keep :: "('a heap_scheme \<Rightarrow> bool) \<Rightarrow> 'a discarder list \<Rightarrow> bool" where
  "discards_keep P ds \<longleftrightarrow> (\<forall>d \<in> set ds. \<forall>h. P h \<longrightarrow> P (snd (d h)))"

definition discards_shrink :: "('a heap_scheme \<Rightarrow> nat) \<Rightarrow> 'a discarder list \<Rightarrow> bool" where
  "discards_shrink f ds \<longleftrightarrow> (\<forall>d \<in> set ds. \<forall>h. if fst (d h) = 0 then f (snd (d h)) \<le> f h else f (snd (d h)) < f h)"

fun extent :: "ptr \<times> u32 \<Rightarrow> nat set" where
  "extent (p, sz) = {unat p..<unat p + reserved sz}"

declare extent.simps [simp del]

type_synonym owned = "(ptr \<times> u32) list"

fun owned_ok :: "nat \<Rightarrow> nat \<Rightarrow> nat set \<Rightarrow> ptr \<times> u32 \<Rightarrow> bool" where
  "owned_ok base lim fr (p, sz) \<longleftrightarrow> 0 < unat sz \<and> unat sz \<le> 2 ^ 30 \<and> base \<le> unat p \<and>
     unat p + reserved sz \<le> lim \<and> extent (p, sz) \<inter> fr = {}"

definition ownership :: "nat \<Rightarrow> nat \<Rightarrow> 'a heap_scheme \<times> owned \<Rightarrow> bool" where
  "ownership base lim s \<longleftrightarrow> heap_inv base lim (fst s) \<and>
     (\<forall>b \<in> set (snd s). owned_ok base lim (heap_free (fst s)) b) \<and>
     sorted_wrt (\<lambda>a b. extent a \<inter> extent b = {}) (snd s)"

inductive heap_step :: "'a heap_scheme \<times> owned \<Rightarrow> 'a heap_scheme \<times> owned \<Rightarrow> bool" where
  step_alloc: "alloc_req sz k \<Longrightarrow> alloc_memblock [] sz (push_bit k 1) off h = Some (p, h') \<Longrightarrow> p \<noteq> NULL \<Longrightarrow>
     heap_step (h, bs) (h', (p, sz) # bs)"
| step_full: "alloc_req sz k \<Longrightarrow> alloc_memblock [] sz (push_bit k 1) off h = Some (NULL, h') \<Longrightarrow> heap_step (h, bs) (h', bs)"
| step_free: "free_memblock p sz h = Some h' \<Longrightarrow> heap_step (h, us @ (p, sz) # vs) (h', us @ vs)"
| step_write: "heap_step (h, bs) (h\<lparr>mem := m\<rparr>, bs)"

definition paragraphs :: "'a heap_scheme \<Rightarrow> bool" where
  "paragraphs h \<longleftrightarrow> (\<forall>b \<in> set (free_blocks h).
     16 dvd unat (virt_to_phys (virt_offset h) (baddr b)) \<and> 16 dvd unat (bsize b))"

definition owns :: "nat \<Rightarrow> nat \<Rightarrow> memory \<Rightarrow> ptr \<Rightarrow> u32 \<Rightarrow> 'a heap_scheme \<Rightarrow> bool" where
  "owns base lim m q sz h \<longleftrightarrow> heap_inv base lim h \<and> owned_ok base lim (heap_free h) (q, sz) \<and>
     (\<forall>a. within q (unat sz) a \<longrightarrow> mem h a = m a)"

section \<open>Returning memory\<close>

lemma MIN_MEMBLOCK_SIZE_eq [simp]: "MIN_MEMBLOCK_SIZE = 16"
  by (simp add: MIN_MEMBLOCK_SIZE_def sizeof_memory_block_def constant_flsl_def Let_def)

lemma unat_bhi: "arena base lim \<Longrightarrow> block_ok base lim b \<Longrightarrow> unat (baddr b + bsize b) = bhi b"
  by (auto simp: arena_def block_ok_def intro!: unat_add_nowrap)

lemma gap_sint:
  assumes "arena base lim" "base \<le> unat x" "unat x \<le> lim" "base \<le> unat y" "unat y \<le> lim"
  shows "sint (x - y :: u32) = int (unat x) - int (unat y)"
proof -
  have "lim < base + 2147483648" using assms(1) by (simp add: arena_def)
  then have "int (unat x) - int (unat y) < 2147483648" "- 2147483648 \<le> int (unat x) - int (unat y)"
    using assms(2-) by linarith+
  then show ?thesis by (intro sint_minus_eq) simp_all
qed

lemma word_diff_0: "(x :: u32) - y = 0 \<longleftrightarrow> unat x = unat y"
  by (simp add: word_unat_eq_iff [symmetric])

lemma gap_before_0:
  assumes "arena base lim" "block_ok base lim b"
  shows "baddr f - (baddr b + bsize b) = 0 \<longleftrightarrow> blo f = bhi b"
  using assms by (simp only: word_diff_0 unat_bhi)

lemma gap_after:
  assumes "arena base lim" "block_ok base lim b" "block_ok base lim f"
  shows "sint (baddr b - (baddr f + bsize f)) \<ge> 0 \<longleftrightarrow> bhi f \<le> blo b"
    and "baddr b - (baddr f + bsize f) = 0 \<longleftrightarrow> bhi f = blo b"
proof -
  have "sint (baddr b - (baddr f + bsize f)) = int (blo b) - int (bhi f)"
    using assms by (subst gap_sint [OF assms(1)]) (auto simp: unat_bhi block_ok_def)
  then show "sint (baddr b - (baddr f + bsize f)) \<ge> 0 \<longleftrightarrow> bhi f \<le> blo b" by linarith
  show "baddr b - (baddr f + bsize f) = 0 \<longleftrightarrow> bhi f = blo b"
    using assms by (simp only: word_diff_0 unat_bhi) auto
qed

lemma free_scan_step:
  assumes "arena base lim" "block_ok base lim b" "block_ok base lim f"
  shows "free_scan sz f (b # r) =
    (if blo f = bhi b then
       (if bhi f \<le> blo b then None else free_scan sz (b\<lparr>bsize := bsize b + sz\<rparr>) r)
     else if bhi f \<le> blo b then
       (if bhi f = blo b then Some (f\<lparr>bsize := bsize f + bsize b\<rparr> # r) else Some (f # b # r))
     else map_option (Cons b) (free_scan sz f r))"
  by (simp only: free_scan.simps Let_def gap_before_0 [OF assms(1,2)] gap_after [OF assms])

lemma blocks_ok_Cons:
  "blocks_ok base lim (b # bs) \<longleftrightarrow> block_ok base lim b \<and> blocks_ok base lim bs \<and> (\<forall>x \<in> set bs. bhi b < blo x)"
  by (auto simp: blocks_ok_def)

lemma free_bytes_Cons [simp]: "free_bytes (b # bs) = {blo b..<bhi b} \<union> free_bytes bs"
  by (simp add: free_bytes_def)

lemma free_bytes_Nil [simp]: "free_bytes [] = {}"
  by (simp add: free_bytes_def)

lemma disjoint_free_bytes:
  assumes "{lo..<hi} \<inter> free_bytes bs = {}" "lo < hi" "x \<in> set bs" "block_ok base lim x"
  shows "bhi x \<le> lo \<or> hi \<le> blo x"
proof (rule ccontr)
  assume "\<not> ?thesis"
  then have "max lo (blo x) \<in> {lo..<hi} \<inter> {blo x..<bhi x}"
    using assms(2,4) by (auto simp: block_ok_def)
  then show False using assms(1,3) unfolding free_bytes_def by blast
qed

text \<open>The freed block lies below every block still to be visited.\<close>

lemma free_scan_below:
  assumes a: "arena base lim" and f: "block_ok base lim f" and bs: "blocks_ok base lim bs"
    and below: "\<forall>b \<in> set bs. bhi f \<le> blo b"
  shows "\<exists>bs'. free_scan sz f bs = Some bs' \<and> blocks_ok base lim bs' \<and>
     free_bytes bs' = {blo f..<bhi f} \<union> free_bytes bs \<and> (\<forall>x \<in> set bs'. blo f \<le> blo x)"
proof (cases bs)
  case Nil
  then show ?thesis using f by (simp add: blocks_ok_def)
next
  case (Cons b r)
  have b: "block_ok base lim b" "blocks_ok base lim r" "\<forall>x \<in> set r. bhi b < blo x" "bhi f \<le> blo b"
    using bs below Cons by (auto simp: blocks_ok_Cons)
  have nb: "blo f \<noteq> bhi b" using b f by (auto simp: block_ok_def)
  show ?thesis
  proof (cases "bhi f = blo b")
    case True
    have s: "unat (bsize f + bsize b) = unat (bsize f) + unat (bsize b)"
      using True a b(1) by (intro unat_add_nowrap) (auto simp: arena_def block_ok_def)
    let ?m = "f\<lparr>bsize := bsize f + bsize b\<rparr>"
    have "free_scan sz f bs = Some (?m # r)"
      using free_scan_step [OF a b(1) f] nb True Cons by simp
    moreover have "blocks_ok base lim (?m # r)"
      using f b True s by (auto simp: blocks_ok_Cons block_ok_def)
    moreover have "free_bytes (?m # r) = {blo f..<bhi f} \<union> free_bytes bs"
      using Cons True s by auto
    moreover have "\<forall>x \<in> set (?m # r). blo f \<le> blo x" using b by auto
    ultimately show ?thesis by blast
  next
    case False
    have "free_scan sz f bs = Some (f # bs)"
      using free_scan_step [OF a b(1) f] nb False Cons b(4) by simp
    moreover have "blocks_ok base lim (f # bs)"
      using f b False bs Cons by (auto simp: blocks_ok_Cons)
    moreover have "\<forall>x \<in> set (f # bs). blo f \<le> blo x" using b Cons by auto
    ultimately show ?thesis by auto
  qed
qed

lemma free_scan_ok:
  assumes a: "arena base lim" and f: "block_ok base lim f" and bs: "blocks_ok base lim bs"
    and disj: "{blo f..<bhi f} \<inter> free_bytes bs = {}"
  shows "\<exists>bs'. free_scan (bsize f) f bs = Some bs' \<and> blocks_ok base lim bs' \<and>
     free_bytes bs' = {blo f..<bhi f} \<union> free_bytes bs \<and>
     (\<forall>c. c \<le> blo f \<and> (\<forall>x \<in> set bs. c \<le> blo x) \<longrightarrow> (\<forall>x \<in> set bs'. c \<le> blo x))"
  using bs disj
proof (induction bs)
  case Nil
  then show ?case using f by (auto simp: blocks_ok_def)
next
  case (Cons b r)
  have b: "block_ok base lim b" "blocks_ok base lim r" "\<forall>x \<in> set r. bhi b < blo x"
    using Cons.prems by (auto simp: blocks_ok_Cons)
  have d: "bhi b \<le> blo f \<or> bhi f \<le> blo b"
    using disjoint_free_bytes [OF Cons.prems(2) _ _ b(1)] f by (simp add: block_ok_def)
  note step = free_scan_step [OF a b(1) f]
  consider "bhi f \<le> blo b" | "bhi b = blo f" | "bhi b < blo f" using d by linarith
  then show ?case
  proof cases
    case 1
    have "\<forall>x \<in> set (b # r). bhi f \<le> blo x" using 1 b by (auto simp: block_ok_def)
    from free_scan_below [OF a f Cons.prems(1) this] show ?thesis by fastforce
  next
    case 2
    let ?m = "b\<lparr>bsize := bsize b + bsize f\<rparr>"
    have s: "unat (bsize b + bsize f) = unat (bsize b) + unat (bsize f)"
      using 2 a f by (intro unat_add_nowrap) (auto simp: arena_def block_ok_def)
    have na: "\<not> bhi f \<le> blo b" using 2 f b by (auto simp: block_ok_def)
    have m: "block_ok base lim ?m" using 2 f b s by (auto simp: block_ok_def)
    have "bhi ?m \<le> blo x" if "x \<in> set r" for x
    proof -
      have x: "bhi b < blo x" "block_ok base lim x" using that b by (auto simp: blocks_ok_def)
      have "bhi x \<le> blo f \<or> bhi f \<le> blo x"
        using disjoint_free_bytes [OF Cons.prems(2) _ _ x(2)] that f by (simp add: block_ok_def)
      then show ?thesis using x 2 s f by (auto simp: block_ok_def)
    qed
    from free_scan_below [OF a m b(2), of "bsize f"] this
    obtain bs' where bs': "free_scan (bsize f) ?m r = Some bs'" "blocks_ok base lim bs'"
      "free_bytes bs' = {blo ?m..<bhi ?m} \<union> free_bytes r" "\<forall>x \<in> set bs'. blo ?m \<le> blo x" by blast
    moreover have "free_scan (bsize f) f (b # r) = free_scan (bsize f) ?m r"
      using step na 2 by simp
    moreover have "{blo ?m..<bhi ?m} \<union> free_bytes r = {blo f..<bhi f} \<union> free_bytes (b # r)"
      using 2 s by auto
    ultimately show ?thesis by fastforce
  next
    case 3
    have "\<not> bhi f \<le> blo b" using 3 f b by (auto simp: block_ok_def)
    with step 3 have e: "free_scan (bsize f) f (b # r) = map_option (Cons b) (free_scan (bsize f) f r)"
      by simp
    have "{blo f..<bhi f} \<inter> free_bytes r = {}" using Cons.prems by auto
    from Cons.IH [OF b(2) this] obtain bs' where bs': "free_scan (bsize f) f r = Some bs'"
      "blocks_ok base lim bs'" "free_bytes bs' = {blo f..<bhi f} \<union> free_bytes r"
      "\<And>c. c \<le> blo f \<Longrightarrow> \<forall>x \<in> set r. c \<le> blo x \<Longrightarrow> \<forall>x \<in> set bs'. c \<le> blo x" by blast
    have "\<forall>x \<in> set bs'. bhi b + 1 \<le> blo x" using bs'(4) [of "bhi b + 1"] 3 b(3) by (simp add: Suc_le_eq)
    then have "blocks_ok base lim (b # bs')" using b bs' by (auto simp: blocks_ok_Cons)
    then show ?thesis using e bs' by auto
  qed
qed

section \<open>Taking memory\<close>

lemma mask_le: "(x AND m :: u32) \<le> m"
  by (rule word_and_le1)

lemma alloc_fits:
  assumes a: "arena base lim" and b: "block_ok base lim b" and n: "unat ps + unat sz < 2 ^ 31"
  shows "sint (bsize b - ps - sz) \<ge> 0 \<longleftrightarrow> unat ps + unat sz \<le> unat (bsize b)"
proof -
  have e: "unat (ps + sz) = unat ps + unat sz" using n by (intro unat_add_nowrap) simp
  have "unat (bsize b) < 2147483648" using a b by (auto simp: arena_def block_ok_def)
  then have "int (unat (bsize b)) - int (unat (ps + sz)) < 2147483648"
     "- 2147483648 \<le> int (unat (bsize b)) - int (unat (ps + sz))"
    using n [simplified] e by linarith+
  then have "sint (bsize b - (ps + sz)) = int (unat (bsize b)) - int (unat (ps + sz))"
    by (intro sint_minus_eq) simp_all
  then have "sint (bsize b - ps - sz) = int (unat (bsize b)) - int (unat ps + unat sz)"
    using e by (simp add: diff_diff_eq)
  then show ?thesis by linarith
qed

lemma alloc_scan_step:
  assumes a: "arena base lim" and b: "block_ok base lim b" and n: "unat m + unat sz < 2 ^ 31"
  shows "alloc_scan voff sz m off (b # bs) =
    (if fits voff sz m off b
     then Some (baddr b + pre_gap voff m off b, split_block (pre_gap voff m off b) sz b @ bs)
     else map_option (apsnd (Cons b)) (alloc_scan voff sz m off bs))"
proof -
  let ?ps = "pre_gap voff m off b"
  have "unat ?ps \<le> unat m" using mask_le [of "off - virt_to_phys voff (baddr b)" m]
    by (simp add: pre_gap_def word_le_nat_alt)
  then have f: "sint (bsize b - ?ps - sz) \<ge> 0 \<longleftrightarrow> fits voff sz m off b"
    using alloc_fits [OF a b, of ?ps sz] n by (simp add: fits_def)
  have u: "unat (bsize b - ?ps - sz) = unat (bsize b) - unat ?ps - unat sz" if "fits voff sz m off b"
    using that by (simp add: fits_def unat_sub_le)
  show ?thesis
    unfolding alloc_scan.simps Let_def pre_gap_def [symmetric] f
    by (auto simp: u split_block_def word_le_nat_alt word_less_nat_alt)
qed

lemma take_bit_add_right: "take_bit k (x + take_bit k y) = take_bit k (x + y :: u32)"
  by transfer (simp add: take_bit_eq_mod mod_simps)

lemma pre_gap_aligned:
  assumes m: "m = mask k"
  shows "(virt_to_phys voff (baddr b + pre_gap voff m off b)) AND m = off AND m"
proof -
  have "(virt_to_phys voff (baddr b + pre_gap voff m off b)) AND m
      = (virt_to_phys voff (baddr b) + ((off - virt_to_phys voff (baddr b)) AND m)) AND m"
    by (simp add: virt_to_phys_def pre_gap_def algebra_simps)
  also have "\<dots> = off AND m"
    unfolding m take_bit_eq_mask [symmetric] take_bit_add_right by simp
  finally show ?thesis .
qed

lemma split_block_ok:
  assumes a: "arena base lim" and b: "block_ok base lim b" and f: "unat ps + unat sz \<le> unat (bsize b)"
  shows "\<forall>x \<in> set (split_block ps sz b). block_ok base lim x \<and> bhi x \<le> bhi b"
    "0 < unat sz \<Longrightarrow> sorted_wrt (\<lambda>a b. bhi a < blo b) (split_block ps sz b)"
    "free_bytes (split_block ps sz b) \<subseteq> {blo b..<bhi b} - {blo b + unat ps..<blo b + unat ps + unat sz}"
    "{blo b..<bhi b} - {blo b + unat ps..<blo b + unat ps + unat sz} - free_bytes (split_block ps sz b)
       \<subseteq> (if unat ps < 16 then {blo b..<blo b + unat ps} else {}) \<union>
         (if unat (bsize b) - unat ps - unat sz < 16 then {blo b + unat ps + unat sz..<bhi b} else {})"
proof -
  have u: "unat (baddr b + ps + sz) = blo b + unat ps + unat sz"
    "unat (bsize b - ps - sz) = unat (bsize b) - unat ps - unat sz"
    using a b f by (auto simp: unat_sub_le arena_def block_ok_def unat_add_nowrap)
  show "\<forall>x \<in> set (split_block ps sz b). block_ok base lim x \<and> bhi x \<le> bhi b"
    using b f by (auto simp: split_block_def block_ok_def u)
  show "sorted_wrt (\<lambda>a b. bhi a < blo b) (split_block ps sz b)" if "0 < unat sz"
    using that by (auto simp: split_block_def u)
  show "free_bytes (split_block ps sz b) \<subseteq> {blo b..<bhi b} - {blo b + unat ps..<blo b + unat ps + unat sz}"
    using f by (auto simp: split_block_def u free_bytes_def)
  show "{blo b..<bhi b} - {blo b + unat ps..<blo b + unat ps + unat sz} - free_bytes (split_block ps sz b)
       \<subseteq> (if unat ps < 16 then {blo b..<blo b + unat ps} else {}) \<union>
         (if unat (bsize b) - unat ps - unat sz < 16 then {blo b + unat ps + unat sz..<bhi b} else {})"
    using f by (auto simp: split_block_def u free_bytes_def)
qed

text \<open>A pass takes the first block that fits and fails exactly when there is none.\<close>

lemma alloc_scan_None:
  assumes "arena base lim" "blocks_ok base lim bs" "unat m + unat sz < 2 ^ 31"
  shows "alloc_scan voff sz m off bs = None \<longleftrightarrow> (\<forall>b \<in> set bs. \<not> fits voff sz m off b)"
  using assms(2)
  by (induction bs) (simp_all add: blocks_ok_Cons alloc_scan_step [OF assms(1) _ assms(3)] del: alloc_scan.simps(2))

lemma alloc_scan_Some:
  assumes "arena base lim" "blocks_ok base lim bs" "unat m + unat sz < 2 ^ 31"
    and "alloc_scan voff sz m off bs = Some (p, bs')"
  shows "\<exists>us b vs. bs = us @ b # vs \<and> fits voff sz m off b \<and> (\<forall>u \<in> set us. \<not> fits voff sz m off u) \<and>
     p = baddr b + pre_gap voff m off b \<and> bs' = us @ split_block (pre_gap voff m off b) sz b @ vs"
  using assms(2,4)
proof (induction bs arbitrary: bs')
  case Nil
  then show ?case by simp
next
  case (Cons c cs)
  have c: "block_ok base lim c" "blocks_ok base lim cs" using Cons.prems(1) by (simp_all add: blocks_ok_Cons)
  note step = alloc_scan_step [OF assms(1) c(1) assms(3), of voff off cs]
  show ?case
  proof (cases "fits voff sz m off c")
    case True
    then show ?thesis using step Cons.prems(2) by (intro exI [of _ "[]"] exI [of _ c] exI [of _ cs]) auto
  next
    case False
    then obtain bs'' where r: "alloc_scan voff sz m off cs = Some (p, bs'')" "bs' = c # bs''"
      using step Cons.prems(2) by (auto simp: apsnd_def map_prod_def split: prod.splits)
    from Cons.IH [OF c(2) r(1)] obtain us b vs where "cs = us @ b # vs" "fits voff sz m off b"
      "\<forall>u \<in> set us. \<not> fits voff sz m off u" "p = baddr b + pre_gap voff m off b"
      "bs'' = us @ split_block (pre_gap voff m off b) sz b @ vs" by blast
    then show ?thesis using False r(2) by (intro exI [of _ "c # us"] exI [of _ b] exI [of _ vs]) auto
  qed
qed

lemma blocks_ok_append:
  "blocks_ok base lim (us @ vs) \<longleftrightarrow> blocks_ok base lim us \<and> blocks_ok base lim vs \<and>
     (\<forall>u \<in> set us. \<forall>v \<in> set vs. bhi u < blo v)"
  by (auto simp: blocks_ok_def sorted_wrt_append)

lemma free_bytes_append [simp]: "free_bytes (us @ vs) = free_bytes us \<union> free_bytes vs"
  by (simp add: free_bytes_def)

lemma free_bytes_mem: "x \<in> free_bytes bs \<longleftrightarrow> (\<exists>b \<in> set bs. blo b \<le> x \<and> x < bhi b)"
  by (auto simp: free_bytes_def)

lemma split_block_lo:
  assumes a: "arena base lim" and b: "block_ok base lim b" and f: "unat ps + unat sz \<le> unat (bsize b)"
  shows "\<forall>x \<in> set (split_block ps sz b). blo b \<le> blo x"
proof -
  have "unat (baddr b + ps + sz) = blo b + unat ps + unat sz"
    using a b f by (auto simp: arena_def block_ok_def unat_add_nowrap)
  then show ?thesis by (auto simp: split_block_def)
qed

text \<open>What a successful pass guarantees.\<close>

lemma alloc_scan_sound:
  assumes a: "arena base lim" and bs: "blocks_ok base lim bs" and n: "unat m + unat sz < 2 ^ 31"
    and z: "0 < unat sz" and r: "alloc_scan voff sz m off bs = Some (p, bs')"
  shows "blocks_ok base lim bs'"
    and "{unat p..<unat p + unat sz} \<subseteq> free_bytes bs"
    and "free_bytes bs' \<subseteq> free_bytes bs - {unat p..<unat p + unat sz}"
    and "base \<le> unat p" "unat p + unat sz \<le> lim"
proof -
  from alloc_scan_Some [OF a bs n r] obtain us b vs where d: "bs = us @ b # vs" "fits voff sz m off b"
    "p = baddr b + pre_gap voff m off b" "bs' = us @ split_block (pre_gap voff m off b) sz b @ vs" by blast
  let ?ps = "pre_gap voff m off b"
  have ok: "blocks_ok base lim us" "block_ok base lim b" "blocks_ok base lim vs"
    "\<forall>u \<in> set us. bhi u < blo b" "\<forall>v \<in> set vs. bhi b < blo v" "\<forall>u \<in> set us. \<forall>v \<in> set vs. bhi u < blo v"
    using bs d(1) by (auto simp: blocks_ok_append blocks_ok_Cons)
  have f: "unat ?ps + unat sz \<le> unat (bsize b)" using d(2) by (simp add: fits_def)
  have p: "unat p = blo b + unat ?ps"
    using a ok(2) f d(3) by (auto simp: arena_def block_ok_def unat_add_nowrap)
  note sp = split_block_ok [OF a ok(2) f] and lo = split_block_lo [OF a ok(2) f]
  have so: "blocks_ok base lim (split_block ?ps sz b)" using sp(1,2) z by (simp add: blocks_ok_def)
  have "\<forall>u \<in> set us. \<forall>x \<in> set (split_block ?ps sz b). bhi u < blo x" using lo ok(4) by force
  moreover have "\<forall>x \<in> set (split_block ?ps sz b). \<forall>v \<in> set vs. bhi x < blo v" using sp(1) ok(5) by force
  ultimately show "blocks_ok base lim bs'"
    unfolding d(4) using ok so by (auto simp: blocks_ok_append)
  show "{unat p..<unat p + unat sz} \<subseteq> free_bytes bs" unfolding d(1) p using f by auto
  show "base \<le> unat p" "unat p + unat sz \<le> lim" using p f ok(2) by (auto simp: block_ok_def)
  have "free_bytes us \<inter> {blo b..<bhi b} = {}" using ok(4) by (fastforce simp: free_bytes_mem)
  moreover have "free_bytes vs \<inter> {blo b..<bhi b} = {}" using ok(5) by (fastforce simp: free_bytes_mem)
  moreover have "{unat p..<unat p + unat sz} \<subseteq> {blo b..<bhi b}" using p f by auto
  ultimately show "free_bytes bs' \<subseteq> free_bytes bs - {unat p..<unat p + unat sz}"
    unfolding d(1,4) using sp(3) p by auto
qed

lemma alloc_scan_aligned:
  assumes "arena base lim" "blocks_ok base lim bs" "unat m + unat sz < 2 ^ 31" "m = mask k"
    and "alloc_scan voff sz m off bs = Some (p, bs')"
  shows "virt_to_phys voff p AND m = off AND m"
proof -
  from alloc_scan_Some [OF assms(1-3,5)] obtain b where "p = baddr b + pre_gap voff m off b" by blast
  then show ?thesis using pre_gap_aligned [OF assms(4)] by simp
qed

lemma unat_round_up_size: "unat sz \<le> 2 ^ 31 \<Longrightarrow> unat (round_up_size sz) = reserved sz"
proof -
  assume "unat sz \<le> 2 ^ 31"
  then have "unat (sz + 15) = unat sz + 15" by (intro trans [OF unat_add_nowrap]) simp_all
  moreover have "round_up_size sz = (sz + 15) AND NOT 15"
    by (simp add: round_up_size_def algebra_simps)
  ultimately show ?thesis
    using unat_and_not_mask [of "sz + 15" 4]
    by (simp add: reserved_def mask_eq_exp_minus_1 minus_mod_eq_div_mult)
qed

section \<open>Find last set bit\<close>

lemma flsl_zero: "flsl 0 = 0" by (simp add: flsl.simps)

lemma unat_drop_bit: "unat (drop_bit k x :: u32) = unat x div 2 ^ k"
  by (simp only: unat_drop_bit_eq) (simp add: drop_bit_eq_div)

lemma flsl_bounds: "x \<noteq> 0 \<Longrightarrow> 0 < flsl x \<and> 2 ^ (flsl x - 1) \<le> unat x \<and> unat x < 2 ^ flsl x"
proof (induction x rule: flsl.induct)
  case (1 x)
  have d: "unat (drop_bit 1 x) = unat x div 2" using unat_drop_bit [of 1 x] by simp
  have e: "flsl x = Suc (flsl (drop_bit 1 x))" using 1(2) by (subst flsl.simps) simp
  show ?case
  proof (cases "drop_bit 1 x = 0")
    case True
    then have "unat x div 2 = 0" using d by simp
    then have "unat x = 1" using 1(2) by (cases "unat x") (auto simp: unat_eq_0)
    then show ?thesis unfolding e True flsl_zero by simp
  next
    case False
    have IH: "0 < flsl (drop_bit 1 x)" "2 ^ (flsl (drop_bit 1 x) - 1) \<le> unat x div 2" "unat x div 2 < 2 ^ flsl (drop_bit 1 x)"
      using 1 False d by auto
    obtain r where r: "flsl (drop_bit 1 x) = Suc r" using IH(1) gr0_implies_Suc by blast
    show ?thesis using IH(2,3) unfolding e r by auto
  qed
qed

lemma flsl_unique:
  assumes "2 ^ r \<le> unat x" "unat x < 2 ^ Suc r" shows "flsl x = Suc r"
proof -
  have "0 < unat x" using assms(1) by (rule less_le_trans [rotated]) simp
  then have "x \<noteq> 0" by auto
  from flsl_bounds [OF this] obtain k where k: "flsl x = Suc k" "2 ^ k \<le> unat x" "unat x < 2 ^ Suc k"
    by (cases "flsl x") auto
  have "(2 :: nat) ^ k < 2 ^ Suc r" "(2 :: nat) ^ r < 2 ^ Suc k" using k(2,3) assms by linarith+
  then have "k < Suc r" "r < Suc k" by (simp_all only: power_strict_increasing_iff one_less_numeral_iff semiring_norm)
  then show ?thesis using k(1) by simp
qed

lemma flsl_drop:
  assumes "2 ^ k \<le> unat x" shows "flsl x = k + flsl (drop_bit k x)"
proof -
  have d: "unat (drop_bit k x) = unat x div 2 ^ k" by (rule unat_drop_bit)
  have p: "0 < unat x div 2 ^ k" using assms by (simp add: div_greater_zero_iff)
  then have "drop_bit k x \<noteq> 0" using d by auto
  from flsl_bounds [OF this] obtain r where r: "flsl (drop_bit k x) = Suc r" "2 ^ r \<le> unat x div 2 ^ k" "unat x div 2 ^ k < 2 ^ Suc r"
    unfolding d by (cases "flsl (drop_bit k x)") auto
  have "2 ^ r * 2 ^ k \<le> unat x" using r(2) by (simp add: less_eq_div_iff_mult_less_eq)
  moreover have "unat x < 2 ^ Suc r * 2 ^ k" using r(3) by (simp add: div_less_iff_less_mult)
  ultimately have "flsl x = Suc (r + k)" by (intro flsl_unique) (simp_all add: power_add algebra_simps)
  then show ?thesis using r(1) by simp
qed

lemma high_half:
  assumes "unat (x :: u32) < 2 ^ (2 * k)"
  shows "x AND (mask (2 * k) AND NOT (mask k)) = 0 \<longleftrightarrow> unat x < 2 ^ k"
proof -
  have "unat (x AND mask (2 * k)) = unat x" using assms by (simp add: unat_and_mask)
  then have "x AND mask (2 * k) = x" by (simp add: word_unat_eq_iff)
  then have "x AND (mask (2 * k) AND NOT (mask k)) = x AND NOT (mask k)" by (metis and.assoc)
  then have "x AND (mask (2 * k) AND NOT (mask k)) = 0 \<longleftrightarrow> unat x - unat x mod 2 ^ k = 0"
    by (simp only: word_unat_eq_iff unat_and_not_mask unat_0)
  also have "\<dots> \<longleftrightarrow> unat x < 2 ^ k" by (simp add: minus_mod_eq_div_mult Euclidean_Rings.div_eq_0_iff)
  finally show ?thesis .
qed

lemma flsl_stage:
  assumes "unat x < 2 ^ (2 * k)"
  shows "\<exists>y s. (if x AND (mask (2 * k) AND NOT (mask k)) \<noteq> 0 then (drop_bit k x, r + k) else (x, r)) = (y, s) \<and>
     unat y < 2 ^ k \<and> s + flsl y = r + flsl x"
proof (cases "unat x < 2 ^ k")
  case True
  then show ?thesis using high_half [OF assms] by simp
next
  case False
  moreover have "unat x div 2 ^ k < 2 ^ k" using assms by (simp add: div_less_iff_less_mult mult_2 power_add)
  ultimately show ?thesis using high_half [OF assms] flsl_drop [of k x] by (simp add: unat_drop_bit)
qed

lemma stage_masks:
  "(0xffff0000 :: u32) = mask (2 * 16) AND NOT (mask 16)" "(0xff00 :: u32) = mask (2 * 8) AND NOT (mask 8)"
  "(0xf0 :: u32) = mask (2 * 4) AND NOT (mask 4)" "(0xc :: u32) = mask (2 * 2) AND NOT (mask 2)"
  "(0x2 :: u32) = mask (2 * 1) AND NOT (mask 1)"
  by (simp_all add: mask_eq_exp_minus_1)

lemma constant_flsl_flsl: "constant_flsl x = flsl x"
proof -
  have "unat x < 2 ^ (2 * 16)" using unsigned_less [of x] by simp
  from flsl_stage [OF this, of 0] obtain y1 s1 where 1: "(if x AND 0xffff0000 \<noteq> 0 then (drop_bit 16 x, 0 + 16) else (x, 0)) = (y1, s1)"
    "unat y1 < 2 ^ (2 * 8)" "s1 + flsl y1 = flsl x" unfolding stage_masks(1) by auto
  from flsl_stage [OF 1(2), of s1] obtain y2 s2 where 2: "(if y1 AND 0xff00 \<noteq> 0 then (drop_bit 8 y1, s1 + 8) else (y1, s1)) = (y2, s2)"
    "unat y2 < 2 ^ (2 * 4)" "s2 + flsl y2 = flsl x" unfolding stage_masks(2) 1(3) by auto
  from flsl_stage [OF 2(2), of s2] obtain y3 s3 where 3: "(if y2 AND 0xf0 \<noteq> 0 then (drop_bit 4 y2, s2 + 4) else (y2, s2)) = (y3, s3)"
    "unat y3 < 2 ^ (2 * 2)" "s3 + flsl y3 = flsl x" unfolding stage_masks(3) 2(3) by auto
  from flsl_stage [OF 3(2), of s3] obtain y4 s4 where 4: "(if y3 AND 0xc \<noteq> 0 then (drop_bit 2 y3, s3 + 2) else (y3, s3)) = (y4, s4)"
    "unat y4 < 2 ^ (2 * 1)" "s4 + flsl y4 = flsl x" unfolding stage_masks(4) 3(3) by auto
  from flsl_stage [OF 4(2), of s4] obtain y5 s5 where 5: "(if y4 AND 0x2 \<noteq> 0 then (drop_bit 1 y4, s4 + 1) else (y4, s4)) = (y5, s5)"
    "unat y5 < 2 ^ 1" "s5 + flsl y5 = flsl x" unfolding stage_masks(5) 4(3) by auto
  have "unat y5 = 0 \<or> unat y5 = 1" using 5(2) by auto
  then have "y5 = 0 \<or> y5 = 1" by (simp only: word_unat_eq_iff unat_0 unat_1)
  moreover have "flsl 1 = 1" using flsl_unique [of 0 1] by simp
  ultimately have "(if y5 AND 1 \<noteq> 0 then s5 + 1 else s5) = flsl x" using 5(3) by (auto simp: flsl_zero)
  then show ?thesis unfolding constant_flsl_def Let_def 1(1) prod.case 2(1) 3(1) 4(1) 5(1) .
qed

section \<open>Allocation with cache discarding\<close>

lemma reserved_bounds:
  "unat sz \<le> reserved sz" "reserved sz < unat sz + 16" "0 < unat sz \<Longrightarrow> 16 \<le> reserved sz" "16 dvd reserved sz"
  unfolding reserved_def by (simp; presburger)+

lemma align_mask: "k \<le> 29 \<Longrightarrow> (push_bit k 1 - 1) OR (MIN_MEMBLOCK_SIZE - 1) = (mask (max k 4) :: u32)"
proof -
  have "(push_bit k 1 - 1 :: u32) = mask k" by (simp add: mask_eq_exp_minus_1 push_bit_eq_mult)
  moreover have "(MIN_MEMBLOCK_SIZE - 1 :: u32) = mask 4" by (simp add: mask_eq_exp_minus_1)
  ultimately show ?thesis by (simp only: mask_or_mask)
qed

lemma unat_mask_le: "k \<le> 29 \<Longrightarrow> unat (mask (max k 4) :: u32) < 2 ^ 29"
proof -
  assume k: "k \<le> 29"
  have "unat (mask (max k 4) :: u32) = unat (mask (max k 4) AND mask (max k 4) :: u32)" by simp
  also have "\<dots> < 2 ^ max k 4" unfolding unat_and_mask by simp
  also have "\<dots> \<le> (2 :: nat) ^ 29" using k by (intro power_increasing) auto
  finally show ?thesis .
qed

lemma alloc_req_bounds:
  assumes "alloc_req sz k"
  shows "unat (mask (max k 4) :: u32) + unat (round_up_size sz) < 2 ^ 31" "0 < unat (round_up_size sz)"
    "unat (round_up_size sz) = reserved sz"
proof -
  show e: "unat (round_up_size sz) = reserved sz"
    using assms by (intro unat_round_up_size) (simp add: alloc_req_def)
  have s: "0 < unat sz" "unat sz \<le> 1073741824" "k \<le> 29" using assms by (simp_all add: alloc_req_def)
  show "unat (mask (max k 4) :: u32) + unat (round_up_size sz) < 2 ^ 31"
    using unat_mask_le [OF s(3)] reserved_bounds(2) [of sz] s e by simp
  show "0 < unat (round_up_size sz)" using reserved_bounds(1) [of sz] s e by simp
qed

lemma discard_cache_keep: "discards_keep P ds \<Longrightarrow> P h \<Longrightarrow> P (snd (discard_cache ds h))"
  by (induction ds arbitrary: h) (auto simp: discards_keep_def Let_def split: prod.splits)

lemma discarded_to_keep: "discarded_to ds h h' \<Longrightarrow> discards_keep P ds \<Longrightarrow> P h \<Longrightarrow> P h'"
  by (induction rule: discarded_to.induct) (auto dest: discard_cache_keep)

lemma discard_cache_shrink:
  "discards_shrink f ds \<Longrightarrow> discard_cache ds h = (n, h') \<Longrightarrow> n \<noteq> 0 \<Longrightarrow> f h' < f h"
proof (induction ds arbitrary: h)
  case (Cons d ds)
  obtain n1 h1 where d: "d h = (n1, h1)" by (cases "d h")
  have "if n1 = 0 then f h1 \<le> f h else f h1 < f h" 
  proof -
    have "if fst (d h) = 0 then f (snd (d h)) \<le> f h else f (snd (d h)) < f h"
      using Cons.prems(1) unfolding discards_shrink_def by simp
    then show ?thesis using d by (cases "n1 = 0") auto
  qed
  moreover have "discards_shrink f ds" using Cons.prems(1) by (simp add: discards_shrink_def)
  ultimately show ?case using Cons.IH [of h1] Cons.prems(2,3) d by (cases "n1 = 0") auto
qed simp

lemma alloc_loop_terminates:
  assumes "discards_shrink f ds"
  shows "\<exists>p h'. alloc_loop ds sz m off h = Some (p, h')"
proof (induction "f h" arbitrary: h rule: less_induct)
  case less
  obtain n h1 where d: "discard_cache ds h = (n, h1)" by (cases "discard_cache ds h")
  show ?case
  proof (cases "n = 0")
    case True
    then show ?thesis using d by (subst alloc_loop.simps) (auto split: option.splits)
  next
    case False
    from less [OF discard_cache_shrink [OF assms d False]] d False show ?thesis
      by (subst alloc_loop.simps) (auto split: option.splits)
  qed
qed

lemma alloc_loop_result:
  assumes "alloc_loop ds sz m off h = Some r"
  shows "\<exists>h1. discarded_to ds h h1 \<and>
    (case alloc_scan (virt_offset h1) sz m off (free_blocks h1) of
       Some (q, bs) \<Rightarrow> r = (q, h1\<lparr>free_blocks := bs, freemem := freemem h1 - sz\<rparr>)
     | None \<Rightarrow> fst r = NULL \<and> discard_cache ds h1 = (0, snd r))"
  using assms
proof (induction rule: alloc_loop.raw_induct [rotated, consumes 1, case_names loop])
  case (loop f ds sz m off h r)
  show ?case
  proof (cases "alloc_scan (virt_offset h) sz m off (free_blocks h)")
    case None
    obtain n h1 where d: "discard_cache ds h = (n, h1)" by (cases "discard_cache ds h")
    show ?thesis
    proof (cases "n = 0")
      case True
      then have "r = (NULL, h1)" using loop(2) None d by simp
      then show ?thesis using True None d discard_none [of ds h] by (intro exI [of _ h]) simp
    next
      case False
      then have "f ds sz m off h1 = Some r" using loop(2) None d by simp
      from loop(1) [OF this] show ?thesis using discard_more [OF d] by blast
    qed
  next
    case (Some a)
    then show ?thesis using loop(2) discard_none [of ds h]
      by (intro exI [of _ h]) (simp split: prod.splits)
  qed
qed

lemma alloc_memblock_eq:
  "k \<le> 29 \<Longrightarrow> alloc_memblock ds sz (push_bit k 1) off h = alloc_loop ds (round_up_size sz) (mask (max k 4)) off h"
  by (simp only: alloc_memblock_def align_mask)

lemma alloc_memblock_spec:
  assumes h: "P h" and ds: "discards_keep P ds" and P: "\<forall>h. P h \<longrightarrow> heap_inv base lim h"
    and req: "alloc_req sz k"
    and r: "alloc_memblock ds sz (push_bit k 1) off h = Some (p, h')" and p: "p \<noteq> NULL"
  shows "\<exists>h1. discarded_to ds h h1 \<and> P h1 \<and> heap_inv base lim h' \<and>
     extent (p, sz) \<subseteq> heap_free h1 \<and>
     heap_free h' \<subseteq> heap_free h1 - extent (p, sz) \<and>
     virt_to_phys (virt_offset h1) p AND mask k = off AND mask k \<and>
     base \<le> unat p \<and> unat p + reserved sz \<le> lim \<and>
     freemem h' = freemem h1 - round_up_size sz \<and> mem h' = mem h1 \<and> virt_offset h' = virt_offset h1"
proof -
  have k: "k \<le> 29" using req by (simp add: alloc_req_def)
  from alloc_loop_result [OF r [unfolded alloc_memblock_eq [OF k]]] p obtain h1 bs where
    d: "discarded_to ds h h1" and
    s: "alloc_scan (virt_offset h1) (round_up_size sz) (mask (max k 4)) off (free_blocks h1) = Some (p, bs)"
      "h' = h1\<lparr>free_blocks := bs, freemem := freemem h1 - round_up_size sz\<rparr>"
    by (auto split: option.splits prod.splits)
  have h1: "P h1" using discarded_to_keep [OF d ds h] .
  then have "heap_inv base lim h1" using P by blast
  then have a: "arena base lim" "blocks_ok base lim (free_blocks h1)" by (simp_all add: heap_inv_def)
  note b = alloc_req_bounds [OF req]
  note snd = alloc_scan_sound [OF a b(1,2) s(1), unfolded b(3)]
  have "virt_to_phys (virt_offset h1) p AND mask (max k 4) = off AND mask (max k 4)"
    by (rule alloc_scan_aligned [OF a b(1) refl s(1)])
  then have "(virt_to_phys (virt_offset h1) p AND mask (max k 4)) AND mask k = (off AND mask (max k 4)) AND mask k"
    by (simp only:)
  moreover have "(x AND mask (max k 4)) AND mask k = x AND mask k" for x :: u32
    by (rule bit_word_eqI) (auto simp: bit_simps)
  ultimately have "virt_to_phys (virt_offset h1) p AND mask k = off AND mask k" by (simp only:)
  with d h1 a(1) snd show ?thesis by (intro exI [of _ h1]) (simp add: heap_inv_def heap_free_def extent.simps s(2))
qed

lemma free_memblock_sound:
  assumes h: "heap_inv base lim h" and p: "p \<noteq> NULL" and sz: "0 < unat sz" "unat sz \<le> 2 ^ 30"
    and r: "base \<le> unat p" "unat p + reserved sz \<le> lim"
    and d: "extent (p, sz) \<inter> heap_free h = {}"
  shows "\<exists>bs. free_memblock p sz h = Some (h\<lparr>free_blocks := bs, freemem := freemem h + round_up_size sz\<rparr>) \<and>
     blocks_ok base lim bs \<and> free_bytes bs = heap_free h \<union> extent (p, sz)"
proof -
  have e: "unat (round_up_size sz) = reserved sz" using sz by (intro unat_round_up_size) simp
  let ?f = "\<lparr>baddr = p, bsize = round_up_size sz\<rparr>"
  have a: "arena base lim" "blocks_ok base lim (free_blocks h)" using h by (simp_all add: heap_inv_def)
  have f: "block_ok base lim ?f" using r reserved_bounds(3) [OF sz(1)] by (simp add: block_ok_def e)
  have "{blo ?f..<bhi ?f} \<inter> free_bytes (free_blocks h) = {}" using d by (simp add: e heap_free_def extent.simps)
  from free_scan_ok [OF a(1) f a(2) this] obtain bs' where
    b: "free_scan (round_up_size sz) ?f (free_blocks h) = Some bs'" "blocks_ok base lim bs'"
    "free_bytes bs' = {blo ?f..<bhi ?f} \<union> free_bytes (free_blocks h)" by auto
  have "free_memblock p sz h = Some (h\<lparr>free_blocks := bs', freemem := freemem h + round_up_size sz\<rparr>)"
    using b(1) p by (simp add: free_memblock_def Let_def)
  then show ?thesis using b(2,3) by (intro exI [of _ bs']) (auto simp: e heap_free_def extent.simps)
qed

text \<open>The free list is determined by the set of free bytes.\<close>

lemma blocks_ok_head_least:
  "blocks_ok base lim (b # bs) \<Longrightarrow> x \<in> free_bytes (b # bs) \<Longrightarrow> blo b \<le> x"
  by (force simp: blocks_ok_Cons free_bytes_def)

lemma blocks_ok_head_in: "blocks_ok base lim (b # bs) \<Longrightarrow> blo b \<in> free_bytes (b # bs)"
  by (auto simp: blocks_ok_Cons block_ok_def)

lemma blocks_ok_head_end: "blocks_ok base lim (b # bs) \<Longrightarrow> bhi b \<notin> free_bytes (b # bs)"
  by (fastforce simp: blocks_ok_Cons free_bytes_def)

lemma blocks_ok_unique:
  "blocks_ok base lim bs \<Longrightarrow> blocks_ok base lim cs \<Longrightarrow> free_bytes bs = free_bytes cs \<Longrightarrow> bs = cs"
proof (induction bs arbitrary: cs)
  case Nil
  then show ?case using blocks_ok_head_in by (cases cs) fastforce+
next
  case (Cons b bs)
  from Cons.prems obtain c cs' where c: "cs = c # cs'"
    using blocks_ok_head_in [OF Cons.prems(1)] by (cases cs) auto
  note B = Cons.prems(1) and C = Cons.prems(2) [unfolded c] and E = Cons.prems(3) [unfolded c]
  have lo: "blo b = blo c"
    using blocks_ok_head_least [OF B, of "blo c"] blocks_ok_head_least [OF C, of "blo b"]
      blocks_ok_head_in [OF B] blocks_ok_head_in [OF C] E by (metis le_antisym)
  have le: "bhi b \<le> bhi c" 
  proof (rule ccontr)
    assume "\<not> ?thesis"
    then have "bhi c \<in> free_bytes (b # bs)" using lo by auto
    then show False using blocks_ok_head_end [OF C] E by metis
  qed
  have ge: "bhi c \<le> bhi b" 
  proof (rule ccontr)
    assume "\<not> ?thesis"
    then have "bhi b \<in> free_bytes (c # cs')" using lo by auto
    then show False using blocks_ok_head_end [OF B] E by metis
  qed
  have "baddr b = baddr c" using lo by (simp add: word_unat_eq_iff)
  moreover from lo le ge have "bsize b = bsize c" by (simp add: word_unat_eq_iff)
  ultimately have bc: "b = c" by simp
  have t: "{blo b..<bhi b} \<inter> free_bytes bs = {}" "{blo b..<bhi b} \<inter> free_bytes cs' = {}"
    using B C unfolding bc by (fastforce simp: blocks_ok_Cons free_bytes_def)+
  have "{blo b..<bhi b} \<union> free_bytes bs = {blo b..<bhi b} \<union> free_bytes cs'" using E bc by simp
  with t have "free_bytes bs = free_bytes cs'" by blast
  then have "bs = cs'" using Cons.IH B C by (simp add: blocks_ok_Cons)
  then show ?case using bc c by simp
qed

section \<open>Ownership\<close>

lemma discarded_to_Nil: "discarded_to [] h h' \<Longrightarrow> h' = h"
  by (induction rule: discarded_to.induct) simp_all

lemma discards_keep_Nil [simp]: "discards_keep P []"
  by (simp add: discards_keep_def)

lemma alloc_fail_keeps:
  assumes h: "P h" and ds: "discards_keep P ds" and P: "\<forall>h. P h \<longrightarrow> heap_inv base lim h"
    and req: "alloc_req sz k" and r: "alloc_memblock ds sz (push_bit k 1) off h = Some (NULL, h')"
  shows "P h'"
proof -
  have k: "k \<le> 29" using req by (simp add: alloc_req_def)
  note b = alloc_req_bounds [OF req]
  from alloc_loop_result [OF r [unfolded alloc_memblock_eq [OF k]]] obtain h1 where
    d: "discarded_to ds h h1" and
    c: "case alloc_scan (virt_offset h1) (round_up_size sz) (mask (max k 4)) off (free_blocks h1) of
       Some (q, bs) \<Rightarrow> (NULL, h') = (q, h1\<lparr>free_blocks := bs, freemem := freemem h1 - round_up_size sz\<rparr>)
     | None \<Rightarrow> discard_cache ds h1 = (0, h')" by (auto split: option.splits)
  have p1: "P h1" using discarded_to_keep [OF d ds h] .
  then have a: "arena base lim" "blocks_ok base lim (free_blocks h1)" using P by (auto simp: heap_inv_def)
  have "alloc_scan (virt_offset h1) (round_up_size sz) (mask (max k 4)) off (free_blocks h1) \<noteq> Some (NULL, bs)" for bs
    using alloc_scan_sound(4) [OF a b(1,2), of _ _ NULL bs] a(1) by (auto simp: arena_def)
  then have "discard_cache ds h1 = (0, h')" using c by (auto split: option.splits prod.splits)
  then show ?thesis using discard_cache_keep [OF ds p1] by simp
qed

lemma alloc_fail_unchanged:
  assumes "heap_inv base lim h" and "alloc_req sz k"
    and "alloc_memblock [] sz (push_bit k 1) off h = Some (NULL, h')"
  shows "h' = h"
  using alloc_fail_keeps [where P = "\<lambda>x. x = h" and base = base and lim = lim, OF _ discards_keep_Nil _ assms(2,3)] assms(1)
  by simp

lemma owned_not_NULL: "arena base lim \<Longrightarrow> owned_ok base lim fr (p, sz) \<Longrightarrow> p \<noteq> NULL"
  by (auto simp: arena_def)

lemma ownership_free:
  assumes "ownership base lim (h, us @ (p, sz) # vs)"
  shows "\<exists>h'. free_memblock p sz h = Some h' \<and> ownership base lim (h', us @ vs) \<and>
     heap_free h' = heap_free h \<union> extent (p, sz)"
proof -
  have o: "heap_inv base lim h" "owned_ok base lim (heap_free h) (p, sz)"
    "\<And>b. b \<in> set us \<union> set vs \<Longrightarrow> owned_ok base lim (heap_free h) b"
    "\<And>b. b \<in> set us \<union> set vs \<Longrightarrow> extent b \<inter> extent (p, sz) = {}"
    "sorted_wrt (\<lambda>a b. extent a \<inter> extent b = {}) (us @ vs)"
    using assms by (auto simp: ownership_def sorted_wrt_append)
  have "p \<noteq> NULL" using o(1) owned_not_NULL [OF _ o(2)] by (simp add: heap_inv_def)
  from free_memblock_sound [OF o(1) this, of sz] o(2) obtain bs where
    b: "free_memblock p sz h = Some (h\<lparr>free_blocks := bs, freemem := freemem h + round_up_size sz\<rparr>)"
       "blocks_ok base lim bs" "free_bytes bs = heap_free h \<union> extent (p, sz)" by auto
  let ?h = "h\<lparr>free_blocks := bs, freemem := freemem h + round_up_size sz\<rparr>"
  have f: "heap_free ?h = heap_free h \<union> extent (p, sz)" using b(3) by (simp add: heap_free_def)
  have "owned_ok base lim (heap_free ?h) c" if "c \<in> set us \<union> set vs" for c
    using o(3,4) [OF that] f by (cases c) auto
  then have "ownership base lim (?h, us @ vs)"
    using o(1,5) b(2) by (simp add: ownership_def heap_inv_def)
  then show ?thesis using b(1) f by blast
qed

lemma ownership_step: "heap_step s s' \<Longrightarrow> ownership base lim s \<Longrightarrow> ownership base lim s'"
proof (induction rule: heap_step.induct)
  case (step_alloc sz k off h p h' bs)
  have h: "heap_inv base lim h" using step_alloc by (simp add: ownership_def)
  from alloc_memblock_spec [where P = "heap_inv base lim" and base = base and lim = lim, OF h discards_keep_Nil _ step_alloc(1-3)]
  obtain h1 where h1: "discarded_to [] h h1"
    and r: "heap_inv base lim h'" "extent (p, sz) \<subseteq> heap_free h1" "heap_free h' \<subseteq> heap_free h1 - extent (p, sz)"
      "base \<le> unat p" "unat p + reserved sz \<le> lim" by blast
  note r = r [unfolded discarded_to_Nil [OF h1]]
  have b: "owned_ok base lim (heap_free h') c \<and> extent (p, sz) \<inter> extent c = {}" if "c \<in> set bs" for c
  proof -
    have "owned_ok base lim (heap_free h) c" using step_alloc that by (simp add: ownership_def)
    then show ?thesis using r(2,3) by (cases c) auto
  qed
  moreover have "owned_ok base lim (heap_free h') (p, sz)"
    using r step_alloc(1) by (auto simp: alloc_req_def)
  ultimately show ?case using r(1) step_alloc(4) by (auto simp: ownership_def)
next
  case (step_full sz k off h h' bs)
  then have "free_blocks h' = free_blocks h"
    using alloc_fail_unchanged by (fastforce simp: ownership_def)
  then show ?case using step_full by (simp add: ownership_def heap_inv_def heap_free_def)
next
  case (step_free p sz h h' us vs)
  from ownership_free [OF step_free(2)] step_free(1) show ?case by auto
next
  case (step_write h bs m)
  then show ?case by (simp add: ownership_def heap_inv_def heap_free_def)
qed

section \<open>Allocation without loss\<close>

lemma dvd_unat_minus: "16 dvd unat (x :: u32) \<Longrightarrow> 16 dvd unat y \<Longrightarrow> 16 dvd unat (x - y)"
  by (auto simp: unat_sub_if' intro!: dvd_diff_nat)

lemma pre_gap_dvd:
  assumes "16 dvd unat off" "16 dvd unat (virt_to_phys voff (baddr b))"
  shows "16 dvd unat (pre_gap voff (mask (max k 4)) off b)"
proof -
  have "(16 :: nat) dvd 2 ^ max k 4" using le_imp_power_dvd [of 4 "max k 4" "2 :: nat"] by simp
  then show ?thesis
    using dvd_unat_minus [OF assms] unfolding pre_gap_def unat_and_mask by (intro dvd_mod) simp_all
qed

lemma split_block_exact:
  assumes "arena base lim" "block_ok base lim b" "unat ps + unat sz \<le> unat (bsize b)"
    "16 dvd unat ps" "16 dvd unat sz" "16 dvd unat (bsize b)"
  shows "free_bytes (split_block ps sz b) = {blo b..<bhi b} - {blo b + unat ps..<blo b + unat ps + unat sz}"
proof -
  have z: "x < 16 \<Longrightarrow> 16 dvd x \<Longrightarrow> x = 0" for x :: nat by (rule ccontr) (auto dest: dvd_imp_le)
  have "16 dvd unat (bsize b) - unat ps - unat sz" using assms(4-6) by (intro dvd_diff_nat)
  then have "unat (bsize b) - unat ps - unat sz < 16 \<Longrightarrow> bhi b = blo b + unat ps + unat sz"
    using z [of "unat (bsize b) - unat ps - unat sz"] assms(3) by linarith
  moreover have "unat ps < 16 \<Longrightarrow> unat ps = 0" using z [OF _ assms(4)] .
  ultimately have "(if unat ps < 16 then {blo b..<blo b + unat ps} else {}) \<union>
    (if unat (bsize b) - unat ps - unat sz < 16 then {blo b + unat ps + unat sz..<bhi b} else {}) = {}"
    by (cases "unat ps < 16"; cases "unat (bsize b) - unat ps - unat sz < 16") simp_all
  then show ?thesis using split_block_ok(3,4) [OF assms(1-3)] by (simp only:) blast
qed

lemma alloc_scan_exact:
  assumes a: "arena base lim" and bs: "blocks_ok base lim bs" and n: "unat (mask (max k 4) :: u32) + unat sz < 2 ^ 31"
    and z: "0 < unat sz" "16 dvd unat sz" "16 dvd unat off"
    and par: "\<forall>b \<in> set bs. 16 dvd unat (virt_to_phys voff (baddr b)) \<and> 16 dvd unat (bsize b)"
    and r: "alloc_scan voff sz (mask (max k 4)) off bs = Some (p, bs')"
  shows "free_bytes bs' \<union> {unat p..<unat p + unat sz} = free_bytes bs"
proof -
  from alloc_scan_Some [OF a bs n r] obtain us b vs where d: "bs = us @ b # vs"
    "fits voff sz (mask (max k 4)) off b" "p = baddr b + pre_gap voff (mask (max k 4)) off b"
    "bs' = us @ split_block (pre_gap voff (mask (max k 4)) off b) sz b @ vs" by blast
  let ?ps = "pre_gap voff (mask (max k 4)) off b"
  have ok: "block_ok base lim b" using bs d(1) by (auto simp: blocks_ok_append blocks_ok_Cons)
  have f: "unat ?ps + unat sz \<le> unat (bsize b)" using d(2) by (simp add: fits_def)
  have p: "unat p = blo b + unat ?ps"
    using a ok f d(3) by (auto simp: arena_def block_ok_def unat_add_nowrap)
  have "free_bytes (split_block ?ps sz b) = {blo b..<bhi b} - {unat p..<unat p + unat sz}"
    unfolding p using par d(1) z f by (intro split_block_exact [OF a ok] pre_gap_dvd) auto
  moreover have "{unat p..<unat p + unat sz} \<subseteq> {blo b..<bhi b}" using p f by auto
  ultimately show ?thesis unfolding d(1,4) free_bytes_append free_bytes_Cons by blast
qed

lemma alloc_Nil_cases:
  assumes "alloc_req sz k" "alloc_memblock [] sz (push_bit k 1) off h = Some (p, h')"
  shows "case alloc_scan (virt_offset h) (round_up_size sz) (mask (max k 4)) off (free_blocks h) of
       Some (q, bs) \<Rightarrow> p = q \<and> h' = h\<lparr>free_blocks := bs, freemem := freemem h - round_up_size sz\<rparr>
     | None \<Rightarrow> p = NULL \<and> h' = h"
proof -
  have k: "k \<le> 29" using assms(1) by (simp add: alloc_req_def)
  from alloc_loop_result [OF assms(2) [unfolded alloc_memblock_eq [OF k]]] show ?thesis
    by (auto dest!: discarded_to_Nil split: option.splits prod.splits)
qed

lemma alloc_free_id:
  assumes h: "heap_inv base lim h" "paragraphs h" and off: "16 dvd unat off" and req: "alloc_req sz k"
    and r: "alloc_memblock [] sz (push_bit k 1) off h = Some (p, h')" and p: "p \<noteq> NULL"
  shows "free_memblock p sz h' = Some h"
proof -
  have a: "arena base lim" "blocks_ok base lim (free_blocks h)" using h by (simp_all add: heap_inv_def)
  note b = alloc_req_bounds [OF req]
  obtain bs where s: "alloc_scan (virt_offset h) (round_up_size sz) (mask (max k 4)) off (free_blocks h) = Some (p, bs)"
    and h': "h' = h\<lparr>free_blocks := bs, freemem := freemem h - round_up_size sz\<rparr>"
    using alloc_Nil_cases [OF req r] p by (auto split: option.splits)
  note snd = alloc_scan_sound [OF a b(1,2) s, unfolded b(3)]
  have ex: "free_bytes bs \<union> extent (p, sz) = free_bytes (free_blocks h)"
    using alloc_scan_exact [OF a b(1,2) _ off _ s] h(2) reserved_bounds(4)
    by (simp add: b(3) paragraphs_def extent.simps)
  have "heap_inv base lim h'" using a(1) snd(1) h' by (simp add: heap_inv_def)
  moreover have "extent (p, sz) \<inter> heap_free h' = {}" using snd(3) h' by (auto simp: heap_free_def extent.simps)
  moreover have "0 < unat sz" "unat sz \<le> 2 ^ 30" using req by (simp_all add: alloc_req_def)
  ultimately obtain bs' where
    f: "free_memblock p sz h' = Some (h'\<lparr>free_blocks := bs', freemem := freemem h' + round_up_size sz\<rparr>)"
      "blocks_ok base lim bs'" "free_bytes bs' = heap_free h' \<union> extent (p, sz)"
    using free_memblock_sound [OF _ p, of base lim h' sz] snd(4,5) by blast
  have "bs' = free_blocks h"
    using blocks_ok_unique [OF f(2) a(2)] f(3) ex h' by (simp add: heap_free_def)
  then show ?thesis using f(1) h' by simp
qed

lemma alloc_Nil_complete:
  assumes h: "heap_inv base lim h" and req: "alloc_req sz k"
  shows "\<exists>p h'. alloc_memblock [] sz (push_bit k 1) off h = Some (p, h') \<and>
    (p = NULL \<longleftrightarrow> (\<forall>b \<in> set (free_blocks h). \<not> fits (virt_offset h) (round_up_size sz) (mask (max k 4)) off b))"
proof -
  have a: "arena base lim" "blocks_ok base lim (free_blocks h)" using h by (simp_all add: heap_inv_def)
  note b = alloc_req_bounds [OF req]
  have k: "k \<le> 29" using req by (simp add: alloc_req_def)
  obtain p h' where r: "alloc_memblock [] sz (push_bit k 1) off h = Some (p, h')"
    using alloc_loop_terminates [of "\<lambda>_. 0" "[]" "round_up_size sz" "mask (max k 4)" off h]
    unfolding alloc_memblock_eq [OF k] by (auto simp: discards_shrink_def)
  have "alloc_scan (virt_offset h) (round_up_size sz) (mask (max k 4)) off (free_blocks h) = None \<longleftrightarrow> p = NULL"
  proof (cases "alloc_scan (virt_offset h) (round_up_size sz) (mask (max k 4)) off (free_blocks h)")
    case None
    then show ?thesis using alloc_Nil_cases [OF req r] by simp
  next
    case (Some x)
    obtain bs where "x = (p, bs)" using alloc_Nil_cases [OF req r] Some by (cases x) auto
    then have "base \<le> unat p" using alloc_scan_sound(4) [OF a b(1,2)] Some by blast
    then show ?thesis using Some a(1) by (auto simp: arena_def)
  qed
  then show ?thesis using r alloc_scan_None [OF a b(1)] by metis
qed

section \<open>Reallocation\<close>

lemma load32_cong:
  assumes "\<forall>a. within q 4 a \<longrightarrow> m a = m' a" "unat q + 4 \<le> 2 ^ 32"
  shows "load32 q m = load32 q m'"
  using within_4 [OF assms(2)] assms(1) by (simp add: load32_def)

lemma extent_mono: "within q (unat sz) a \<Longrightarrow> unat a \<in> extent (q, sz)"
  using reserved_bounds(1) [of sz] by (auto simp: within_def extent.simps)

lemma owned_nowrap:
  "arena base lim \<Longrightarrow> owned_ok base lim fr (q, sz) \<Longrightarrow> unat q + unat sz < 2 ^ 32"
  using reserved_bounds(1) [of sz] by (auto simp: arena_def)

lemma owned_data:
  assumes "arena base lim" "owned_ok base lim fr (q, sz)" "4 < unat sz"
  shows "unat (q + 4) = unat q + 4" "unat q + 4 \<le> 2 ^ 32" "q + 4 \<noteq> NULL" "q + 4 \<noteq> NOWHERE"
proof -
  have b: "unat q + reserved sz < 2 ^ 32" using assms(1,2) by (auto simp: arena_def)
  have "16 \<le> reserved sz" using reserved_bounds(3) [of sz] assms(3) by simp
  then have l: "unat q + 16 < 2 ^ 32" using b by linarith
  show u: "unat (q + 4) = unat q + 4" using l by (intro trans [OF unat_add_nowrap]) simp_all
  show "unat q + 4 \<le> 2 ^ 32" using l by simp
  show "q + 4 \<noteq> NULL"
  proof
    assume "q + 4 = NULL"
    then have "unat (q + 4) = 0" by simp
    then show False using u by simp
  qed
  show "q + 4 \<noteq> NOWHERE"
  proof
    assume "q + 4 = NOWHERE"
    then have "unat (q + 4) = unat NOWHERE" by (simp only:)
    moreover have "unat NOWHERE = 4294967295" by (simp add: NOWHERE_def unsigned_minus_1_eq_mask mask_eq_exp_minus_1)
    ultimately show False using u l by simp
  qed
qed

lemma owned_apart:
  assumes "extent (p, sz) \<inter> extent (q, sz') = {}" "0 < unat sz" "0 < unat sz'"
  shows "unat p + unat sz \<le> unat q \<or> unat q + unat sz' \<le> unat p"
proof (rule ccontr)
  assume "\<not> ?thesis"
  then have "max (unat p) (unat q) \<in> extent (p, sz) \<inter> extent (q, sz')"
    using assms(2,3) reserved_bounds(1) [of sz] reserved_bounds(1) [of sz'] by (auto simp: extent.simps)
  then show False using assms(1) by blast
qed

lemma alloc_one: "alloc_memblock ds sz 1 off h = alloc_memblock ds sz (push_bit 0 1) off h"
  by simp

text \<open>The two allocations of a \<open>realloc()\<close> do not overlap, so neither the new size header nor the
  copied data touches the old block.\<close>

lemma owned_separate:
  assumes "extent (p, sz) \<inter> extent (q, sz') = {}" "within q (unat sz') a"
  shows "\<not> within p (unat sz) a"
  using assms extent_mono by blast

lemma realloc_alloc:
  assumes own: "owns base lim (mem h) q sz h" and hdr: "load32 q (mem h) = sz"
    and sz: "4 < unat sz" and n: "0 < unat new" "unat new + 4 \<le> 2 ^ 30"
    and ds: "discards_keep (owns base lim (mem h) q sz) ds"
    and al: "alloc_memblock ds (new + 4) 1 0 h = Some (nb, h2)" "nb \<noteq> NULL"
  shows "\<exists>h'. realloc ds (q + 4) new h = Some (nb + 4, h') \<and> heap_inv base lim h' \<and>
     owned_ok base lim (heap_free h') (nb, new + 4) \<and> load32 nb (mem h') = new + 4 \<and>
     area (mem h') (nb + 4) (min (unat sz - 4) (unat new)) =
       area (mem h) (q + 4) (min (unat sz - 4) (unat new))"
proof -
  have n4: "unat (new + 4) = unat new + 4" using n(2) by (intro trans [OF unat_add_nowrap]) simp_all
  have req: "alloc_req (new + 4) 0" using n n4 by (simp add: alloc_req_def)
  have O: "\<forall>h'. owns base lim (mem h) q sz h' \<longrightarrow> heap_inv base lim h'" by (simp add: owns_def)
  obtain h1 where "discarded_to ds h h1" and h1: "owns base lim (mem h) q sz h1" "heap_inv base lim h2"
     "extent (nb, new + 4) \<subseteq> heap_free h1" "heap_free h2 \<subseteq> heap_free h1 - extent (nb, new + 4)"
     "base \<le> unat nb" "unat nb + reserved (new + 4) \<le> lim" "mem h2 = mem h1"
    using alloc_memblock_spec [where P = "owns base lim (mem h) q sz", OF own ds O req al(1) [unfolded alloc_one] al(2)]
    by blast
  have A: "arena base lim" using h1(2) by (simp add: heap_inv_def)
  have q1: "owned_ok base lim (heap_free h1) (q, sz)" using h1(1) by (simp add: owns_def)
  have nbo: "owned_ok base lim (heap_free h2) (nb, new + 4)"
    using h1(4-6) n n4 by auto
  have sep: "extent (nb, new + 4) \<inter> extent (q, sz) = {}" using h1(3) q1 by auto
  have q2: "owned_ok base lim (heap_free h2) (q, sz)" using q1 h1(4) by auto
  have n': "4 < unat new + 4" using n(1) by simp
  note nd = owned_data [OF A nbo, unfolded n4, OF n'] and qd = owned_data [OF A q1 sz]
  note qw = owned_nowrap [OF A q1] and nw = owned_nowrap [OF A nbo, unfolded n4]
  define m3 where "m3 = store32 nb (new + 4) (mem h2)"
  have m3: "m3 a = mem h a" if "within q (unat sz) a" for a
  proof -
    have "\<not> within nb (unat (new + 4)) a" using owned_separate [OF sep that] .
    then have "\<not> within nb 4 a" using n4 by (auto simp: within_def)
    moreover have "mem h2 a = mem h a" using h1(1,7) that by (simp add: owns_def)
    ultimately show ?thesis using nw unfolding m3_def by (subst store32_other) auto
  qed
  have ld: "load32 q m3 = sz"
  proof -
    have "within q 4 a \<Longrightarrow> within q (unat sz) a" for a using sz by (simp add: within_def)
    then have "load32 q m3 = load32 q (mem h)" using m3 qd(2) by (intro load32_cong) blast+
    then show ?thesis using hdr by simp
  qed
  define len where "len = (if sz - 4 < new then sz - 4 else new)"
  have s4: "unat (sz - 4) = unat sz - 4" using sz by (subst unat_sub_le) simp_all
  have len: "unat len = min (unat sz - 4) (unat new)"
    using s4 by (auto simp: len_def min_def word_less_nat_alt)
  define m4 where "m4 = memcpy (nb + 4) (q + 4) (unat len) m3"
  let ?h4 = "h2\<lparr>mem := m4\<rparr>"
  have "heap_inv base lim ?h4" "heap_free ?h4 = heap_free h2" using h1(2) by (simp_all add: heap_inv_def heap_free_def)
  then obtain bs where fr: "free_memblock q sz ?h4 = Some (?h4\<lparr>free_blocks := bs, freemem := freemem ?h4 + round_up_size sz\<rparr>)"
       "blocks_ok base lim bs" "free_bytes bs = heap_free h2 \<union> extent (q, sz)"
    using free_memblock_sound [of base lim ?h4 q sz] q2 owned_not_NULL [OF A q2] by auto
  let ?h = "?h4\<lparr>free_blocks := bs, freemem := freemem ?h4 + round_up_size sz\<rparr>"
  have "new \<noteq> 0" using n(1) by auto
  then have "realloc ds (q + 4) new h = Some (nb + 4, ?h)"
    using al qd(3,4) fr(1) ld
    by (cases "sz - 4 < new")
      (simp_all add: realloc_def Let_def autosized_data_offset_def m3_def [symmetric] len_def m4_def)
  moreover have "heap_inv base lim ?h" using A fr(2) by (simp add: heap_inv_def)
  moreover have "owned_ok base lim (heap_free ?h) (nb, new + 4)"
    using nbo fr(3) sep by (auto simp: heap_free_def)
  moreover have ap: "apart (nb + 4) (unat len) (q + 4) (unat len)"
  proof -
    have l: "unat len \<le> unat sz - 4" "unat len \<le> unat new" by (simp_all add: len)
    have "unat nb + (unat new + 4) \<le> unat q \<or> unat q + unat sz \<le> unat nb"
      using owned_apart [OF sep] n4 sz by simp
    then show ?thesis unfolding apart_def nd(1) qd(1) using l qw nw sz by linarith
  qed
  moreover have "load32 nb m4 = new + 4"
  proof -
    have "m4 a = m3 a" if "within nb 4 a" for a
      using that ap nd unfolding m4_def apart_def by (subst memcpy_apply) (auto simp: within_def)
    then have "load32 nb m4 = load32 nb m3" using nd by (intro load32_cong) auto
    then show ?thesis by (simp add: m3_def load_store32)
  qed
  moreover have "area m4 (nb + 4) (unat len) = area (mem h) (q + 4) (unat len)"
  proof -
    have "area m4 (nb + 4) (unat len) = area m3 (q + 4) (unat len)"
      unfolding m4_def by (rule memcpy_area [OF ap])
    also have "\<dots> = area (mem h) (q + 4) (unat len)"
    proof (rule area_eqI)
      fix i assume "i < unat len"
      then have "within q (unat sz) (q + 4 + of_nat i)"
        using len qw qd(1) unat_plus_of_nat [of "q + 4" i] by (auto simp: within_def)
      then show "m3 (q + 4 + of_nat i) = mem h (q + 4 + of_nat i)" by (rule m3)
    qed
    finally show ?thesis .
  qed
  ultimately show ?thesis unfolding len [symmetric] by auto
qed

section \<open>The allocator as an interface\<close>

text \<open>What the buffer code relies on: an allocation is carved out of the available bytes, a release
  gives its bytes back.\<close>

locale block_pool =
  fixes base lim :: nat
    and inv :: "'s \<Rightarrow> bool"
    and avail :: "'s \<Rightarrow> nat set"
    and alloc :: "u32 \<Rightarrow> nat \<Rightarrow> u32 \<Rightarrow> 's \<Rightarrow> (ptr \<times> 's) option"
    and release :: "ptr \<Rightarrow> u32 \<Rightarrow> 's \<Rightarrow> 's option"
  assumes alloc_law: "inv s \<Longrightarrow> alloc_req sz k \<Longrightarrow>
      \<exists>p s'. alloc sz k off s = Some (p, s') \<and> inv s' \<and>
        (if p = NULL then s' = s
         else extent (p, sz) \<subseteq> avail s \<and> avail s' \<subseteq> avail s - extent (p, sz) \<and>
           owned_ok base lim (avail s') (p, sz))"
    and release_law: "inv s \<Longrightarrow> owned_ok base lim (avail s) (p, sz) \<Longrightarrow>
      \<exists>s'. release p sz s = Some s' \<and> inv s' \<and> avail s' = avail s \<union> extent (p, sz)"
begin

lemma alloc_cases:
  assumes "inv s" "alloc_req sz k" "alloc sz k off s = Some (p, s')"
  obtains (full) "p = NULL" "s' = s"
  | (got) "p \<noteq> NULL" "inv s'" "extent (p, sz) \<subseteq> avail s" "avail s' \<subseteq> avail s - extent (p, sz)"
      "owned_ok base lim (avail s') (p, sz)"
  using alloc_law [OF assms(1,2), of off] assms(3) by (auto split: if_splits)

lemma alloc_release:
  assumes "inv s" "alloc_req sz k" "alloc sz k off s = Some (p, s')" "p \<noteq> NULL"
  shows "\<exists>s''. release p sz s' = Some s'' \<and> inv s'' \<and> avail s'' \<subseteq> avail s"
  using assms(1-3)
proof (cases rule: alloc_cases)
  case full
  then show ?thesis using assms(4) by simp
next
  case got
  from release_law [OF got(2,5)] got(3,4) show ?thesis by blast
qed

lemma alloc_twice:
  assumes "inv s" "alloc_req sz k" "alloc sz k off s = Some (p, s1)" "p \<noteq> NULL"
    and "alloc_req sz' k'" "alloc sz' k' off' s1 = Some (q, s2)" "q \<noteq> NULL"
  shows "inv s2 \<and> extent (p, sz) \<inter> extent (q, sz') = {} \<and>
    owned_ok base lim (avail s2) (p, sz) \<and> owned_ok base lim (avail s2) (q, sz')"
  using assms(1-3)
proof (cases rule: alloc_cases)
  case full
  then show ?thesis using assms(4) by simp
next
  case a: got
  show ?thesis
    using a(2) assms(5,6)
  proof (cases rule: alloc_cases)
    case full
    then show ?thesis using assms(7) by simp
  next
    case got
    have "extent (p, sz) \<inter> avail s1 = {}" using a(5) by simp
    then show ?thesis using a got by auto
  qed
qed

end

lemma heap_pool_laws:
  "block_pool base lim (heap_inv base lim) heap_free
     (\<lambda>sz k off. alloc_memblock [] sz (push_bit k 1) off) free_memblock"
proof
  fix s :: "'a heap_scheme" and sz k off
  assume s: "heap_inv base lim s" and req: "alloc_req sz k"
  obtain p s' where r: "alloc_memblock [] sz (push_bit k 1) off s = Some (p, s')"
    using alloc_Nil_complete [OF s req] by blast
  have "if p = NULL then s' = s else heap_inv base lim s' \<and> extent (p, sz) \<subseteq> heap_free s \<and>
      heap_free s' \<subseteq> heap_free s - extent (p, sz) \<and> owned_ok base lim (heap_free s') (p, sz)"
  proof (cases "p = NULL")
    case True
    then show ?thesis using alloc_fail_unchanged [OF s req] r by simp
  next
    case False
    from alloc_memblock_spec [where P = "heap_inv base lim" and base = base and lim = lim, OF s discards_keep_Nil _ req r False]
    obtain h1 where h1: "discarded_to [] s h1"
      and q: "heap_inv base lim s'" "extent (p, sz) \<subseteq> heap_free h1" "heap_free s' \<subseteq> heap_free h1 - extent (p, sz)"
        "base \<le> unat p" "unat p + reserved sz \<le> lim" by blast
    note q = q [unfolded discarded_to_Nil [OF h1]]
    show ?thesis using False q req by (auto simp: alloc_req_def)
  qed
  then show "\<exists>p s'. alloc_memblock [] sz (push_bit k 1) off s = Some (p, s') \<and> heap_inv base lim s' \<and>
        (if p = NULL then s' = s
         else extent (p, sz) \<subseteq> heap_free s \<and> heap_free s' \<subseteq> heap_free s - extent (p, sz) \<and>
           owned_ok base lim (heap_free s') (p, sz))"
    using r s by (auto split: if_splits)
next
  fix s :: "'a heap_scheme" and p sz
  assume s: "heap_inv base lim s" and o: "owned_ok base lim (heap_free s) (p, sz)"
  have "ownership base lim (s, [] @ (p, sz) # [])" using s o by (simp add: ownership_def)
  from ownership_free [OF this]
  show "\<exists>s'. free_memblock p sz s = Some s' \<and> heap_inv base lim s' \<and> heap_free s' = heap_free s \<union> extent (p, sz)"
    by (auto simp: ownership_def)
qed

interpretation heap_pool: block_pool base lim "heap_inv base lim" heap_free
  "\<lambda>sz k off. alloc_memblock [] sz (push_bit k 1) off" free_memblock
  for base lim
  by (rule heap_pool_laws)

section \<open>Properties\<close>

lemma init_heap_eq:
  assumes "start \<noteq> NULL" "free_blocks h = []"
  shows "init_heap start h = Some (h\<lparr>free_blocks := [\<lparr>baddr = start, bsize = HEAP_SIZE\<rparr>],
    freemem := freemem h + HEAP_SIZE\<rparr>)"
proof -
  have "HEAP_SIZE AND NOT (MIN_MEMBLOCK_SIZE - 1) = HEAP_SIZE" "round_up_size HEAP_SIZE = HEAP_SIZE"
    by (simp_all add: HEAP_SIZE_def round_up_size_def)
  then show ?thesis using assms
    by (simp add: init_heap_def mpopulate_def free_memblock_def Let_def)
qed

definition start_heap :: heap where
  "start_heap = \<lparr>free_blocks = [\<lparr>baddr = 0x100000, bsize = HEAP_SIZE\<rparr>], freemem = HEAP_SIZE,
     mem = (\<lambda>_. 0), virt_offset = 0\<rparr>"

definition empty_heap :: heap where
  "empty_heap = \<lparr>free_blocks = [], freemem = 0, mem = (\<lambda>_. 0), virt_offset = 0\<rparr>"

definition cached_heap :: "nat heap_scheme" where
  "cached_heap = \<lparr>free_blocks = [], freemem = 0, mem = (\<lambda>_. 0), virt_offset = 0, \<dots> = 2\<rparr>"

definition drop_cached :: "nat discarder" where
  "drop_cached h = (if heap.more h = 0 then (0, h) else (1, h\<lparr>heap.more := heap.more h - 1\<rparr>))"

lemma start_heap_inv: "heap_inv 0x100000 (0x100000 + unat HEAP_SIZE) start_heap"
  by (simp add: heap_inv_def arena_def blocks_ok_def block_ok_def start_heap_def HEAP_SIZE_def)

lemma start_heap_alloc:
  "alloc_memblock [] 100 (push_bit 0 1) 0 start_heap =
     Some (0x100000, start_heap\<lparr>free_blocks := [\<lparr>baddr = 0x100070, bsize = HEAP_SIZE - 112\<rparr>], freemem := HEAP_SIZE - 112\<rparr>)"
  by (simp add: alloc_memblock_def alloc_loop.simps start_heap_def round_up_size_def HEAP_SIZE_def
      virt_to_phys_def Let_def)





text \<open>C27: alloc_memblock() returns, whatever the size and alignment, provided every call of a cache
  discarder that reports a discarded item has made the caches smaller.\<close>

theorem alloc_memblock_terminates:
  assumes "discards_shrink f ds"
  shows "\<exists>p h'. alloc_memblock ds sz align off h = Some (p, h')"
  unfolding alloc_memblock_def by (rule alloc_loop_terminates [OF assms])

theorem alloc_memblock_terminates_witness:
  "\<exists>p h'. alloc_memblock [drop_cached] 64 1 0 cached_heap = Some (p, h')"
  by (rule alloc_memblock_terminates [of heap.more]) (simp add: discards_shrink_def drop_cached_def)



text \<open>On a heap whose free blocks start and end on multiples of 16 bytes, freeing a block right
  after allocating it (with an offset that is a multiple of 16) restores the heap exactly: no byte
  is lost to splitting.\<close>

theorem alloc_free_roundtrip:
  assumes "heap_inv base lim h" and "paragraphs h" and "16 dvd unat off" and "alloc_req sz k"
    and "alloc_memblock [] sz (push_bit k 1) off h = Some (p, h')" and "p \<noteq> NULL"
  shows "free_memblock p sz h' = Some h"
  by (rule alloc_free_id [OF assms])

theorem alloc_free_roundtrip_witness:
  "free_memblock 0x100000 100 (start_heap\<lparr>free_blocks := [\<lparr>baddr = 0x100070, bsize = HEAP_SIZE - 112\<rparr>],
     freemem := HEAP_SIZE - 112\<rparr>) = Some start_heap"
proof (rule alloc_free_roundtrip [OF start_heap_inv _ _ _ start_heap_alloc])
  show "paragraphs start_heap" by (simp add: paragraphs_def start_heap_def HEAP_SIZE_def virt_to_phys_def)
  show "alloc_req 100 0" by (simp add: alloc_req_def)
qed simp_all

text \<open>Realloc() of a live block either fails and returns NULL without touching it, or returns a
  new live block that starts with the old data, cut to the smaller of the two sizes, and gives the old
  block back.\<close>

theorem realloc_copies:
  assumes "owns base lim (mem h) q sz h" and "load32 q (mem h) = sz" and "4 < unat sz"
    and "0 < unat new" and "unat new + 4 \<le> 2 ^ 30"
    and "discards_keep (owns base lim (mem h) q sz) ds" and "discards_shrink f ds"
  shows "\<exists>p h'. realloc ds (q + 4) new h = Some (p, h') \<and>
    (if p = NULL then owns base lim (mem h) q sz h'
     else heap_inv base lim h' \<and> owned_ok base lim (heap_free h') (p - 4, new + 4) \<and>
       load32 (p - 4) (mem h') = new + 4 \<and>
       area (mem h') p (min (unat sz - 4) (unat new)) = area (mem h) (q + 4) (min (unat sz - 4) (unat new)))"
proof -
  obtain nb h2 where al: "alloc_memblock ds (new + 4) 1 0 h = Some (nb, h2)"
    using alloc_loop_terminates [OF assms(7)] unfolding alloc_memblock_def by blast
  show ?thesis
  proof (cases "nb = NULL")
    case True
    then have "realloc ds (q + 4) new h = Some (NULL, h2)"
      using al assms(4) by (auto simp: realloc_def Let_def autosized_data_offset_def)
    moreover have "owns base lim (mem h) q sz h2"
    proof (rule alloc_fail_keeps [OF assms(1,6) _ _ al [unfolded True alloc_one]])
      show "\<forall>h'. owns base lim (mem h) q sz h' \<longrightarrow> heap_inv base lim h'" by (simp add: owns_def)
      have "unat (new + 4) = unat new + 4"
        using assms(5) by (intro trans [OF unat_add_nowrap]) simp_all
      then show "alloc_req (new + 4) 0" using assms(4,5) by (simp add: alloc_req_def)
    qed
    ultimately show ?thesis by simp
  next
    case False
    from realloc_alloc [OF assms(1-6) al False] obtain h' where
      r: "realloc ds (q + 4) new h = Some (nb + 4, h')" "heap_inv base lim h'"
       "owned_ok base lim (heap_free h') (nb, new + 4)" "load32 nb (mem h') = new + 4"
       "area (mem h') (nb + 4) (min (unat sz - 4) (unat new)) =
         area (mem h) (q + 4) (min (unat sz - 4) (unat new))" by blast
    have "unat (new + 4) = unat new + 4"
      using assms(5) by (intro trans [OF unat_add_nowrap]) simp_all
    then have "nb + 4 \<noteq> NULL"
      using owned_data(3) [OF _ r(3)] r(2) assms(4) by (simp add: heap_inv_def)
    then show ?thesis using r by (intro exI [of _ "nb + 4"] exI [of _ h']) simp
  qed
qed

definition live_heap :: heap where
  "live_heap = start_heap\<lparr>free_blocks := [\<lparr>baddr = 0x100070, bsize = HEAP_SIZE - 112\<rparr>],
     mem := store32 0x100000 100 (\<lambda>a. ucast a)\<rparr>"

lemma live_heap_owns: "owns 0x100000 (0x100000 + unat HEAP_SIZE) (mem live_heap) 0x100000 100 live_heap"
  by (simp add: owns_def heap_inv_def arena_def blocks_ok_def block_ok_def live_heap_def start_heap_def
      HEAP_SIZE_def extent.simps heap_free_def reserved_def)

theorem realloc_copies_witness:
  "\<exists>p h'. realloc [] 0x100004 200 live_heap = Some (p, h') \<and>
     (p \<noteq> NULL \<longrightarrow> area (mem h') p 96 = area (mem live_heap) 0x100004 96)"
proof -
  have "load32 0x100000 (mem live_heap) = 100" by (simp add: live_heap_def load_store32)
  from realloc_copies [OF live_heap_owns this, of 200 "[]" "\<lambda>_. 0"] show ?thesis
    by (auto simp: discards_shrink_def split: if_splits)
qed

text \<open>The two find-last-set routines agree: the constant-folding macro of strings.h computes the
  loop of bitops.c, which returns the position (from 1) of the most significant set bit, 0 for 0.\<close>

theorem constant_flsl_equiv:
  "constant_flsl x = flsl x \<and> (if x = 0 then flsl x = 0 else 2 ^ (flsl x - 1) \<le> unat x \<and> unat x < 2 ^ flsl x)"
  using constant_flsl_flsl flsl_bounds [of x] by (simp add: flsl_zero)


end
