(* ===== verification/Iobuf.thy ===== *)
theory Iobuf
  imports Malloc_Correct
begin

text \<open>
  I/O buffers (\<open>src/src/include/ipxe/iobuf.h\<close>, \<open>src/src/core/iobuf.c\<close>, \<open>src/src/net/iobpad.c\<close>).
  A descriptor is the record \<open>io_buffer\<close>; the descriptors that exist are the field \<open>iobs\<close> that extends
  the heap state, by address.  The list member of the descriptor belongs to the queue the buffer is on
  and is represented there.  The assertions of the macros are the hypotheses of the lemmas.
\<close>

section \<open>State\<close>

record io_buffer =
  ihead :: ptr
  idata :: ptr
  itail :: ptr
  iend :: ptr

record iob_heap = heap +
  iobs :: "ptr \<rightharpoonup> io_buffer"

definition IOB_ZLEN :: u32 where
  "IOB_ZLEN = 64"

definition sizeof_io_buffer :: u32 where
  "sizeof_io_buffer = 24"

definition alignof_io_buffer :: u32 where
  "alignof_io_buffer = 4"

section \<open>Operations on a descriptor\<close>

definition iob_reserve :: "u32 \<Rightarrow> io_buffer \<Rightarrow> ptr \<times> io_buffer" where
  "iob_reserve len iobuf =
     (let iobuf = iobuf\<lparr>idata := idata iobuf + len\<rparr>;
          iobuf = iobuf\<lparr>itail := itail iobuf + len\<rparr>
      in (idata iobuf, iobuf))"

definition iob_push :: "u32 \<Rightarrow> io_buffer \<Rightarrow> ptr \<times> io_buffer" where
  "iob_push len iobuf = (let iobuf = iobuf\<lparr>idata := idata iobuf - len\<rparr> in (idata iobuf, iobuf))"

definition iob_pull :: "u32 \<Rightarrow> io_buffer \<Rightarrow> ptr \<times> io_buffer" where
  "iob_pull len iobuf = (let iobuf = iobuf\<lparr>idata := idata iobuf + len\<rparr> in (idata iobuf, iobuf))"

definition iob_put :: "u32 \<Rightarrow> io_buffer \<Rightarrow> ptr \<times> io_buffer" where
  "iob_put len iobuf =
     (let old_tail = itail iobuf in (old_tail, iobuf\<lparr>itail := itail iobuf + len\<rparr>))"

definition iob_unput :: "u32 \<Rightarrow> io_buffer \<Rightarrow> io_buffer" where
  "iob_unput len iobuf = iobuf\<lparr>itail := itail iobuf - len\<rparr>"

definition iob_empty :: "io_buffer \<Rightarrow> io_buffer" where
  "iob_empty iobuf = iobuf\<lparr>itail := idata iobuf\<rparr>"

definition iob_len :: "io_buffer \<Rightarrow> u32" where
  "iob_len iobuf = itail iobuf - idata iobuf"

definition iob_headroom :: "io_buffer \<Rightarrow> u32" where
  "iob_headroom iobuf = idata iobuf - ihead iobuf"

definition iob_tailroom :: "io_buffer \<Rightarrow> u32" where
  "iob_tailroom iobuf = iend iobuf - itail iobuf"

definition iob_populate :: "ptr \<Rightarrow> u32 \<Rightarrow> u32 \<Rightarrow> io_buffer" where
  "iob_populate data len max_len =
     \<lparr>ihead = data, idata = data, itail = data + len, iend = data + max_len\<rparr>"

definition iob_ensure_headroom :: "io_buffer \<Rightarrow> u32 \<Rightarrow> rc" where
  "iob_ensure_headroom iobuf len = (if iob_headroom iobuf \<ge> len then None else Some ENOBUFS)"

definition iob_pad :: "u32 \<Rightarrow> io_buffer \<Rightarrow> memory \<Rightarrow> io_buffer \<times> memory" where
  "iob_pad min_len iobuf m =
     (let data = idata iobuf;
          len = iob_len iobuf;
          headroom = iob_headroom iobuf;
          (_, iobuf) = iob_push headroom iobuf;
          m = memmove (idata iobuf) data (unat len) m;
          iobuf = iob_unput headroom iobuf;
          pad_len = min_len - iob_len iobuf
      in if sint pad_len > 0 then
           let (p, iobuf) = iob_put pad_len iobuf in (iobuf, memset p 0 (unat pad_len) m)
         else (iobuf, m))"

section \<open>Allocation\<close>

definition malloc_dma_offset ::
  "'a discarder list \<Rightarrow> u32 \<Rightarrow> u32 \<Rightarrow> u32 \<Rightarrow> 'a heap_scheme \<Rightarrow> (ptr \<times> 'a heap_scheme) option" where
  "malloc_dma_offset ds sz phys_align offset h = alloc_memblock ds sz phys_align offset h"

definition free_dma :: "ptr \<Rightarrow> u32 \<Rightarrow> 'a heap_scheme \<Rightarrow> 'a heap_scheme option" where
  "free_dma ptr sz h = free_memblock ptr sz h"

definition populate_descriptor :: "ptr \<Rightarrow> ptr \<Rightarrow> u32 \<Rightarrow> 'a iob_heap_scheme \<Rightarrow> 'a iob_heap_scheme" where
  "populate_descriptor iobuf data len h =
     h\<lparr>iobs := (iobs h)(iobuf \<mapsto> \<lparr>ihead = data, idata = data, itail = data, iend = data + len\<rparr>)\<rparr>"

definition alloc_iob_raw ::
  "'a iob_heap_ext discarder list \<Rightarrow> u32 \<Rightarrow> u32 \<Rightarrow> u32 \<Rightarrow> 'a iob_heap_scheme \<Rightarrow>
     (ptr \<times> 'a iob_heap_scheme) option" where
  "alloc_iob_raw ds len align offset h =
     (let len = (len + alignof_io_buffer - 1) AND NOT (alignof_io_buffer - 1);
          align = push_bit (flsl (align - 1)) 1
      in if len + sizeof_io_buffer \<le> align then
           case malloc_dma_offset ds (len + sizeof_io_buffer) align offset h of
             None \<Rightarrow> None
           | Some (data, h) \<Rightarrow>
               if data = NULL then Some (NULL, h)
               else let iobuf = data + len in Some (iobuf, populate_descriptor iobuf data len h)
         else
           case malloc_dma_offset ds len align offset h of
             None \<Rightarrow> None
           | Some (data, h) \<Rightarrow>
               if data = NULL then Some (NULL, h)
               else case malloc ds sizeof_io_buffer h of
                 None \<Rightarrow> None
               | Some (iobuf, h) \<Rightarrow>
                   if iobuf = NULL then map_option (Pair NULL) (free_dma data len h)
                   else Some (iobuf, populate_descriptor iobuf data len h))"

definition alloc_iob ::
  "'a iob_heap_ext discarder list \<Rightarrow> u32 \<Rightarrow> 'a iob_heap_scheme \<Rightarrow> (ptr \<times> 'a iob_heap_scheme) option" where
  "alloc_iob ds len h =
     (let len = (if len < IOB_ZLEN then IOB_ZLEN else len) in alloc_iob_raw ds len len 0 h)"

text \<open>Freeing a pointer that is not a live descriptor is an error, the result \<open>None\<close>.\<close>

definition free_iob ::
  "'a iob_heap_ext discarder list \<Rightarrow> ptr \<Rightarrow> 'a iob_heap_scheme \<Rightarrow> 'a iob_heap_scheme option" where
  "free_iob ds p h =
     (if p = NULL then Some h
      else case iobs h p of
        None \<Rightarrow> None
      | Some iobuf \<Rightarrow>
          let len = iend iobuf - ihead iobuf;
              h' = h\<lparr>iobs := (iobs h)(p := None)\<rparr>
          in if iend iobuf = p then free_dma (ihead iobuf) (len + sizeof_io_buffer) h'
             else case free_dma (ihead iobuf) len h' of
               None \<Rightarrow> None
             | Some h'' \<Rightarrow> free ds p h'')"

section \<open>Well-formed buffers and their content\<close>

definition iob_ok :: "io_buffer \<Rightarrow> bool" where
  "iob_ok b \<longleftrightarrow> ihead b \<le> idata b \<and> idata b \<le> itail b \<and> itail b \<le> iend b"

definition iob_content :: "memory \<Rightarrow> io_buffer \<Rightarrow> byte list" where
  "iob_content m b = area m (idata b) (unat (iob_len b))"

definition iob_view :: "memory \<Rightarrow> io_buffer \<Rightarrow> byte list \<times> byte list \<times> byte list" where
  "iob_view m b = (area m (ihead b) (unat (iob_headroom b)), iob_content m b,
     area m (itail b) (unat (iob_tailroom b)))"

definition iob_block :: "ptr \<Rightarrow> io_buffer \<Rightarrow> (ptr \<times> u32) list" where
  "iob_block p b = (if iend b = p then [(ihead b, iend b - ihead b + 24)]
     else [(ihead b, iend b - ihead b), (p - 4, 28)])"

definition iob_live :: "nat \<Rightarrow> nat \<Rightarrow> 'a iob_heap_scheme \<Rightarrow> ptr \<Rightarrow> bool" where
  "iob_live base lim h p \<longleftrightarrow> p \<noteq> NULL \<and> p \<noteq> NOWHERE \<and> (\<exists>b. iobs h p = Some b \<and>
     ownership base lim (h, iob_block p b) \<and> (iend b \<noteq> p \<longrightarrow> load32 (p - 4) (mem h) = 28))"

definition iob_bytes :: "ptr \<Rightarrow> io_buffer \<Rightarrow> nat set" where
  "iob_bytes p b = (\<Union>c \<in> set (iob_block p b). extent c)"

section \<open>Lemmas\<close>

lemma area_length [simp]: "length (area m p n) = n"
  by (simp add: area_def)

lemma area_append: "area m p (a + b) = area m p a @ area m (p + of_nat a) b"
proof (induction a arbitrary: p)
  case 0
  show ?case by (simp add: area_def)
next
  case (Suc a)
  then show ?case by (simp add: area_Suc algebra_simps)
qed

lemma take_area: "n \<le> k \<Longrightarrow> take n (area m p k) = area m p n"
  using area_append [of m p n "k - n"] by simp

lemma drop_area: "n \<le> k \<Longrightarrow> drop n (area m p k) = area m (p + of_nat n) (k - n)"
  using area_append [of m p n "k - n"] by simp

lemma iob_units:
  assumes "iob_ok b"
  shows "unat (iob_headroom b) = unat (idata b) - unat (ihead b)" "unat (iob_len b) = unat (itail b) - unat (idata b)"
    "unat (iob_tailroom b) = unat (iend b) - unat (itail b)"
    "unat (ihead b) \<le> unat (idata b)" "unat (idata b) \<le> unat (itail b)" "unat (itail b) \<le> unat (iend b)"
    "unat (iend b) < 2 ^ 32"
proof -
  show "unat (iend b) < 2 ^ 32" using unsigned_less [of "iend b"] by simp
qed (use assms in \<open>simp_all add: iob_ok_def iob_headroom_def iob_len_def iob_tailroom_def word_le_nat_alt unat_sub_le\<close>)

lemma iob_okI:
  "unat (ihead b) \<le> unat (idata b) \<Longrightarrow> unat (idata b) \<le> unat (itail b) \<Longrightarrow> unat (itail b) \<le> unat (iend b) \<Longrightarrow> iob_ok b"
  by (simp add: iob_ok_def word_le_nat_alt)

lemma iob_put_view:
  assumes b: "iob_ok b" and n: "unat n \<le> unat (iob_tailroom b)" and r: "iob_put n b = (p, b')"
  shows "iob_ok b' \<and> p = itail b \<and> iob_view m b' =
    (case iob_view m b of (pre, d, post) \<Rightarrow> (pre, d @ take (unat n) post, drop (unat n) post))"
proof -
  note u = iob_units [OF b]
  have b': "b' = b\<lparr>itail := itail b + n\<rparr>" "p = itail b" using r by (auto simp: iob_put_def)
  have t: "unat (itail b + n) = unat (itail b) + unat n" using n u by (intro unat_add_nowrap) simp
  have ok: "iob_ok b'" using t u n b' by (intro iob_okI) simp_all
  note u' = iob_units [OF ok]
  have l: "unat (iob_len b') = unat (iob_len b) + unat n" using u u' b' t by simp
  have q: "idata b + iob_len b = itail b" by (simp add: iob_len_def)
  have "iob_content m b' = iob_content m b @ area m (itail b) (unat n)"
    unfolding iob_content_def l using area_append [of m "idata b" "unat (iob_len b)" "unat n"] b' by (simp add: q)
  moreover have "area m (itail b') (unat (iob_tailroom b')) = drop (unat n) (area m (itail b) (unat (iob_tailroom b)))"
    using n u u' t b' by (simp add: drop_area diff_diff_eq)
  ultimately show ?thesis using ok b' n by (simp add: iob_view_def take_area iob_headroom_def)
qed

lemma iob_unput_view:
  assumes b: "iob_ok b" and n: "unat n \<le> unat (iob_len b)"
  shows "iob_ok (iob_unput n b) \<and> iob_view m (iob_unput n b) =
    (case iob_view m b of (pre, d, post) \<Rightarrow>
       (pre, take (length d - unat n) d, drop (length d - unat n) d @ post))"
proof -
  note u = iob_units [OF b]
  define b' where "b' = iob_unput n b"
  have b': "b' = b\<lparr>itail := itail b - n\<rparr>" by (simp add: b'_def iob_unput_def)
  have t: "unat (itail b - n) = unat (itail b) - unat n" using n u by (intro unat_sub_le) simp
  have ok: "iob_ok b'" using t u n b' by (intro iob_okI) simp_all
  have r: "iob_put n b' = (itail b', b)" by (simp add: b' iob_put_def)
  note u' = iob_units [OF ok]
  have "unat n \<le> unat (iob_tailroom b')" using u' u t n b' by simp linarith
  note n' = this
  obtain pre d post where v: "iob_view m b' = (pre, d, post)" by (cases "iob_view m b'")
  have "unat n \<le> length post" using v n' by (auto simp: iob_view_def)
  moreover have "iob_view m b = (pre, d @ take (unat n) post, drop (unat n) post)"
    using iob_put_view [OF ok n' r, of m] v by simp
  ultimately show ?thesis using ok v unfolding b'_def [symmetric] by simp
qed

lemma iob_pull_view:
  assumes b: "iob_ok b" and n: "unat n \<le> unat (iob_len b)" and r: "iob_pull n b = (p, b')"
  shows "iob_ok b' \<and> p = idata b' \<and> iob_view m b' =
    (case iob_view m b of (pre, d, post) \<Rightarrow> (pre @ take (unat n) d, drop (unat n) d, post))"
proof -
  note u = iob_units [OF b]
  have b': "b' = b\<lparr>idata := idata b + n\<rparr>" "p = idata b + n" using r by (auto simp: iob_pull_def)
  have t: "unat (idata b + n) = unat (idata b) + unat n" using n u by (intro unat_add_nowrap) simp
  have ok: "iob_ok b'" using t u n b' by (intro iob_okI) simp_all
  note u' = iob_units [OF ok]
  have l: "unat (iob_headroom b') = unat (iob_headroom b) + unat n" using u u' b' t by simp
  have q: "ihead b + iob_headroom b = idata b" by (simp add: iob_headroom_def)
  have "area m (ihead b') (unat (iob_headroom b')) = area m (ihead b) (unat (iob_headroom b)) @ area m (idata b) (unat n)"
    unfolding l using area_append [of m "ihead b" "unat (iob_headroom b)" "unat n"] b' by (simp add: q)
  moreover have "iob_content m b' = drop (unat n) (iob_content m b)"
    using n u u' t b' by (simp add: iob_content_def drop_area diff_diff_eq)
  ultimately show ?thesis using ok b' n by (simp add: iob_view_def take_area iob_tailroom_def iob_content_def)
qed

lemma iob_push_view:
  assumes b: "iob_ok b" and n: "unat n \<le> unat (iob_headroom b)" and r: "iob_push n b = (p, b')"
  shows "iob_ok b' \<and> p = idata b' \<and> iob_view m b' =
    (case iob_view m b of (pre, d, post) \<Rightarrow>
       (take (length pre - unat n) pre, drop (length pre - unat n) pre @ d, post))"
proof -
  note u = iob_units [OF b]
  have b': "b' = b\<lparr>idata := idata b - n\<rparr>" "p = idata b'" using r by (auto simp: iob_push_def)
  have t: "unat (idata b - n) = unat (idata b) - unat n" using n u by (intro unat_sub_le) simp
  have ok: "iob_ok b'" using t u n b' by (intro iob_okI) simp_all
  have r: "iob_pull n b' = (idata b, b)" by (simp add: b' iob_pull_def)
  note u' = iob_units [OF ok]
  have "unat n \<le> unat (iob_len b')" using u' u t n b' by simp linarith
  note n' = this
  obtain pre d post where v: "iob_view m b' = (pre, d, post)" by (cases "iob_view m b'")
  have "unat n \<le> length d" using v n' by (auto simp: iob_view_def iob_content_def)
  moreover have "iob_view m b = (pre @ take (unat n) d, drop (unat n) d, post)"
    using iob_pull_view [OF ok n' r, of m] v by simp
  ultimately show ?thesis using ok v b'(2) by simp
qed

lemma sint_pos_diff:
  fixes x y :: u32
  assumes "unat x < 2 ^ 31" "unat y < 2 ^ 31"
  shows "sint (x - y) > 0 \<longleftrightarrow> unat y < unat x"
proof -
  have "int (unat x) - int (unat y) < 2147483648" "- 2147483648 \<le> int (unat x) - int (unat y)"
    using assms [simplified] by linarith+
  then have "sint (x - y) = int (unat x) - int (unat y)" by (intro sint_minus_eq) simp_all
  then show ?thesis by linarith
qed

lemma iob_pad_spec:
  assumes b: "iob_ok b" and l: "unat (iend b) - unat (ihead b) < 2 ^ 31"
    and n: "unat n \<le> unat (iend b) - unat (ihead b)" and r: "iob_pad n b m = (b', m')"
  shows "iob_ok b' \<and> ihead b' = ihead b \<and> iend b' = iend b \<and> idata b' = ihead b \<and>
    iob_content m' b' = iob_content m b @ replicate (unat n - unat (iob_len b)) 0 \<and>
    (\<forall>a. \<not> within (ihead b) (unat (iend b) - unat (ihead b)) a \<longrightarrow> m' a = m a)"
proof -
  note u = iob_units [OF b]
  define L where "L = unat (iob_len b)"
  define b1 where "b1 = b\<lparr>idata := ihead b, itail := ihead b + iob_len b\<rparr>"
  define m1 where "m1 = memmove (ihead b) (idata b) L m"
  have t: "unat (ihead b + iob_len b) = unat (ihead b) + L"
    unfolding L_def using u by (intro unat_add_nowrap) simp
  have ok1: "iob_ok b1" using t u L_def by (intro iob_okI) (auto simp: b1_def)
  have len1: "iob_len b1 = iob_len b" by (simp add: b1_def iob_len_def)
  have bb: "iob_push (iob_headroom b) b = (ihead b, b\<lparr>idata := ihead b\<rparr>)"
    "iob_unput (iob_headroom b) (b\<lparr>idata := ihead b\<rparr>) = b1"
    by (simp_all add: iob_push_def iob_headroom_def iob_unput_def b1_def iob_len_def)
  have r1: "(if sint (n - iob_len b) > 0
     then let (p, c) = iob_put (n - iob_len b) b1 in (c, memset p 0 (unat (n - iob_len b)) m1)
     else (b1, m1)) = (b', m')"
    unfolding r [symmetric] by (simp add: iob_pad_def Let_def bb len1 m1_def L_def)
  have m1: "m1 a = (if within (ihead b) L a then m (idata b + (a - ihead b)) else m a)" for a
    unfolding m1_def using u L_def by (intro memmove_apply) auto
  have c1: "iob_content m1 b1 = iob_content m b"
    unfolding iob_content_def len1 L_def [symmetric]
    using u L_def by (intro area_eqI) (simp add: m1 b1_def within_of_nat)
  show ?thesis
  proof (cases "L < unat n")
    case False
    then have "b' = b1" "m' = m1" using r1 sint_pos_diff [of n "iob_len b"] n l u L_def by (auto split: if_splits)
    then show ?thesis using ok1 c1 False u L_def by (auto simp: m1 b1_def within_def)
  next
    case True
    define P where "P = n - iob_len b"
    have P: "unat P = unat n - L" unfolding P_def L_def using True L_def by (intro unat_sub_le) simp
    have put: "iob_put P b1 = (itail b1, b1\<lparr>itail := itail b1 + P\<rparr>)" by (simp add: iob_put_def)
    have e: "b' = b1\<lparr>itail := itail b1 + P\<rparr>" "m' = memset (itail b1) 0 (unat P) m1"
      using r1 sint_pos_diff [of n "iob_len b"] n l u L_def True put by (auto simp: P_def split: if_splits)
    note u1 = iob_units [OF ok1]
    have tl: "unat (itail b1) = unat (ihead b) + L" using t by (simp add: b1_def)
    have w: "unat (itail b1) + unat P \<le> unat (iend b)" using P n tl True by linarith
    have "iend b1 = iend b" by (simp add: b1_def)
    then have room: "unat P \<le> unat (iob_tailroom b1)" using w u1(3) by simp
    note v = iob_put_view [OF ok1 room put, of m']
    have m': "m' a = (if within (itail b1) (unat P) a then 0 else m1 a)" for a
      unfolding e(2) using w u by (intro memset_apply) linarith
    have z: "area m' (itail b1) (unat P) = replicate (unat P) 0"
      unfolding area_def using w u
      by (intro nth_equalityI) (auto simp: m' within_of_nat)
    have cc: "iob_content m' b1 = iob_content m1 b1"
      unfolding iob_content_def len1 L_def [symmetric]
    proof (rule area_eqI)
      fix i assume "i < L"
      then have "unat (idata b1 + of_nat i) = unat (ihead b) + i"
        using u L_def by (simp add: b1_def unat_plus_of_nat)
      then show "m' (idata b1 + of_nat i) = m1 (idata b1 + of_nat i)"
        using tl \<open>i < L\<close> by (simp add: m' within_def)
    qed
    have "iob_content m' b' = iob_content m b @ replicate (unat n - L) 0"
      using v z cc c1 P room e(1) by (simp add: iob_view_def take_area)
    moreover have "m' a = m a" if "\<not> within (ihead b) (unat (iend b) - unat (ihead b)) a" for a
      using that w tl u L_def by (auto simp: m' m1 within_def)
    ultimately show ?thesis using v e(1) by (simp add: b1_def L_def)
  qed
qed

lemma unat_round4: "unat len + 3 < 2 ^ 32 \<Longrightarrow>
  unat ((len + alignof_io_buffer - 1) AND NOT (alignof_io_buffer - 1) :: u32) = (unat len + 3) div 4 * 4"
proof -
  assume "unat len + 3 < 2 ^ 32"
  then have "unat (len + 3) = unat len + 3" by (intro trans [OF unat_add_nowrap]) simp_all
  moreover have "(len + alignof_io_buffer - 1) AND NOT (alignof_io_buffer - 1) = (len + 3) AND NOT (mask 2)"
    by (simp add: alignof_io_buffer_def mask_eq_exp_minus_1 algebra_simps)
  ultimately show ?thesis by (simp only: unat_and_not_mask) (simp add: minus_mod_eq_div_mult)
qed

lemma flsl_pred:
  assumes "2 \<le> unat n" "unat n \<le> 2 ^ k"
  shows "unat n \<le> 2 ^ flsl (n - 1)" "flsl (n - 1) \<le> k"
proof -
  have u: "unat (n - 1) = unat n - 1" using assms(1) by (subst unat_sub_le) auto
  then have "n - 1 \<noteq> 0" using assms(1) by auto
  note b = flsl_bounds [OF this, unfolded u]
  show "unat n \<le> 2 ^ flsl (n - 1)" using b by linarith
  have "(2 :: nat) ^ (flsl (n - 1) - 1) < 2 ^ k" using b assms by linarith
  then have "flsl (n - 1) - 1 < k" by (rule power_less_imp_less_exp [rotated]) simp
  then show "flsl (n - 1) \<le> k" by simp
qed

lemma malloc_eq:
  "malloc ds sz h = (if sz = 0 then Some (NOWHERE, h) else
     case alloc_memblock ds (sz + 4) 1 0 h of None \<Rightarrow> None
     | Some (p, h) \<Rightarrow> Some (if p = NULL then (NULL, h) else (p + 4, h\<lparr>mem := store32 p (sz + 4) (mem h)\<rparr>)))"
  by (simp add: malloc_def realloc_def autosized_data_offset_def Let_def split: option.splits)

lemma free_eq:
  "p \<noteq> NULL \<Longrightarrow> p \<noteq> NOWHERE \<Longrightarrow> free ds p h = free_memblock (p - 4) (load32 (p - 4) (mem h)) h"
  by (simp add: free_def realloc_def autosized_data_offset_def Let_def split: option.splits)

lemma free_memblock_frame:
  "free_memblock p sz h = Some h' \<Longrightarrow> \<exists>bs n. h' = h\<lparr>free_blocks := bs, freemem := n\<rparr>"
proof (cases "p = NULL")
  case True
  moreover assume "free_memblock p sz h = Some h'"
  ultimately show ?thesis by (intro exI [of _ "free_blocks h"] exI [of _ "freemem h"]) (simp add: free_memblock_def)
qed (auto simp: free_memblock_def Let_def split: option.splits)

lemma free_iob_live:
  assumes "iob_live base lim h p"
  shows "\<exists>h'. free_iob ds p h = Some h' \<and> heap_inv base lim h' \<and> iobs h' = (iobs h)(p := None) \<and>
    heap_free h' = heap_free h \<union> (\<Union>c \<in> set (iob_block p (the (iobs h p))). extent c)"
proof -
  from assms obtain b where b: "iobs h p = Some b" "ownership base lim (h, iob_block p b)" "p \<noteq> NULL" "p \<noteq> NOWHERE"
    "iend b \<noteq> p \<Longrightarrow> load32 (p - 4) (mem h) = 28" by (auto simp: iob_live_def)
  let ?h = "h\<lparr>iobs := (iobs h)(p := None)\<rparr>"
  have o: "ownership base lim (?h, iob_block p b)" "heap_free ?h = heap_free h"
    using b(2) by (simp_all add: ownership_def heap_inv_def heap_free_def)
  show ?thesis
  proof (cases "iend b = p")
    case True
    have "ownership base lim (?h, [] @ (ihead b, iend b - ihead b + 24) # [])"
      using o(1) True by (simp add: iob_block_def)
    from ownership_free [OF this] obtain h' where h': "free_memblock (ihead b) (iend b - ihead b + 24) ?h = Some h'"
      "ownership base lim (h', [])" "heap_free h' = heap_free ?h \<union> extent (ihead b, iend b - ihead b + 24)" by auto
    have "iobs h' = (iobs h)(p := None)" using free_memblock_frame [OF h'(1)] by auto
    then show ?thesis using h' b True o(2)
      by (auto simp: free_iob_def free_dma_def sizeof_io_buffer_def iob_block_def ownership_def)
  next
    case False
    have "ownership base lim (?h, [] @ (ihead b, iend b - ihead b) # [(p - 4, 28)])"
      using o(1) False by (simp add: iob_block_def)
    from ownership_free [OF this] obtain h1 where h1: "free_memblock (ihead b) (iend b - ihead b) ?h = Some h1"
      "ownership base lim (h1, [] @ (p - 4, 28) # [])" "heap_free h1 = heap_free ?h \<union> extent (ihead b, iend b - ihead b)" by auto
    from ownership_free [OF h1(2)] obtain h' where h': "free_memblock (p - 4) 28 h1 = Some h'"
      "ownership base lim (h', [])" "heap_free h' = heap_free h1 \<union> extent (p - 4, 28)" by auto
    have e: "mem h1 = mem h" "iobs h' = (iobs h)(p := None)"
      using free_memblock_frame [OF h1(1)] free_memblock_frame [OF h'(1)] by auto
    have "free ds p h1 = Some h'" using free_eq [OF b(3,4), of ds h1] b(5) False e(1) h'(1) by simp
    then show ?thesis using h1 h' b False e(2) o(2)
      by (auto simp: free_iob_def free_dma_def iob_block_def ownership_def)
  qed
qed

lemma got_alloc:
  assumes "heap_inv base lim h" "alloc_req sz k" "alloc_memblock [] sz (push_bit k 1) off h = Some (p, h')" "p \<noteq> NULL"
  shows "heap_inv base lim h'" "extent (p, sz) \<subseteq> heap_free h" "heap_free h' \<subseteq> heap_free h - extent (p, sz)"
    "owned_ok base lim (heap_free h') (p, sz)" "virt_to_phys (virt_offset h) p AND mask k = off AND mask k"
    "\<exists>bs n. h' = h\<lparr>free_blocks := bs, freemem := n\<rparr>"
proof -
  show "heap_inv base lim h'" "extent (p, sz) \<subseteq> heap_free h" "heap_free h' \<subseteq> heap_free h - extent (p, sz)"
    "owned_ok base lim (heap_free h') (p, sz)"
    using heap_pool.alloc_cases [OF assms(1-3)] assms(4) by blast+
  from alloc_memblock_spec [where P = "heap_inv base lim" and base = base and lim = lim, OF assms(1) discards_keep_Nil _ assms(2-4)]
  obtain h1 where "discarded_to [] h h1" "virt_to_phys (virt_offset h1) p AND mask k = off AND mask k" by blast
  then show "virt_to_phys (virt_offset h) p AND mask k = off AND mask k" by (auto dest: discarded_to_Nil)
  show "\<exists>bs n. h' = h\<lparr>free_blocks := bs, freemem := n\<rparr>"
    using alloc_Nil_cases [OF assms(2,3)] assms(4) by (auto split: option.splits)
qed

lemma alloc_total:
  assumes "heap_inv base lim h" "alloc_req sz k"
  obtains p h' where "alloc_memblock [] sz (push_bit k 1) off h = Some (p, h')"
    "p = NULL \<Longrightarrow> h' = h"
  using heap_pool.alloc_law [OF assms, of off] that by (auto split: if_splits)

lemma ownership_Cons:
  "ownership base lim (h, b # bs) \<longleftrightarrow> owned_ok base lim (heap_free h) b \<and>
     (\<forall>c \<in> set bs. extent b \<inter> extent c = {}) \<and> ownership base lim (h, bs)"
  by (auto simp: ownership_def)

lemma ownership_Nil: "ownership base lim (h, []) \<longleftrightarrow> heap_inv base lim h"
  by (simp add: ownership_def)

text \<open>The buffer with an inline descriptor.\<close>

lemma inline_live:
  assumes inv: "heap_inv base lim h" and req: "alloc_req (n + 24) k" and n: "unat n + 24 < 2 ^ 32"
    and r: "alloc_memblock [] (n + 24) (push_bit k 1) 0 h = Some (d, h1)" "d \<noteq> NULL"
  shows "let h' = populate_descriptor (d + n) d n h1; b = \<lparr>ihead = d, idata = d, itail = d, iend = d + n\<rparr> in
    iobs h' (d + n) = Some b \<and> iob_live base lim h' (d + n) \<and> iob_ok b \<and> unat (iend b) = unat d + unat n \<and>
    iob_bytes (d + n) b \<subseteq> heap_free h \<and> heap_free h' \<subseteq> heap_free h - iob_bytes (d + n) b"
proof -
  note g = got_alloc [OF inv req r]
  let ?b = "\<lparr>ihead = d, idata = d, itail = d, iend = d + n\<rparr>" and ?h = "populate_descriptor (d + n) d n h1"
  have A: "arena base lim" using inv by (simp add: heap_inv_def)
  have n4: "unat (n + 24) = unat n + 24" using n by (intro trans [OF unat_add_nowrap]) simp_all
  have w: "unat d + (unat n + 24) < 2 ^ 32" using owned_nowrap [OF A g(4)] n4 by simp
  then have dn: "unat (d + n) = unat d + unat n" by (intro unat_add_nowrap) simp
  have "unat d \<noteq> 0" using r(2) by (simp add: unat_eq_0)
  then have nn: "d + n \<noteq> NULL" using dn by (metis add_is_0 unat_0)
  have nw: "d + n \<noteq> NOWHERE"
  proof
    assume "d + n = NOWHERE"
    then have "unat (d + n) = unat NOWHERE" by (simp only:)
    then show False using dn w by (simp add: NOWHERE_def unsigned_minus_1_eq_mask mask_eq_exp_minus_1)
  qed
  have f: "heap_free ?h = heap_free h1" "heap_inv base lim ?h" "iobs ?h (d + n) = Some ?b"
    using g(1) by (simp_all add: populate_descriptor_def heap_free_def heap_inv_def)
  have bl: "iob_block (d + n) ?b = [(d, n + 24)]" by (simp add: iob_block_def)
  have "iob_live base lim ?h (d + n)"
    using nn nw f g(4) bl by (auto simp: iob_live_def ownership_Cons ownership_Nil)
  moreover have "iob_ok ?b" using dn by (intro iob_okI) simp_all
  ultimately show ?thesis using f g dn bl by (simp add: Let_def iob_bytes_def)
qed

text \<open>The buffer with a separate descriptor.\<close>

lemma detached_live:
  assumes inv: "heap_inv base lim h" and req: "alloc_req n k"
    and r: "alloc_memblock [] n (push_bit k 1) 0 h = Some (d, h1)" "d \<noteq> NULL"
    and r2: "alloc_memblock [] 28 1 0 h1 = Some (q, h2)" "q \<noteq> NULL"
  shows "let h' = populate_descriptor (q + 4) d n (h2\<lparr>mem := store32 q 28 (mem h2)\<rparr>);
      b = \<lparr>ihead = d, idata = d, itail = d, iend = d + n\<rparr> in
    iobs h' (q + 4) = Some b \<and> iob_live base lim h' (q + 4) \<and> iob_ok b \<and> unat (iend b) = unat d + unat n \<and>
    iob_bytes (q + 4) b \<subseteq> heap_free h \<and> heap_free h' \<subseteq> heap_free h - iob_bytes (q + 4) b"
proof -
  note g = got_alloc [OF inv req r]
  have req2: "alloc_req 28 0" by (simp add: alloc_req_def)
  note g2 = got_alloc [OF g(1) req2 r2(1) [unfolded alloc_one] r2(2)]
  note tw = heap_pool.alloc_twice [OF inv req r req2 r2(1) [unfolded alloc_one] r2(2)]
  let ?b = "\<lparr>ihead = d, idata = d, itail = d, iend = d + n\<rparr>"
  let ?h = "populate_descriptor (q + 4) d n (h2\<lparr>mem := store32 q 28 (mem h2)\<rparr>)"
  have A: "arena base lim" using inv by (simp add: heap_inv_def)
  have "unat d + unat n < 2 ^ 32" using owned_nowrap [OF A g(4)] .
  then have dn: "unat (d + n) = unat d + unat n" by (intro unat_add_nowrap) simp
  note qd = owned_data [OF A g2(4), simplified]
  have "iend ?b \<noteq> q + 4"
  proof
    assume "iend ?b = q + 4"
    then have e: "unat d + unat n = unat q + 4" using dn qd(1) by simp
    have "unat d + unat n \<le> unat q \<or> unat q + 28 \<le> unat d"
      using owned_apart [of d n q 28] tw req by (simp add: alloc_req_def)
    then show False using e by linarith
  qed
  then have bl: "iob_block (q + 4) ?b = [(d, n), (q, 28)]" by (simp add: iob_block_def)
  have f: "heap_free ?h = heap_free h2" "heap_inv base lim ?h" "iobs ?h (q + 4) = Some ?b" "load32 q (mem ?h) = 28"
    using g2(1) by (simp_all add: populate_descriptor_def heap_free_def heap_inv_def load_store32)
  have "iob_live base lim ?h (q + 4)"
    using qd f tw bl by (auto simp: iob_live_def ownership_Cons ownership_Nil)
  moreover have "iob_ok ?b" using dn by (intro iob_okI) simp_all
  moreover have "iob_bytes (q + 4) ?b = extent (d, n) \<union> extent (q, 28)" using bl by (simp add: iob_bytes_def)
  ultimately show ?thesis using f g(2,3) g2(2,3) dn by (auto simp: Let_def)
qed

lemma alloc_iob_spec:
  assumes inv: "heap_inv base lim h" and len: "unat len \<le> 2 ^ 28"
  shows "\<exists>p h'. alloc_iob [] len h = Some (p, h') \<and> heap_inv base lim h' \<and>
    (p \<noteq> NULL \<longrightarrow> (\<exists>b k. iobs h' p = Some b \<and> iob_live base lim h' p \<and> iob_ok b \<and>
       idata b = ihead b \<and> itail b = ihead b \<and> max (unat len) 64 \<le> unat (iend b) - unat (ihead b) \<and>
       unat len \<le> 2 ^ k \<and> virt_to_phys (virt_offset h) (ihead b) AND mask k = 0 \<and>
       iob_bytes p b \<subseteq> heap_free h \<and> heap_free h' \<subseteq> heap_free h - iob_bytes p b))"
proof -
  define N where "N = (if len < IOB_ZLEN then IOB_ZLEN else len)"
  have N: "unat N = max (unat len) 64" by (auto simp: N_def IOB_ZLEN_def word_less_nat_alt)
  have N2: "2 \<le> unat N" "unat N \<le> 2 ^ 28" "64 \<le> unat N" using N len by auto
  define k where "k = flsl (N - 1)"
  have k: "unat N \<le> 2 ^ k" "k \<le> 28" unfolding k_def using flsl_pred [OF N2(1,2)] by auto
  define n where "n = ((N + alignof_io_buffer - 1) AND NOT (alignof_io_buffer - 1) :: u32)"
  have "unat n = (unat N + 3) div 4 * 4" unfolding n_def using N2 by (intro unat_round4) simp
  then have n: "unat N \<le> unat n" "unat n < unat N + 4" by presburger+
  have e: "alloc_iob [] len h = (if n + 24 \<le> push_bit k 1 then
           case alloc_memblock [] (n + 24) (push_bit k 1) 0 h of
             None \<Rightarrow> None
           | Some (data, h) \<Rightarrow>
               if data = NULL then Some (NULL, h)
               else Some (data + n, populate_descriptor (data + n) data n h)
         else
           case alloc_memblock [] n (push_bit k 1) 0 h of
             None \<Rightarrow> None
           | Some (data, h) \<Rightarrow>
               if data = NULL then Some (NULL, h)
               else case malloc [] 24 h of
                 None \<Rightarrow> None
               | Some (iobuf, h) \<Rightarrow>
                   if iobuf = NULL then map_option (Pair NULL) (free_memblock data n h)
                   else Some (iobuf, populate_descriptor iobuf data n h))"
    unfolding alloc_iob_def N_def [symmetric] Let_def alloc_iob_raw_def n_def [symmetric] k_def [symmetric]
      malloc_dma_offset_def free_dma_def sizeof_io_buffer_def ..
  show ?thesis
  proof (cases "n + 24 \<le> push_bit k 1")
    case True
    have n24: "unat (n + 24) = unat n + 24" using n N2 by (intro trans [OF unat_add_nowrap]) simp_all
    have req: "alloc_req (n + 24) k" using k n n24 N2 by (simp add: alloc_req_def)
    obtain d h1 where r: "alloc_memblock [] (n + 24) (push_bit k 1) 0 h = Some (d, h1)" "d = NULL \<Longrightarrow> h1 = h"
      using alloc_total [OF inv req] by blast
    show ?thesis
    proof (cases "d = NULL")
      case True
      then show ?thesis using e r inv \<open>n + 24 \<le> _\<close> by simp
    next
      case False
      have "unat n + 24 < 2 ^ 32" using n N2 by simp
      note L = inline_live [OF inv req this r(1) False, unfolded Let_def]
      let ?h = "populate_descriptor (d + n) d n h1"
      have "alloc_iob [] len h = Some (d + n, ?h)" using e r False True by simp
      moreover have "heap_inv base lim ?h" using L by (auto simp: iob_live_def ownership_def)
      moreover have "virt_to_phys (virt_offset h) d AND mask k = 0"
        using got_alloc(5) [OF inv req r(1) False] by simp
      ultimately show ?thesis using L k(1) n N by (intro exI [of _ "d + n"] exI [of _ ?h]) auto
    qed
  next
    case F: False
    have req: "alloc_req n k" using k n N2 by (simp add: alloc_req_def)
    obtain d h1 where r: "alloc_memblock [] n (push_bit k 1) 0 h = Some (d, h1)" "d = NULL \<Longrightarrow> h1 = h"
      using alloc_total [OF inv req] by blast
    show ?thesis
    proof (cases "d = NULL")
      case True
      then show ?thesis using e r inv F by simp
    next
      case d: False
      note g = got_alloc [OF inv req r(1) d]
      have "alloc_req 28 0" by (simp add: alloc_req_def)
      from alloc_total [OF g(1) this, of 0] obtain q h2 where
        r2: "alloc_memblock [] 28 1 0 h1 = Some (q, h2)" "q = NULL \<Longrightarrow> h2 = h1" unfolding alloc_one by blast
      show ?thesis
      proof (cases "q = NULL")
        case True
        then have m: "malloc [] 24 h1 = Some (NULL, h1)" using r2 by (simp add: malloc_eq)
        from heap_pool.alloc_release [OF inv req r(1) d] obtain h3 where
          "free_memblock d n h1 = Some h3" "heap_inv base lim h3" by blast
        then show ?thesis using e r(1) d F m by simp
      next
        case q: False
        have A: "arena base lim" using inv by (simp add: heap_inv_def)
        note D = detached_live [OF inv req r(1) d r2(1) q, unfolded Let_def]
        let ?h = "populate_descriptor (q + 4) d n (h2\<lparr>mem := store32 q 28 (mem h2)\<rparr>)"
        have m: "malloc [] 24 h1 = Some (q + 4, h2\<lparr>mem := store32 q 28 (mem h2)\<rparr>)"
          using r2 q by (simp add: malloc_eq)
        have "q + 4 \<noteq> NULL" using D by (auto simp: iob_live_def)
        then have "alloc_iob [] len h = Some (q + 4, ?h)" using e r(1) d F m by simp
        moreover have "heap_inv base lim ?h" using D by (auto simp: iob_live_def ownership_def)
        moreover have "virt_to_phys (virt_offset h) d AND mask k = 0" using g(5) by simp
        ultimately show ?thesis using D k(1) n N by (intro exI [of _ "q + 4"] exI [of _ ?h]) auto
      qed
    qed
  qed
qed

section \<open>Properties\<close>

definition small_iob :: io_buffer where
  "small_iob = \<lparr>ihead = 100, idata = 110, itail = 120, iend = 200\<rparr>"

text \<open>Alloc_iob() always returns; it returns NULL, or a live empty buffer of at least the requested
  length (and at least 64 bytes), physically aligned to a power of two that is no smaller than the
  length, whose data area and descriptor are separate memory that was free before and is not free
  any more.  free_iob() on that buffer then succeeds and gives exactly this memory back.\<close>

theorem alloc_free_iob:
  assumes "heap_inv base lim h" and "unat len \<le> 2 ^ 28"
  shows "\<exists>p h'. alloc_iob [] len h = Some (p, h') \<and> heap_inv base lim h' \<and>
    (p \<noteq> NULL \<longrightarrow> (\<exists>b k h''. iobs h' p = Some b \<and> iob_ok b \<and> idata b = ihead b \<and> itail b = ihead b \<and>
       max (unat len) 64 \<le> unat (iend b) - unat (ihead b) \<and>
       unat len \<le> 2 ^ k \<and> virt_to_phys (virt_offset h) (ihead b) AND mask k = 0 \<and>
       iob_bytes p b \<subseteq> heap_free h \<and> heap_free h' \<subseteq> heap_free h - iob_bytes p b \<and>
       free_iob [] p h' = Some h'' \<and> heap_inv base lim h'' \<and>
       heap_free h'' = heap_free h' \<union> iob_bytes p b \<and> iobs h'' p = None))"
proof -
  from alloc_iob_spec [OF assms] obtain p h' where a: "alloc_iob [] len h = Some (p, h')" "heap_inv base lim h'"
    and s: "p \<noteq> NULL \<longrightarrow> (\<exists>b k. iobs h' p = Some b \<and> iob_live base lim h' p \<and> iob_ok b \<and>
       idata b = ihead b \<and> itail b = ihead b \<and> max (unat len) 64 \<le> unat (iend b) - unat (ihead b) \<and>
       unat len \<le> 2 ^ k \<and> virt_to_phys (virt_offset h) (ihead b) AND mask k = 0 \<and>
       iob_bytes p b \<subseteq> heap_free h \<and> heap_free h' \<subseteq> heap_free h - iob_bytes p b)" by blast
  have f: "\<exists>h''. free_iob [] p h' = Some h'' \<and> heap_inv base lim h'' \<and>
       heap_free h'' = heap_free h' \<union> iob_bytes p b \<and> iobs h'' p = None"
    if "iob_live base lim h' p" "iobs h' p = Some b" for b
    using free_iob_live [OF that(1), of "[]"] that(2) by (auto simp: iob_bytes_def)
  show ?thesis using a s f by blast
qed

theorem alloc_free_iob_witness:
  "\<exists>p h'. alloc_iob [] 1500 (heap.extend start_heap \<lparr>iobs = (\<lambda>_. None)\<rparr>) = Some (p, h')"
proof -
  have "heap_inv 0x100000 (0x100000 + unat HEAP_SIZE) (heap.extend start_heap \<lparr>iobs = (\<lambda>_. None)\<rparr>)"
    using start_heap_inv by (simp add: heap_inv_def heap.defs)
  from alloc_free_iob [OF this, of 1500] show ?thesis by auto
qed

text \<open>C38: a buffer with its headroom and tailroom is a zipper over the bytes of the buffer: iob_put()
  moves bytes from the tailroom to the end of the data, iob_unput() moves them back, iob_pull() moves
  bytes from the start of the data to the headroom, iob_push() moves them back; memory is not touched
  and a well-formed buffer stays well-formed.\<close>

theorem iob_ops_refine:
  assumes "iob_ok b" and "iob_view m b = (pre, d, post)"
  shows
    "(unat n \<le> length post \<longrightarrow> iob_ok (snd (iob_put n b)) \<and>
       iob_view m (snd (iob_put n b)) = (pre, d @ take (unat n) post, drop (unat n) post)) \<and>
     (unat n \<le> length d \<longrightarrow> iob_ok (iob_unput n b) \<and>
       iob_view m (iob_unput n b) = (pre, take (length d - unat n) d, drop (length d - unat n) d @ post)) \<and>
     (unat n \<le> length d \<longrightarrow> iob_ok (snd (iob_pull n b)) \<and>
       iob_view m (snd (iob_pull n b)) = (pre @ take (unat n) d, drop (unat n) d, post)) \<and>
     (unat n \<le> length pre \<longrightarrow> iob_ok (snd (iob_push n b)) \<and>
       iob_view m (snd (iob_push n b)) = (take (length pre - unat n) pre, drop (length pre - unat n) pre @ d, post))"
proof -
  have l: "length pre = unat (iob_headroom b)" "length d = unat (iob_len b)" "length post = unat (iob_tailroom b)"
    using assms(2) by (auto simp: iob_view_def iob_content_def)
  show ?thesis
    using iob_put_view [OF assms(1) _ prod.collapse [symmetric], of n m]
      iob_unput_view [OF assms(1), of n m] iob_pull_view [OF assms(1) _ prod.collapse [symmetric], of n m]
      iob_push_view [OF assms(1) _ prod.collapse [symmetric], of n m]
    by (simp add: assms(2) l)
qed

theorem iob_ops_refine_witness:
  "iob_content (\<lambda>a. ucast a) (snd (iob_pull 8 small_iob)) = [118, 119]"
proof -
  have ok: "iob_ok small_iob" by (simp add: iob_ok_def small_iob_def)
  obtain pre d post where v: "iob_view (\<lambda>a. ucast a) small_iob = (pre, d, post)"
    by (cases "iob_view (\<lambda>a. ucast a) small_iob")
  then have d: "d = [110, 111, 112, 113, 114, 115, 116, 117, 118, 119]"
    by (simp add: iob_view_def iob_content_def small_iob_def iob_len_def area_def upt_rec)
  from iob_ops_refine [OF ok v, of 8] show ?thesis by (simp add: d iob_view_def)
qed

text \<open>Iob_pad() moves the data to the start of the buffer and appends zero bytes up to the minimum
  length, without losing a byte and without writing outside the buffer.\<close>

theorem iob_pad_correct:
  assumes "iob_ok b" and "unat (iend b) - unat (ihead b) < 2 ^ 31"
    and "unat n \<le> unat (iend b) - unat (ihead b)" and "iob_pad n b m = (b', m')"
  shows "iob_ok b' \<and> idata b' = ihead b \<and> ihead b' = ihead b \<and> iend b' = iend b \<and>
    iob_content m' b' = iob_content m b @ replicate (unat n - unat (iob_len b)) 0 \<and>
    (\<forall>a. \<not> within (ihead b) (unat (iend b) - unat (ihead b)) a \<longrightarrow> m' a = m a)"
  using iob_pad_spec [OF assms] by blast

theorem iob_pad_correct_witness:
  "\<exists>b' m'. iob_pad 12 small_iob (\<lambda>a. ucast a) = (b', m') \<and>
     iob_content m' b' = [110, 111, 112, 113, 114, 115, 116, 117, 118, 119, 0, 0]"
proof -
  obtain b' m' where r: "iob_pad 12 small_iob (\<lambda>a. ucast a) = (b', m')"
    by (cases "iob_pad 12 small_iob (\<lambda>a. ucast a)")
  have ok: "iob_ok small_iob" by (simp add: iob_ok_def small_iob_def)
  have l: "unat (iob_len small_iob) = 10" by (simp add: iob_len_def small_iob_def)
  have d: "iob_content (\<lambda>a. ucast a) small_iob = [110, 111, 112, 113, 114, 115, 116, 117, 118, 119]"
    by (simp add: iob_content_def small_iob_def iob_len_def area_def upt_rec)
  have "iob_content m' b' = iob_content (\<lambda>a. ucast a) small_iob @ replicate 2 0"
    using iob_pad_correct [OF ok _ _ r] l by (simp add: small_iob_def)
  then show ?thesis using r d by (simp add: numeral_2_eq_2)
qed

end
