(* ===== verification/Byteorder.thy ===== *)
theory Byteorder
  imports Prelude
begin

text \<open>
  Byte swapping (\<open>src/src/include/byteswap.h\<close>) and the order of bytes on the wire.  On the
  little-endian machine of the model \<open>htons\<close>, \<open>htonl\<close> and their inverses are the swaps
  (\<open>src/src/include/little_bswap.h\<close>), and a field of a packed structure is stored least significant
  byte first.
\<close>

type_synonym u16 = "16 word"
type_synonym u64 = "64 word"

definition bswap_16 :: "u16 \<Rightarrow> u16" where
  "bswap_16 x = push_bit 8 (x AND 0x00ff) OR drop_bit 8 (x AND 0xff00)"

definition bswap_32 :: "u32 \<Rightarrow> u32" where
  "bswap_32 x = push_bit 24 (x AND 0x000000ff) OR push_bit 8 (x AND 0x0000ff00) OR
     drop_bit 8 (x AND 0x00ff0000) OR drop_bit 24 (x AND 0xff000000)"

definition bswap_64 :: "u64 \<Rightarrow> u64" where
  "bswap_64 x = push_bit 56 (x AND 0x00000000000000ff) OR push_bit 40 (x AND 0x000000000000ff00) OR
     push_bit 24 (x AND 0x0000000000ff0000) OR push_bit 8 (x AND 0x00000000ff000000) OR
     drop_bit 8 (x AND 0x000000ff00000000) OR drop_bit 24 (x AND 0x0000ff0000000000) OR
     drop_bit 40 (x AND 0x00ff000000000000) OR drop_bit 56 (x AND 0xff00000000000000)"

definition htons :: "u16 \<Rightarrow> u16" where "htons x = bswap_16 x"
definition ntohs :: "u16 \<Rightarrow> u16" where "ntohs x = bswap_16 x"
definition htonl :: "u32 \<Rightarrow> u32" where "htonl x = bswap_32 x"
definition ntohl :: "u32 \<Rightarrow> u32" where "ntohl x = bswap_32 x"

text \<open>Bytes of a stored field, lowest address first.\<close>

definition stored16 :: "u16 \<Rightarrow> byte list" where
  "stored16 x = [ucast x, ucast (drop_bit 8 x)]"

definition stored32 :: "u32 \<Rightarrow> byte list" where
  "stored32 x = [ucast x, ucast (drop_bit 8 x), ucast (drop_bit 16 x), ucast (drop_bit 24 x)]"

text \<open>Fields in network byte order.\<close>

definition put_be16 :: "u16 \<Rightarrow> byte list" where
  "put_be16 x = [ucast (drop_bit 8 x), ucast x]"

definition put_be32 :: "u32 \<Rightarrow> byte list" where
  "put_be32 x = [ucast (drop_bit 24 x), ucast (drop_bit 16 x), ucast (drop_bit 8 x), ucast x]"

definition be16_of :: "byte \<Rightarrow> byte \<Rightarrow> u16" where
  "be16_of a b = push_bit 8 (ucast a) OR ucast b"

definition be32_of :: "byte \<Rightarrow> byte \<Rightarrow> byte \<Rightarrow> byte \<Rightarrow> u32" where
  "be32_of a b c d = push_bit 24 (ucast a) OR push_bit 16 (ucast b) OR push_bit 8 (ucast c) OR ucast d"

section \<open>Lemmas\<close>

lemma masks16: "(0xff00 :: u16) = push_bit 8 (mask 8)" "(0xff :: u16) = mask 8"
  by (simp_all add: mask_eq_exp_minus_1)

lemma masks32: "(0xff :: u32) = mask 8" "(0xff00 :: u32) = push_bit 8 (mask 8)"
  "(0xff0000 :: u32) = push_bit 16 (mask 8)" "(0xff000000 :: u32) = push_bit 24 (mask 8)"
  by (simp_all add: mask_eq_exp_minus_1)

lemma masks64: "(0xff :: u64) = mask 8" "(0xff00 :: u64) = push_bit 8 (mask 8)"
  "(0xff0000 :: u64) = push_bit 16 (mask 8)" "(0xff000000 :: u64) = push_bit 24 (mask 8)"
  "(0xff00000000 :: u64) = push_bit 32 (mask 8)" "(0xff0000000000 :: u64) = push_bit 40 (mask 8)"
  "(0xff000000000000 :: u64) = push_bit 48 (mask 8)" "(0xff00000000000000 :: u64) = push_bit 56 (mask 8)"
  by (simp_all add: mask_eq_exp_minus_1)

lemma bit_bswap_16: "n < 16 \<Longrightarrow> bit (bswap_16 x) n = bit x (if n < 8 then 8 + n else n - 8)"
  by (auto simp: bswap_16_def masks16 bit_simps)

lemma bit_bswap_32: "n < 32 \<Longrightarrow> bit (bswap_32 x) n =
  bit x (if n < 8 then 24 + n else if n < 16 then 8 + n else if n < 24 then n - 8 else n - 24)"
  by (auto simp: bswap_32_def masks32 bit_simps)

lemma bswap_16_16: "bswap_16 (bswap_16 x) = x"
  by (rule bit_word_eqI) (auto simp: bit_bswap_16)

lemma bswap_32_32: "bswap_32 (bswap_32 x) = x"
  by (rule bit_word_eqI) (auto simp: bit_bswap_32)

lemma bit_bswap_64: "n < 64 \<Longrightarrow> bit (bswap_64 x) n =
  bit x (if n < 8 then 56 + n else if n < 16 then 40 + n else if n < 24 then 24 + n else if n < 32 then 8 + n
    else if n < 40 then n - 8 else if n < 48 then n - 24 else if n < 56 then n - 40 else n - 56)"
  by (auto simp: bswap_64_def masks64 bit_simps)

lemma bswap_64_64: "bswap_64 (bswap_64 x) = x"
  by (rule bit_word_eqI) (auto simp: bit_bswap_64)

lemma stored16_htons: "stored16 (htons x) = put_be16 x"
  by (auto simp: stored16_def put_be16_def htons_def intro!: bit_word_eqI simp: bit_simps bit_bswap_16)

lemma stored32_htonl: "stored32 (htonl x) = put_be32 x"
  by (auto simp: stored32_def put_be32_def htonl_def intro!: bit_word_eqI simp: bit_simps bit_bswap_32)

lemma be16_of_put: "put_be16 x = [a, b] \<Longrightarrow> be16_of a b = x"
  by (auto simp: put_be16_def be16_of_def bit_simps intro!: bit_word_eqI)

lemma be32_of_put: "put_be32 x = [a, b, c, d] \<Longrightarrow> be32_of a b c d = x"
proof -
  assume "put_be32 x = [a, b, c, d]"
  then have e: "a = ucast (drop_bit 24 x)" "b = ucast (drop_bit 16 x)" "c = ucast (drop_bit 8 x)" "d = ucast x"
    by (simp_all add: put_be32_def)
  show ?thesis
  proof (rule bit_word_eqI)
    fix n :: nat
    assume "n < LENGTH(32)"
    then consider "n < 8" | "8 \<le> n" "n < 16" | "16 \<le> n" "n < 24" | "24 \<le> n" "n < 32" by force
    then show "bit (be32_of a b c d) n = bit x n"
      by cases (auto simp: e be32_of_def bit_simps)
  qed
qed

section \<open>Properties\<close>

text \<open>The conversions between host and network order are involutions, and a field stored after
  the conversion has its most significant byte first in memory.\<close>

theorem network_byte_order:
  "ntohs (htons x) = x \<and> ntohl (htonl y) = y \<and> bswap_64 (bswap_64 z) = z \<and>
   stored16 (htons x) = put_be16 x \<and> stored32 (htonl y) = put_be32 y"
  using stored16_htons stored32_htonl bswap_64_64
  by (simp add: bswap_16_16 bswap_32_32 ntohs_def htons_def ntohl_def htonl_def)

end
