(* ===== verification/Tcpip.thy ===== *)
theory Tcpip
  imports Iobuf Byteorder
begin

text \<open>
  The transport-layer dispatch and the Internet checksum of \<open>src/src/net/tcpip.c\<close>.  The protocol tables
  are linker tables, given as lists of handlers; a handler works on the state that holds the I/O
  buffers.  The checksum is the portable C routine; the assembler routine that replaces it on x86 is
  not modelled.
\<close>

section \<open>Dispatch\<close>

type_synonym 'a rx_handler = "ptr \<Rightarrow> 'a iob_heap_scheme \<Rightarrow> (rc \<times> 'a iob_heap_scheme) option"

fun tcpip_rx :: "'a iob_heap_ext discarder list \<Rightarrow> (byte \<times> 'a rx_handler) list \<Rightarrow> ptr \<Rightarrow> byte \<Rightarrow>
    'a iob_heap_scheme \<Rightarrow> (rc \<times> 'a iob_heap_scheme) option" where
  "tcpip_rx ds [] iobuf tcpip_proto h = map_option (Pair (Some EPROTONOSUPPORT)) (free_iob ds iobuf h)"
| "tcpip_rx ds ((proto, rx) # tcpips) iobuf tcpip_proto h =
     (if proto = tcpip_proto then rx iobuf h else tcpip_rx ds tcpips iobuf tcpip_proto h)"

fun tcpip_tx :: "'a iob_heap_ext discarder list \<Rightarrow> (u16 \<times> 'a rx_handler) list \<Rightarrow> ptr \<Rightarrow> u16 \<Rightarrow>
    'a iob_heap_scheme \<Rightarrow> (rc \<times> 'a iob_heap_scheme) option" where
  "tcpip_tx ds [] iobuf st_family h = map_option (Pair (Some EAFNOSUPPORT)) (free_iob ds iobuf h)"
| "tcpip_tx ds ((sa_family, tx) # tcpip_nets) iobuf st_family h =
     (if sa_family = st_family then tx iobuf h else tcpip_tx ds tcpip_nets iobuf st_family h)"

section \<open>Checksum\<close>

definition TCPIP_EMPTY_CSUM :: u16 where
  "TCPIP_EMPTY_CSUM = 0xffff"

fun chksum_loop :: "u32 \<Rightarrow> u32 \<Rightarrow> byte list \<Rightarrow> u32" where
  "chksum_loop i cksum [] = cksum"
| "chksum_loop i cksum (d # data) =
     (let value = ucast d;
          value = (if i AND 1 \<noteq> 0 then ucast (bswap_16 (ucast value)) else value);
          cksum = cksum + value;
          cksum = (if cksum > 0xffff then cksum - 0xffff else cksum)
      in chksum_loop (i + 1) cksum data)"

definition tcpip_continue_chksum :: "u16 \<Rightarrow> byte list \<Rightarrow> u16" where
  "tcpip_continue_chksum partial data = ucast (NOT (chksum_loop 0 (NOT (ucast partial) AND 0xffff) data))"

definition tcpip_chksum :: "byte list \<Rightarrow> u16" where
  "tcpip_chksum data = tcpip_continue_chksum TCPIP_EMPTY_CSUM data"

section \<open>Reference\<close>

text \<open>The ones-complement sum of RFC 1071: the sum of the 16-bit words (least significant byte first,
  an odd last byte padded with zero), with end-around carry.\<close>

fun word_sum :: "byte list \<Rightarrow> nat" where
  "word_sum [] = 0"
| "word_sum [a] = unat a"
| "word_sum (a # b # ds) = unat a + 256 * unat b + word_sum ds"

definition ones_sum :: "nat \<Rightarrow> nat" where
  "ones_sum s = (if s = 0 then 0 else (s - 1) mod 65535 + 1)"


section \<open>Lemmas\<close>

lemma unat_push8: "unat (push_bit 8 (ucast (d :: byte)) :: u16) = 256 * unat d"
proof -
  have b: "unat d < 256" using unsigned_less [of d] by simp
  have u: "unat (ucast d :: u16) = unat d" using b by (simp add: unsigned_ucast_eq take_bit_eq_mod)
  have "unat (push_bit 8 (ucast d) :: u16) = push_bit 8 (unat (ucast d :: u16)) mod 2 ^ 16"
    by (simp add: push_bit_eq_mult unat_word_ariths)
  then show ?thesis using b u by (simp add: push_bit_eq_mult)
qed

lemma swapped_byte: "unat (ucast (bswap_16 (ucast (ucast d :: u32))) :: u32) = 256 * unat (d :: byte)"
proof -
  have "bswap_16 (ucast (ucast d :: u32)) = push_bit 8 (ucast d)"
    by (rule bit_word_eqI) (auto simp: bit_bswap_16 bit_simps dest: bit_imp_le_length)
  moreover have "unat d < 256" using unsigned_less [of d] by simp
  ultimately show ?thesis by (simp add: unsigned_ucast_eq unat_push8 take_bit_eq_mod)
qed

lemma plain_byte: "unat (ucast d :: u32) = unat (d :: byte)" "unat d < 256"
proof -
  show b: "unat d < 256" using unsigned_less [of d] by simp
  show "unat (ucast d :: u32) = unat d" using b by (simp add: unsigned_ucast_eq take_bit_eq_mod)
qed

lemma ones_sum_id: "s \<le> 65535 \<Longrightarrow> ones_sum s = s"
  by (simp add: ones_sum_def)

lemma ones_sum_le: "ones_sum s \<le> 65535"
proof -
  have "(s - 1) mod 65535 < 65535" by simp
  then show ?thesis unfolding ones_sum_def by simp linarith
qed

lemma ones_sum_add: "ones_sum (s + v) = (if ones_sum s + v > 65535 then ones_sum s + v - 65535 else ones_sum s + v)" if "v \<le> 65535"
proof (cases "s = 0")
  case True
  then show ?thesis using that ones_sum_id [of v] by (simp add: ones_sum_def)
next
  case False
  define r where "r = (s - Suc 0) mod 65535"
  have r: "r < 65535" "(s - Suc 0 + v) mod 65535 = (r + v) mod 65535" by (simp_all add: r_def mod_add_left_eq)
  have "(r + v) mod 65535 = (if r + v < 65535 then r + v else r + v - 65535)"
  proof (cases "r + v < 65535")
    case False
    then have "(r + v) mod 65535 = (r + v - 65535) mod 65535" by (simp add: le_mod_geq)
    then show ?thesis using False r that by simp
  qed simp
  then show ?thesis using False r(2) by (auto simp: ones_sum_def r_def [symmetric])
qed

lemma cksum_step:
  fixes c v :: u32
  assumes "unat c = ones_sum s" "unat v \<le> 65535"
  shows "unat (if c + v > 0xffff then c + v - 0xffff else c + v) = ones_sum (s + unat v)"
proof -
  have cv: "unat (c + v) = unat c + unat v" using assms ones_sum_le [of s] by (intro unat_add_nowrap) simp
  have "unat (c + v - 0xffff) = unat (c + v) - 65535" if "c + v > 0xffff"
    using that by (subst unat_sub_le) (simp_all add: word_less_nat_alt)
  then show ?thesis using ones_sum_add [OF assms(2), of s] cv assms(1) by (simp add: word_less_nat_alt)
qed

lemma odd_word: "(i :: u32) AND 1 \<noteq> 0 \<longleftrightarrow> odd i"
  by (simp add: and_one_eq odd_iff_mod_2_eq_one)

lemma chksum_loop_sum:
  "even i \<Longrightarrow> unat c = ones_sum s \<Longrightarrow> unat (chksum_loop i c ds) = ones_sum (s + word_sum ds)"
proof (induction ds arbitrary: i c s rule: word_sum.induct)
  case 1
  then show ?case by simp
next
  case (2 a)
  then show ?case using cksum_step [OF 2(2), of "ucast a"] plain_byte [of a] by (simp add: odd_word Let_def)
next
  case (3 a b ds)
  define c1 where "c1 = (if c + ucast a > 0xffff then c + ucast a - 0xffff else c + ucast a)"
  define v where "v = (ucast (bswap_16 (ucast (ucast b :: u32))) :: u32)"
  define c2 where "c2 = (if c1 + v > 0xffff then c1 + v - 0xffff else c1 + v)"
  have c1: "unat c1 = ones_sum (s + unat a)"
    unfolding c1_def using cksum_step [OF 3(3), of "ucast a"] plain_byte [of a] by simp
  have c2: "unat c2 = ones_sum (s + unat a + 256 * unat b)"
    unfolding c2_def v_def using cksum_step [OF c1, of "ucast (bswap_16 (ucast (ucast b :: u32)))"] swapped_byte [of b] plain_byte(2) [of b] by simp
  have "chksum_loop i c (a # b # ds) = chksum_loop (i + 1 + 1) c2 ds"
    using 3(2) by (simp add: odd_word Let_def c1_def c2_def v_def)
  also have "unat \<dots> = ones_sum (s + unat a + 256 * unat b + word_sum ds)"
    using 3(2) by (intro 3(1) c2) simp
  finally show ?case by (simp add: algebra_simps)
qed

lemma unat_not16: "unat (NOT (p :: u16)) = 65535 - unat p"
proof -
  have "NOT p = 0xffff - p" by (simp add: not_eq_complement)
  moreover have "p \<le> 0xffff"
    unfolding word_le_nat_alt using unsigned_less [of p, where 'a = nat] by simp
  ultimately show ?thesis by (simp add: unat_sub)
qed

lemma chksum_init: "unat (NOT (ucast p) AND 0xffff :: u32) = 65535 - unat (p :: u16)"
proof -
  have m: "(0xffff :: u32) = mask 16" by (simp add: mask_eq_exp_minus_1)
  have "(NOT (ucast p) AND 0xffff :: u32) = ucast (NOT p)"
    unfolding m by (rule bit_word_eqI) (auto simp: bit_simps)
  then show ?thesis using unat_not16 [of p] by (simp add: unsigned_ucast_eq take_bit_eq_mod)
qed

lemma chksum_final: "unat c \<le> 65535 \<Longrightarrow> unat (ucast (NOT (c :: u32)) :: u16) = 65535 - unat c"
proof -
  assume c: "unat c \<le> 65535"
  have "(ucast (NOT c) :: u16) = NOT (ucast c)" by (rule bit_word_eqI) (auto simp: bit_simps)
  then show ?thesis using unat_not16 [of "ucast c"] c by (simp add: unsigned_ucast_eq take_bit_eq_mod)
qed

lemma continue_chksum_sum:
  "unat (tcpip_continue_chksum p ds) = 65535 - ones_sum (65535 - unat p + word_sum ds)"
proof -
  have i: "unat (NOT (ucast p) AND 0xffff :: u32) = ones_sum (65535 - unat p)"
    by (simp add: chksum_init ones_sum_id)
  have "unat (chksum_loop 0 (NOT (ucast p) AND 0xffff) ds) = ones_sum (65535 - unat p + word_sum ds)"
    by (rule chksum_loop_sum [OF _ i]) simp
  then show ?thesis using ones_sum_le chksum_final unfolding tcpip_continue_chksum_def by simp
qed

lemma word_sum_append: "even (length a) \<Longrightarrow> word_sum (a @ b) = word_sum a + word_sum b"
  by (induction a rule: word_sum.induct) auto

lemma ones_sum_ones: "ones_sum (ones_sum s + t) = ones_sum (s + t)"
proof (cases "s = 0")
  case False
  have "((s - Suc 0) mod 65535 + t) mod 65535 = (s - Suc 0 + t) mod 65535" by (rule mod_add_left_eq)
  then show ?thesis using False by (simp add: ones_sum_def)
qed (simp add: ones_sum_def)

lemma continue_chksum_append:
  "even (length a) \<Longrightarrow> tcpip_continue_chksum (tcpip_continue_chksum p a) b = tcpip_continue_chksum p (a @ b)"
  using ones_sum_le ones_sum_ones
  by (simp add: word_unat_eq_iff continue_chksum_sum word_sum_append add.assoc [symmetric])

lemma ones_sum_multiple: "0 < s \<Longrightarrow> 65535 dvd s \<Longrightarrow> ones_sum s = 65535"
proof -
  assume "0 < s" "65535 dvd s"
  then obtain k where "s = Suc k * 65535" by (metis dvd_def gr0_implies_Suc mult.commute mult_0_right not_gr_zero)
  then have "s - 1 = 65534 + 65535 * k" by simp
  then show ?thesis using \<open>0 < s\<close> by (simp add: ones_sum_def)
qed

lemma ones_sum_cong: "65535 dvd s + (65535 - ones_sum s)"
proof (cases "s = 0")
  case False
  have "s - 1 = 65535 * ((s - 1) div 65535) + (s - 1) mod 65535" by simp
  then have "s + (65535 - ones_sum s) = 65535 * ((s - 1) div 65535) + 65535"
    using False mod_less_divisor [of 65535 "s - 1"] unfolding ones_sum_def by (simp only: if_False) linarith
  then show ?thesis by simp
qed (simp add: ones_sum_def)

lemma word_sum_stored: "word_sum (stored16 c @ b) = unat c + word_sum b"
proof -
  have "unat (ucast c :: byte) = unat c mod 256" by (simp add: unsigned_ucast_eq take_bit_eq_mod)
  moreover have "unat (ucast (drop_bit 8 c) :: byte) = unat c div 256"
  proof -
    have "unat (drop_bit 8 c) = unat c div 256" by (simp only: unat_drop_bit_eq) (simp add: drop_bit_eq_div)
    moreover have "unat c div 256 < 256" using unsigned_less [of c, where 'a = nat] by simp
    ultimately show ?thesis by (simp add: unsigned_ucast_eq take_bit_eq_mod)
  qed
  ultimately show ?thesis by (simp add: stored16_def)
qed

lemma chksum_verify:
  assumes "even (length a)" and c: "c = tcpip_continue_chksum p (a @ [0, 0] @ b)"
  shows "tcpip_continue_chksum p (a @ stored16 c @ b) = 0"
proof -
  define S where "S = 65535 - unat p + (word_sum a + word_sum b)"
  have uc: "unat c = 65535 - ones_sum S"
    unfolding c continue_chksum_sum by (simp add: word_sum_append [OF assms(1)] S_def)
  have "65535 - unat p + word_sum (a @ stored16 c @ b) = S + (65535 - ones_sum S)"
    by (simp add: word_sum_append [OF assms(1)] word_sum_stored uc S_def)
  moreover have "0 < S + (65535 - ones_sum S)" by (cases "S = 0") (simp_all add: ones_sum_def)
  ultimately have "unat (tcpip_continue_chksum p (a @ stored16 c @ b)) = 0"
    by (simp add: continue_chksum_sum ones_sum_multiple ones_sum_cong)
  then show ?thesis by (simp add: unat_eq_0)
qed

lemma continue_chksum_commute:
  "tcpip_continue_chksum (tcpip_continue_chksum p a) b = tcpip_continue_chksum (tcpip_continue_chksum p b) a"
proof -
  have "ones_sum (ones_sum (x + s) + t) = ones_sum (ones_sum (x + t) + s)" for x s t
    unfolding ones_sum_ones by (simp add: algebra_simps)
  then show ?thesis using ones_sum_le by (simp add: word_unat_eq_iff continue_chksum_sum)
qed

section \<open>The checksum as an interface\<close>

text \<open>What the transport protocols rely on: partial checksums can be continued in any order, and a
  checksum stored in its (zero) field makes the checksum of the whole vanish.\<close>

locale internet_checksum =
  fixes cont :: "u16 \<Rightarrow> byte list \<Rightarrow> u16"
  assumes cont_commute: "cont (cont p a) b = cont (cont p b) a"
    and cont_verify: "even (length a) \<Longrightarrow> cont p (a @ stored16 (cont p (a @ [0, 0] @ b)) @ b) = 0"
begin

lemma end_to_end:
  assumes "even (length a)" and "c = cont (cont e (a @ [0, 0] @ b)) ps"
  shows "cont (cont e ps) (a @ stored16 c @ b) = 0"
  using cont_verify [OF assms(1), of "cont e ps" b] assms(2) by (simp add: cont_commute [of e ps])

end

interpretation generic_checksum: internet_checksum tcpip_continue_chksum
  using continue_chksum_commute chksum_verify by unfold_locales auto

section \<open>Properties\<close>

text \<open>C37: the checksum routine computes the complement of the ones-complement sum of RFC 1071 over the
  16-bit words of the data, and checksumming a buffer in two pieces, the first of even length, gives the
  checksum of the whole.\<close>

theorem chksum_reference:
  "unat (tcpip_chksum ds) = 65535 - ones_sum (word_sum ds) \<and>
   tcpip_continue_chksum (tcpip_chksum (concat (map (\<lambda>(a, b). [a, b]) ws))) ds =
     tcpip_chksum (concat (map (\<lambda>(a, b). [a, b]) ws) @ ds)"
proof -
  have "even (length (concat (map (\<lambda>(a, b). [a, b]) ws)))" by (induction ws) (auto split: prod.splits)
  then show ?thesis
    by (simp add: tcpip_chksum_def continue_chksum_append continue_chksum_sum TCPIP_EMPTY_CSUM_def)
qed

text \<open>A segment whose checksum field, at an even offset, is filled with the checksum of the segment
  (field zero) continued over the pseudo-header passes the receiver's check, which starts from the
  pseudo-header and continues over the segment: the result is zero.\<close>

theorem transport_checksum:
  assumes "even (length a)" and "c = tcpip_continue_chksum (tcpip_chksum (a @ [0, 0] @ b)) ps"
  shows "tcpip_continue_chksum (tcpip_chksum ps) (a @ stored16 c @ b) = 0"
  using generic_checksum.end_to_end [OF assms(1)] assms(2) by (simp add: tcpip_chksum_def)

theorem transport_checksum_witness:
  "tcpip_continue_chksum (tcpip_chksum [192, 168, 0, 1])
     ([0x12, 0x34] @ stored16 (tcpip_continue_chksum (tcpip_chksum ([0x12, 0x34] @ [0, 0] @ [0x56])) [192, 168, 0, 1]) @ [0x56]) = 0"
  by (rule transport_checksum [OF _ refl]) simp

end
