(* ===== verification/Refcnt.thy ===== *)
theory Refcnt
  imports Prelude
begin

text \<open>
  Reference counting (\<open>src/src/core/refcnt.c\<close>, \<open>src/src/include/ipxe/refcnt.h\<close>).  The counters are a
  store indexed by address; the count is the C \<open>int\<close>, read as signed.  The \<open>free\<close> method of an object is
  foreign code: running it, or the standard \<open>free()\<close> when there is none, is an entry of the log \<open>freed\<close>.
\<close>

section \<open>State and operations\<close>

record refcnt =
  rcount :: u32
  rfree :: "nat option"

record refs =
  refcnts :: "ptr \<Rightarrow> refcnt"
  freed :: "(ptr \<times> nat option) list"

definition set_count :: "ptr \<Rightarrow> u32 \<Rightarrow> 'a refs_scheme \<Rightarrow> 'a refs_scheme" where
  "set_count p n s = s\<lparr>refcnts := (refcnts s)(p := (refcnts s p)\<lparr>rcount := n\<rparr>)\<rparr>"

definition ref_init :: "ptr \<Rightarrow> nat option \<Rightarrow> 'a refs_scheme \<Rightarrow> 'a refs_scheme" where
  "ref_init p f s =
     (case f of None \<Rightarrow> s | Some m \<Rightarrow> s\<lparr>refcnts := (refcnts s)(p := (refcnts s p)\<lparr>rfree := Some m\<rparr>)\<rparr>)"

definition ref_increment :: "ptr \<Rightarrow> 'a refs_scheme \<Rightarrow> 'a refs_scheme" where
  "ref_increment p s = (if p \<noteq> NULL then set_count p (rcount (refcnts s p) + 1) s else s)"

definition ref_decrement :: "ptr \<Rightarrow> 'a refs_scheme \<Rightarrow> 'a refs_scheme" where
  "ref_decrement p s =
     (if p = NULL then s
      else let s = set_count p (rcount (refcnts s p) - 1) s;
               count = sint (rcount (refcnts s p))
           in if count \<ge> 0 then s
              else if count < -1 then s
              else s\<lparr>freed := freed s @ [(p, rfree (refcnts s p))]\<rparr>)"

definition ref_get :: "ptr \<Rightarrow> 'a refs_scheme \<Rightarrow> 'a refs_scheme" where
  "ref_get p s = ref_increment p s"

definition ref_put :: "ptr \<Rightarrow> 'a refs_scheme \<Rightarrow> 'a refs_scheme" where
  "ref_put p s = ref_decrement p s"

text \<open>Any use of one object: taking and dropping references.\<close>

datatype ref_op = Get | Put

fun ref_run :: "ptr \<Rightarrow> ref_op list \<Rightarrow> 'a refs_scheme \<Rightarrow> 'a refs_scheme" where
  "ref_run p [] s = s"
| "ref_run p (Get # ops) s = ref_run p ops (ref_get p s)"
| "ref_run p (Put # ops) s = ref_run p ops (ref_put p s)"

fun balance :: "ref_op list \<Rightarrow> int" where
  "balance [] = 0"
| "balance (Get # ops) = 1 + balance ops"
| "balance (Put # ops) = balance ops - 1"

section \<open>Lemmas\<close>

lemma signed_take_bit_plus1: "signed_take_bit 31 (signed_take_bit 31 x + 1) = signed_take_bit 31 (x + 1 :: int)"
  using signed_take_bit_add [of 31 x 1] by (simp add: signed_take_bit_Suc)

lemma signed_take_bit_minus1: "signed_take_bit 31 (signed_take_bit 31 x - 1) = signed_take_bit 31 (x - 1 :: int)"
  using signed_take_bit_diff [of 31 x 1] by (simp add: signed_take_bit_Suc)

lemma sint_plus1: "sint (x :: u32) < 2 ^ 31 - 1 \<Longrightarrow> sint (x + 1) = sint x + 1"
proof -
  assume a: "sint x < 2 ^ 31 - 1"
  have "sint (x + 1) = signed_take_bit 31 (sint x + 1)"
    by transfer (simp add: signed_take_bit_plus1)
  also have "\<dots> = sint x + 1"
    using a sint_ge [of x] by (intro signed_take_bit_int_eq_self) simp_all
  finally show ?thesis .
qed

lemma sint_minus1: "- (2 ^ 31) < sint (x :: u32) \<Longrightarrow> sint (x - 1) = sint x - 1"
proof -
  assume a: "- (2 ^ 31) < sint x"
  have "sint (x - 1) = signed_take_bit 31 (sint x - 1)"
    by transfer (simp add: signed_take_bit_minus1)
  also have "\<dots> = sint x - 1"
    using a sint_less [of x] by (intro signed_take_bit_int_eq_self) simp_all
  finally show ?thesis .
qed

lemma balance_append: "balance (xs @ ys) = balance xs + balance ys"
  by (induction xs rule: balance.induct) auto

lemma balance_le: "balance ops \<le> int (length ops)"
  by (induction ops rule: balance.induct) auto

lemma ref_run_append: "ref_run p (xs @ ys) s = ref_run p ys (ref_run p xs s)"
  by (induction p xs s rule: ref_run.induct) auto

lemma count_set_count [simp]: "rcount (refcnts (set_count p n s) p) = n" "rfree (refcnts (set_count p n s) q) = rfree (refcnts s q)"
  "freed (set_count p n s) = freed s"
  by (simp_all add: set_count_def)

lemma ref_get_count:
  "p \<noteq> NULL \<Longrightarrow> sint (rcount (refcnts s p)) < 2 ^ 31 - 1 \<Longrightarrow>
     sint (rcount (refcnts (ref_get p s) p)) = sint (rcount (refcnts s p)) + 1 \<and> freed (ref_get p s) = freed s \<and>
     rfree (refcnts (ref_get p s) p) = rfree (refcnts s p)"
  by (simp add: ref_get_def ref_increment_def sint_plus1)

lemma ref_put_count:
  "p \<noteq> NULL \<Longrightarrow> 0 \<le> sint (rcount (refcnts s p)) \<Longrightarrow>
     sint (rcount (refcnts (ref_put p s) p)) = sint (rcount (refcnts s p)) - 1 \<and>
     freed (ref_put p s) = freed s @ (if sint (rcount (refcnts s p)) = 0 then [(p, rfree (refcnts s p))] else []) \<and>
     rfree (refcnts (ref_put p s) p) = rfree (refcnts s p)"
  using sint_minus1 [of "rcount (refcnts s p)"] by (simp add: ref_put_def ref_decrement_def Let_def)

lemma ref_run_live:
  assumes "p \<noteq> NULL" "0 \<le> sint (rcount (refcnts s p))"
    "sint (rcount (refcnts s p)) + int (length ops) < 2 ^ 31"
    "\<forall>k \<le> length ops. 0 \<le> sint (rcount (refcnts s p)) + balance (take k ops)"
  shows "sint (rcount (refcnts (ref_run p ops s) p)) = sint (rcount (refcnts s p)) + balance ops \<and>
    freed (ref_run p ops s) = freed s \<and> rfree (refcnts (ref_run p ops s) p) = rfree (refcnts s p)"
  using assms
proof (induction p ops s rule: ref_run.induct)
  case (1 p s)
  then show ?case by simp
next
  case (2 p ops s)
  have g: "sint (rcount (refcnts (ref_get p s) p)) = sint (rcount (refcnts s p)) + 1" "freed (ref_get p s) = freed s"
    "rfree (refcnts (ref_get p s) p) = rfree (refcnts s p)"
    using ref_get_count [of p s] 2(2,4) by auto
  have "\<forall>k \<le> length ops. 0 \<le> sint (rcount (refcnts (ref_get p s) p)) + balance (take k ops)"
  proof (intro allI impI)
    fix k assume "k \<le> length ops"
    then show "0 \<le> sint (rcount (refcnts (ref_get p s) p)) + balance (take k ops)"
      using 2(5) [rule_format, of "Suc k"] g(1) by simp
  qed
  then show ?case using 2(1) [OF 2(2)] 2(3,4) g by simp
next
  case (3 p ops s)
  have c: "0 < sint (rcount (refcnts s p))" using 3(5) [rule_format, of 1] by simp
  have g: "sint (rcount (refcnts (ref_put p s) p)) = sint (rcount (refcnts s p)) - 1" "freed (ref_put p s) = freed s"
    "rfree (refcnts (ref_put p s) p) = rfree (refcnts s p)"
    using ref_put_count [of p s] 3(2,3) c by auto
  have "\<forall>k \<le> length ops. 0 \<le> sint (rcount (refcnts (ref_put p s) p)) + balance (take k ops)"
  proof (intro allI impI)
    fix k assume "k \<le> length ops"
    then show "0 \<le> sint (rcount (refcnts (ref_put p s) p)) + balance (take k ops)"
      using 3(5) [rule_format, of "Suc k"] g(1) by simp
  qed
  then show ?case using 3(1) [OF 3(2)] 3(4) c g by simp
qed

section \<open>Properties\<close>

text \<open>C39: an object whose references are taken and dropped in any order is freed exactly once, by its
  own method, at the moment the last reference goes (the first time there is one more put than gets)
  and not before.\<close>

theorem ref_lifecycle:
  assumes "p \<noteq> NULL" and "rcount (refcnts s p) = 0" and "length ops < 2 ^ 31"
    and "balance ops = -1" and "\<forall>k < length ops. 0 \<le> balance (take k ops)"
  shows "freed (ref_run p ops s) = freed s @ [(p, rfree (refcnts s p))] \<and>
    (\<forall>k < length ops. freed (ref_run p (take k ops) s) = freed s)"
proof
  have live: "sint (rcount (refcnts (ref_run p (take k ops) s) p)) = balance (take k ops) \<and>
      freed (ref_run p (take k ops) s) = freed s \<and> rfree (refcnts (ref_run p (take k ops) s) p) = rfree (refcnts s p)"
    if "k < length ops" for k
  proof -
    have "\<forall>j \<le> length (take k ops). 0 \<le> balance (take j (take k ops))"
      using that assms(5) by (auto simp: min_def)
    then show ?thesis using ref_run_live [of p s "take k ops"] that assms(1-3) by simp
  qed
  then show "\<forall>k < length ops. freed (ref_run p (take k ops) s) = freed s" by blast
  obtain xs x where ops: "ops = xs @ [x]" using assms(4) by (cases ops rule: rev_cases) auto
  have b: "0 \<le> balance xs" using assms(5) [rule_format, of "length xs"] ops by simp
  then have x: "x = Put" "balance xs = 0" using assms(4) ops by (cases x; simp add: balance_append)+
  have l: "sint (rcount (refcnts (ref_run p xs s) p)) = 0" "freed (ref_run p xs s) = freed s"
    "rfree (refcnts (ref_run p xs s) p) = rfree (refcnts s p)"
    using live [of "length xs"] x ops by auto
  show "freed (ref_run p ops s) = freed s @ [(p, rfree (refcnts s p))]"
    using ref_put_count [OF assms(1), of "ref_run p xs s"] l by (simp add: ops x ref_run_append)
qed

definition fresh_refs :: refs where
  "fresh_refs = \<lparr>refcnts = (\<lambda>_. \<lparr>rcount = 0, rfree = Some 7\<rparr>), freed = []\<rparr>"

theorem ref_lifecycle_witness:
  "freed (ref_run 16 [Get, Put, Put] fresh_refs) = [(16, Some 7)]"
proof -
  have "\<forall>k < length [Get, Put, Put]. 0 \<le> balance (take k [Get, Put, Put])"
    by (auto simp: less_Suc_eq take_Cons')
  from ref_lifecycle [of 16 fresh_refs, OF _ _ _ _ this] show ?thesis by (simp add: fresh_refs_def)
qed

end
