(* ===== verification/Process.thy ===== *)
theory Process
  imports Refcnt Linked_Lists
begin

text \<open>
  Cooperative multitasking (\<open>src/src/core/process.c\<close>, \<open>src/src/include/ipxe/process.h\<close>) and pending
  operations (\<open>src/src/core/pending.c\<close>).  The run queue is a list of process addresses; a process is
  running when it is on it.  The step method of a process is foreign code: a parameter \<open>exec\<close> that maps
  the containing object and the state to the new state.
\<close>

section \<open>Processes\<close>

record process =
  poffset :: u32
  reschedule :: bool
  prefcnt :: ptr

record sched = refs +
  run_queue :: "ptr list"
  processes :: "ptr \<Rightarrow> process"

definition process_object :: "ptr \<Rightarrow> 'a sched_scheme \<Rightarrow> ptr" where
  "process_object p s = p - poffset (processes s p)"

definition process_running :: "ptr \<Rightarrow> 'a sched_scheme \<Rightarrow> bool" where
  "process_running p s \<longleftrightarrow> p \<in> set (run_queue s)"

definition process_init_stopped :: "ptr \<Rightarrow> process \<Rightarrow> 'a sched_scheme \<Rightarrow> 'a sched_scheme" where
  "process_init_stopped p d s = s\<lparr>processes := (processes s)(p := d)\<rparr>"

definition process_add :: "ptr \<Rightarrow> 'a sched_scheme \<Rightarrow> 'a sched_scheme" where
  "process_add p s =
     (if \<not> process_running p s then
        let s = ref_get (prefcnt (processes s p)) s in s\<lparr>run_queue := run_queue s @ [p]\<rparr>
      else s)"

definition process_init :: "ptr \<Rightarrow> process \<Rightarrow> 'a sched_scheme \<Rightarrow> 'a sched_scheme" where
  "process_init p d s = process_add p (process_init_stopped p d s)"

definition process_del :: "ptr \<Rightarrow> 'a sched_scheme \<Rightarrow> 'a sched_scheme" where
  "process_del p s =
     (if process_running p s then
        let s = s\<lparr>run_queue := remove1 p (run_queue s)\<rparr> in ref_put (prefcnt (processes s p)) s
      else s)"

definition step :: "(ptr \<Rightarrow> 'a sched_scheme \<Rightarrow> 'a sched_scheme) \<Rightarrow> 'a sched_scheme \<Rightarrow> 'a sched_scheme" where
  "step exec s =
     (case run_queue s of
        [] \<Rightarrow> s
      | p # _ \<Rightarrow>
          let s = ref_get (prefcnt (processes s p)) s;
              desc = processes s p;
              object = process_object p s;
              s = (if reschedule desc
                   then s\<lparr>run_queue := remove1 p (run_queue s) @ [p]\<rparr>
                   else process_del p s);
              s = exec object s
          in ref_put (prefcnt (processes s p)) s)"

definition init_processes :: "ptr list \<Rightarrow> 'a sched_scheme \<Rightarrow> 'a sched_scheme" where
  "init_processes ps s = fold process_add ps s"

text \<open>The processes run by the next \<open>n\<close> calls of \<open>step()\<close>.\<close>

fun step_trace :: "(ptr \<Rightarrow> 'a sched_scheme \<Rightarrow> 'a sched_scheme) \<Rightarrow> nat \<Rightarrow> 'a sched_scheme \<Rightarrow> ptr list" where
  "step_trace exec 0 s = []"
| "step_trace exec (Suc n) s =
     (case run_queue s of [] \<Rightarrow> [] | p # _ \<Rightarrow> p # step_trace exec n (step exec s))"

text \<open>A step method changes the run queue by adding and removing processes only.\<close>

datatype proc_op = Add ptr | Del ptr

fun proc_run :: "proc_op list \<Rightarrow> 'a sched_scheme \<Rightarrow> 'a sched_scheme" where
  "proc_run [] s = s"
| "proc_run (Add p # ops) s = proc_run ops (process_add p s)"
| "proc_run (Del p # ops) s = proc_run ops (process_del p s)"

definition leaves_queued :: "ptr \<Rightarrow> (ptr \<Rightarrow> 'a sched_scheme \<Rightarrow> 'a sched_scheme) \<Rightarrow> bool" where
  "leaves_queued p exec \<longleftrightarrow> (\<forall>object s. \<exists>ops. Del p \<notin> set ops \<and>
     run_queue (exec object s) = run_queue (proc_run ops s))"

definition queue_pos :: "ptr \<Rightarrow> 'a sched_scheme \<Rightarrow> nat" where
  "queue_pos p s = length (takeWhile (\<lambda>q. q \<noteq> p) (run_queue s))"

section \<open>Pending operations\<close>

record pendings =
  pcount :: "ptr \<Rightarrow> u32"
  pending_total :: u32

definition is_pending :: "ptr \<Rightarrow> 'a pendings_scheme \<Rightarrow> bool" where
  "is_pending p s \<longleftrightarrow> pcount s p \<noteq> 0"

definition pending_get :: "ptr \<Rightarrow> 'a pendings_scheme \<Rightarrow> 'a pendings_scheme" where
  "pending_get p s = s\<lparr>pcount := (pcount s)(p := pcount s p + 1), pending_total := pending_total s + 1\<rparr>"

definition pending_put :: "ptr \<Rightarrow> 'a pendings_scheme \<Rightarrow> 'a pendings_scheme" where
  "pending_put p s =
     (if pcount s p \<noteq> 0 then
        s\<lparr>pending_total := pending_total s - 1, pcount := (pcount s)(p := pcount s p - 1)\<rparr>
      else s)"

text \<open>The wait loop; one round is the call of \<open>step()\<close>, the clock is read from the state.\<close>

partial_function (option) pending_loop ::
  "('a pendings_scheme \<Rightarrow> 'a pendings_scheme) \<Rightarrow> ('a pendings_scheme \<Rightarrow> u32) \<Rightarrow> u32 \<Rightarrow> u32 \<Rightarrow>
     'a pendings_scheme \<Rightarrow> (rc \<times> 'a pendings_scheme) option" where
  "pending_loop stp currticks timeout start s =
     (if pending_total s = 0 then Some (None, s)
      else let s = stp s in
           if timeout = 0 \<or> currticks s - start < timeout then pending_loop stp currticks timeout start s
           else Some (Some ETIMEDOUT, s))"

definition pending_wait ::
  "('a pendings_scheme \<Rightarrow> 'a pendings_scheme) \<Rightarrow> ('a pendings_scheme \<Rightarrow> u32) \<Rightarrow> u32 \<Rightarrow>
     'a pendings_scheme \<Rightarrow> (rc \<times> 'a pendings_scheme) option" where
  "pending_wait stp currticks timeout s = pending_loop stp currticks timeout (currticks s) s"

datatype pend_op = Pget ptr | Pput ptr

fun pend_run :: "pend_op list \<Rightarrow> 'a pendings_scheme \<Rightarrow> 'a pendings_scheme" where
  "pend_run [] s = s"
| "pend_run (Pget p # ops) s = pend_run ops (pending_get p s)"
| "pend_run (Pput p # ops) s = pend_run ops (pending_put p s)"

fun pend_owners :: "pend_op list \<Rightarrow> ptr set" where
  "pend_owners [] = {}"
| "pend_owners (Pget p # ops) = insert p (pend_owners ops)"
| "pend_owners (Pput p # ops) = insert p (pend_owners ops)"

section \<open>Lemmas\<close>

lemma run_queue_refs [simp]:
  "run_queue (ref_get r s) = run_queue s" "run_queue (ref_put r s) = run_queue s"
  "processes (ref_get r s) = processes s" "processes (ref_put r s) = processes s"
  by (simp_all add: ref_get_def ref_increment_def ref_put_def ref_decrement_def set_count_def Let_def)

lemma run_queue_add: "run_queue (process_add p s) = (if p \<in> set (run_queue s) then run_queue s else run_queue s @ [p])"
  by (simp add: process_add_def process_running_def Let_def)

lemma run_queue_del: "run_queue (process_del p s) = remove1 p (run_queue s)"
  by (simp add: process_del_def process_running_def Let_def remove1_idem)

text \<open>No queue operation moves a process that stays queued away from the front.\<close>

definition pos_in :: "ptr \<Rightarrow> ptr list \<Rightarrow> nat" where
  "pos_in p q = length (takeWhile (\<lambda>x. x \<noteq> p) q)"

lemma pos_in_append: "p \<in> set q \<Longrightarrow> pos_in p (q @ r) = pos_in p q"
  by (simp add: pos_in_def takeWhile_append1)

lemma pos_in_remove1: "x \<noteq> p \<Longrightarrow> pos_in p (remove1 x q) \<le> pos_in p q"
  by (induction q) (auto simp: pos_in_def)

lemma proc_run_pos:
  "Del p \<notin> set ops \<Longrightarrow> p \<in> set (run_queue s) \<Longrightarrow>
     p \<in> set (run_queue (proc_run ops s)) \<and> pos_in p (run_queue (proc_run ops s)) \<le> pos_in p (run_queue s)"
proof (induction ops s rule: proc_run.induct)
  case (1 s)
  then show ?case by simp
next
  case (2 q ops s)
  have "p \<in> set (run_queue (process_add q s))" "pos_in p (run_queue (process_add q s)) = pos_in p (run_queue s)"
    using 2(3) by (auto simp: run_queue_add pos_in_append)
  then show ?case using 2 by simp
next
  case (3 q ops s)
  have "p \<in> set (run_queue (process_del q s))" using 3(2,3) by (simp add: run_queue_del)
  then show ?case using 3(1) 3(2) pos_in_remove1 [of q p "run_queue s"]
    by (auto simp: run_queue_del intro: le_trans)
qed

lemma step_pos:
  assumes e: "leaves_queued p exec" and q: "run_queue s = h # t" and h: "h \<noteq> p" and p: "p \<in> set (run_queue s)"
  shows "p \<in> set (run_queue (step exec s)) \<and> Suc (pos_in p (run_queue (step exec s))) \<le> pos_in p (run_queue s)"
proof -
  have t: "p \<in> set t" "pos_in p (run_queue s) = Suc (pos_in p t)" using p q h by (auto simp: pos_in_def)
  define s1 where "s1 = ref_get (prefcnt (processes s h)) s"
  define s2 where "s2 = (if reschedule (processes s1 h) then s1\<lparr>run_queue := remove1 h (run_queue s1) @ [h]\<rparr> else process_del h s1)"
  have "run_queue s2 = t @ [h] \<or> run_queue s2 = t" using q by (auto simp: s2_def s1_def run_queue_del)
  then have s2: "p \<in> set (run_queue s2)" "pos_in p (run_queue s2) = pos_in p t"
    using t(1) by (auto simp: pos_in_append)
  obtain ops where ops: "Del p \<notin> set ops" "run_queue (exec (process_object h s1) s2) = run_queue (proc_run ops s2)"
    using e unfolding leaves_queued_def by blast
  have "run_queue (step exec s) = run_queue (exec (process_object h s1) s2)"
    by (simp add: step_def q Let_def s1_def s2_def)
  then have "run_queue (step exec s) = run_queue (proc_run ops s2)" using ops(2) by (simp only:)
  then show ?thesis using proc_run_pos [OF ops(1) s2(1)] s2(2) t(2) by simp
qed

lemma run_within:
  "leaves_queued p exec \<Longrightarrow> p \<in> set (run_queue s) \<Longrightarrow> pos_in p (run_queue s) < n \<Longrightarrow> p \<in> set (step_trace exec n s)"
proof (induction n arbitrary: s)
  case (Suc n)
  obtain h t where q: "run_queue s = h # t" using Suc.prems(2) by (cases "run_queue s") auto
  show ?case
  proof (cases "h = p")
    case False
    from step_pos [OF Suc.prems(1) q False Suc.prems(2)] Suc.prems(3)
    have "p \<in> set (step_trace exec n (step exec s))" by (intro Suc.IH [OF Suc.prems(1)]) auto
    then show ?thesis using q by simp
  qed (simp add: q)
qed simp

lemma process_distinct:
  "distinct (run_queue s) \<Longrightarrow> distinct (run_queue (process_add p s)) \<and> distinct (run_queue (process_del p s))"
  by (auto simp: run_queue_add run_queue_del)

text \<open>The counter of pending operations.\<close>

lemma unat_dec: "(x :: u32) \<noteq> 0 \<Longrightarrow> unat (x - 1) = unat x - 1"
  by (subst unat_sub_le) (auto simp: Suc_le_eq unat_gt_0)

lemma pend_run_total:
  assumes "finite A" "pend_owners ops \<subseteq> A" "(\<Sum>p \<in> A. unat (pcount s p)) + length ops < 2 ^ 32"
    "unat (pending_total s) = (\<Sum>p \<in> A. unat (pcount s p))"
  shows "unat (pending_total (pend_run ops s)) = (\<Sum>p \<in> A. unat (pcount (pend_run ops s) p))"
  using assms(2-)
proof (induction ops s rule: pend_run.induct)
  case (1 s)
  then show ?case by simp
next
  case (2 p ops s)
  have p: "p \<in> A" using 2(2) by simp
  have le: "unat (pcount s p) \<le> (\<Sum>p \<in> A. unat (pcount s p))" using assms(1) p by (intro member_le_sum) auto
  have c: "unat (pcount s p + 1) = unat (pcount s p) + 1" using le 2(3) by (intro unat_plus1) simp
  have t: "unat (pending_total s + 1) = unat (pending_total s) + 1" using 2(3,4) by (intro unat_plus1) simp
  have "(\<Sum>q \<in> A. unat (pcount (pending_get p s) q)) = (\<Sum>q \<in> A. unat (pcount s q)) + 1"
    using assms(1) p c by (simp add: pending_get_def sum.remove [of A p])
  then show ?case using 2 t by (simp add: pending_get_def)
next
  case (3 p ops s)
  have p: "p \<in> A" using 3(2) by simp
  have le: "unat (pcount s p) \<le> (\<Sum>p \<in> A. unat (pcount s p))" using assms(1) p by (intro member_le_sum) auto
  show ?case
  proof (cases "pcount s p = 0")
    case True
    then show ?thesis using 3 by (simp add: pending_put_def)
  next
    case False
    then have c: "unat (pcount s p - 1) = unat (pcount s p) - 1" "0 < unat (pcount s p)"
      by (simp_all add: unat_dec unat_gt_0)
    have "pending_total s \<noteq> 0" using le c(2) 3(4) by (metis le_zero_eq less_numeral_extra(3) unat_0)
    then have t: "unat (pending_total s - 1) = unat (pending_total s) - 1" by (rule unat_dec)
    have "(\<Sum>q \<in> A. unat (pcount (pending_put p s) q)) = (\<Sum>q \<in> A. unat (pcount s q)) - 1"
      using assms(1) p c False by (simp add: pending_put_def sum.remove [of A p])
    then show ?thesis using 3 t False by (simp add: pending_put_def)
  qed
qed

lemma pending_loop_returns:
  assumes "pending_total ((stp ^^ n) s) = 0 \<or> 0 < n \<and> timeout \<noteq> 0 \<and> timeout \<le> currticks ((stp ^^ n) s) - start"
  shows "\<exists>r. pending_loop stp currticks timeout start s = Some r"
  using assms
proof (induction n arbitrary: s)
  case 0
  then show ?case by (subst pending_loop.simps) simp
next
  case (Suc n)
  have "(stp ^^ Suc n) s = (stp ^^ n) (stp s)" by (simp add: funpow_Suc_right del: funpow.simps)
  then have e: "pending_total ((stp ^^ n) (stp s)) = 0 \<or> timeout \<noteq> 0 \<and> timeout \<le> currticks ((stp ^^ n) (stp s)) - start"
    using Suc.prems by simp
  show ?case
  proof (cases "timeout \<noteq> 0 \<and> timeout \<le> currticks (stp s) - start")
    case True
    then have "\<not> currticks (stp s) - start < timeout" "timeout \<noteq> 0" by (simp_all add: not_less)
    then show ?thesis by (subst pending_loop.simps) (simp add: Let_def)
  next
    case False
    then have "pending_total ((stp ^^ n) (stp s)) = 0 \<or>
        0 < n \<and> timeout \<noteq> 0 \<and> timeout \<le> currticks ((stp ^^ n) (stp s)) - start"
      using e by (cases n) auto
    from Suc.IH [OF this] show ?thesis by (subst pending_loop.simps) (auto simp: Let_def)
  qed
qed

lemma pending_loop_zero:
  assumes "pending_loop stp currticks timeout start s = Some r" "fst r = None"
  shows "pending_total (snd r) = 0"
  using assms
proof (induction rule: pending_loop.raw_induct [rotated, consumes 1, case_names loop])
  case (loop f stp currticks timeout start s r)
  then show ?case by (auto simp: Let_def split: if_splits)
qed

text \<open>The pointer-level run queue rotates the way the list does.\<close>

lemma run_queue_ring:
  assumes "dlist l rq (h # t)"
  shows "dlist (inline_list_add_tail h rq (inline_list_del h l)) rq (t @ [h])"
  using ipxe_list.ring_rotate [OF assms] ipxe_list.ring_first [OF assms] by simp

section \<open>Properties\<close>

text \<open>C21: scheduling is fair: a process that is queued behind \<open>i\<close> others is run by one of the next
  \<open>i + 1\<close> calls of step(), whatever processes the step methods start or stop, as long as they do not
  stop this one.\<close>

theorem step_fair:
  assumes "leaves_queued p exec" and "p \<in> set (run_queue s)"
  shows "p \<in> set (step_trace exec (Suc (queue_pos p s)) s)"
  by (rule run_within [OF assms]) (simp add: queue_pos_def pos_in_def)

definition two_processes :: sched where
  "two_processes = \<lparr>refcnts = (\<lambda>_. \<lparr>rcount = 0, rfree = None\<rparr>), freed = [], run_queue = [16, 32],
     processes = (\<lambda>_. \<lparr>poffset = 0, reschedule = True, prefcnt = 0\<rparr>)\<rparr>"

theorem step_fair_witness:
  "32 \<in> set (step_trace (\<lambda>object. process_add 48) 2 two_processes)"
proof -
  have l: "leaves_queued 32 (\<lambda>object. process_add 48 :: sched \<Rightarrow> sched)"
    unfolding leaves_queued_def by (intro allI exI [of _ "[Add 48]"]) simp
  have m: "32 \<in> set (run_queue two_processes)" by (simp add: two_processes_def)
  have "Suc (queue_pos 32 two_processes) = 2" by (simp add: two_processes_def queue_pos_def)
  then show ?thesis using step_fair [OF l m] by (simp only:)
qed

text \<open>The total number of pending operations is the sum of the counts of the individual operations,
  for every sequence of pending_get() and pending_put() calls on the operations in \<open>A\<close>, unbalanced ones
  included.\<close>

theorem pending_total_sum:
  assumes "finite A" and "pend_owners ops \<subseteq> A" and "length ops < 2 ^ 32"
    and "\<forall>p \<in> A. pcount s p = 0" and "pending_total s = 0"
  shows "unat (pending_total (pend_run ops s)) = (\<Sum>p \<in> A. unat (pcount (pend_run ops s) p))"
  using pend_run_total [OF assms(1,2), of s] assms(3-5) by simp

theorem pending_total_sum_witness:
  "unat (pending_total (pend_run [Pget 16, Pget 32, Pput 16, Pput 16] \<lparr>pcount = (\<lambda>_. 0), pending_total = 0\<rparr>)) = 1"
proof -
  have "{16, 32 :: ptr} = insert 16 {32}" "(16 :: ptr) \<notin> {32}" by auto
  then show ?thesis
    using pending_total_sum [of "{16, 32}" "[Pget 16, Pget 32, Pput 16, Pput 16]" "\<lparr>pcount = (\<lambda>_. 0), pending_total = 0\<rparr>"]
    by (simp add: pending_get_def pending_put_def)
qed

text \<open>Pending_wait() returns as soon as the processes it steps finish the pending operations or, with
  a timeout, the clock passes it; and a return value of 0 means nothing is pending.\<close>

theorem pending_wait_returns:
  assumes "pending_total ((stp ^^ n) s) = 0 \<or>
      0 < n \<and> timeout \<noteq> 0 \<and> timeout \<le> currticks ((stp ^^ n) s) - currticks s"
  shows "\<exists>rc s'. pending_wait stp currticks timeout s = Some (rc, s') \<and> (rc = None \<longrightarrow> pending_total s' = 0)"
proof -
  obtain rc s' where r: "pending_wait stp currticks timeout s = Some (rc, s')"
    using pending_loop_returns [where start = "currticks s" and stp = stp and currticks = currticks and s = s and n = n and timeout = timeout, OF assms] unfolding pending_wait_def by auto
  then have "pending_loop stp currticks timeout (currticks s) s = Some (rc, s')" by (simp add: pending_wait_def)
  then have "rc = None \<longrightarrow> pending_total s' = 0" using pending_loop_zero by fastforce
  then show ?thesis using r by blast
qed

theorem pending_wait_returns_witness:
  "\<exists>rc s'. pending_wait (pending_put 16) (\<lambda>s. 0) 0 \<lparr>pcount = (\<lambda>_. 2), pending_total = 2\<rparr> = Some (rc, s')"
proof -
  have "pending_total ((pending_put 16 ^^ Suc (Suc 0)) \<lparr>pcount = (\<lambda>_. 2), pending_total = 2\<rparr>) = 0"
    by (simp add: pending_put_def)
  then show ?thesis
    using pending_wait_returns [where stp = "pending_put 16" and n = "Suc (Suc 0)" and s = "\<lparr>pcount = (\<lambda>_. 2), pending_total = 2\<rparr>"]
    by blast
qed

end
