(* ===== verification/Retry.thy ===== *)
theory Retry
  imports Refcnt
begin

text \<open>
  Retry timers (\<open>src/src/net/retry.c\<close>, \<open>src/src/include/ipxe/retry.h\<close>).  What an operation does to the
  fields of one timer is a function of its own (used by the protocols that embed a timer), the operation
  on the global list of running timers is built on it.  The clock \<open>currticks()\<close> and \<open>TICKS_PER_SEC\<close> are
  parameters, and so is the expiry callback.
\<close>

section \<open>State\<close>

record retry_timer =
  running :: bool
  timeout :: u32
  min_timeout :: u32
  max_timeout :: u32
  start :: u32
  tcount :: u32
  trefcnt :: ptr

record timers = refs +
  timer_list :: "ptr list"
  timer_of :: "ptr \<Rightarrow> retry_timer"

definition MIN_TIMEOUT :: u32 where
  "MIN_TIMEOUT = 7"

definition DEFAULT_MIN_TIMEOUT :: "u32 \<Rightarrow> u32" where
  "DEFAULT_MIN_TIMEOUT tps = tps div 4"

definition DEFAULT_MAX_TIMEOUT :: "u32 \<Rightarrow> u32" where
  "DEFAULT_MAX_TIMEOUT tps = 10 * tps"

definition set_timer :: "ptr \<Rightarrow> retry_timer \<Rightarrow> 'a timers_scheme \<Rightarrow> 'a timers_scheme" where
  "set_timer p t s = s\<lparr>timer_of := (timer_of s)(p := t)\<rparr>"

section \<open>The fields of one timer\<close>

definition start_fields :: "u32 \<Rightarrow> u32 \<Rightarrow> retry_timer \<Rightarrow> retry_timer" where
  "start_fields tps now t =
     (let t = t\<lparr>start := now, running := True\<rparr>;
          t = (if min_timeout t = 0 then t\<lparr>min_timeout := DEFAULT_MIN_TIMEOUT tps\<rparr> else t);
          t = (if min_timeout t < MIN_TIMEOUT then t\<lparr>min_timeout := MIN_TIMEOUT\<rparr> else t)
      in if timeout t < min_timeout t then t\<lparr>timeout := min_timeout t\<rparr> else t)"

definition start_fixed_fields :: "u32 \<Rightarrow> u32 \<Rightarrow> u32 \<Rightarrow> retry_timer \<Rightarrow> retry_timer" where
  "start_fixed_fields tps now tmo t = (start_fields tps now t)\<lparr>timeout := tmo\<rparr>"

definition stop_fields :: "u32 \<Rightarrow> retry_timer \<Rightarrow> retry_timer" where
  "stop_fields now t =
     (if \<not> running t then t
      else let runtime = now - start t;
               t = t\<lparr>running := False\<rparr>
           in if tcount t \<noteq> 0 then t\<lparr>tcount := tcount t - 1\<rparr>
              else let t = t\<lparr>timeout := timeout t - drop_bit 3 (timeout t)\<rparr>
                   in t\<lparr>timeout := timeout t + drop_bit 1 runtime\<rparr>)"

definition expire_fields :: "u32 \<Rightarrow> retry_timer \<Rightarrow> bool \<times> retry_timer" where
  "expire_fields tps t =
     (let t = t\<lparr>running := False, tcount := tcount t + 1\<rparr>;
          t = t\<lparr>timeout := push_bit 1 (timeout t)\<rparr>;
          t = (if max_timeout t = 0 then t\<lparr>max_timeout := DEFAULT_MAX_TIMEOUT tps\<rparr> else t);
          fail = (timeout t > max_timeout t)
      in (fail, if fail then t\<lparr>timeout := max_timeout t\<rparr> else t))"

section \<open>Operations\<close>

definition timer_init :: "ptr \<Rightarrow> ptr \<Rightarrow> 'a timers_scheme \<Rightarrow> 'a timers_scheme" where
  "timer_init p refcnt s = set_timer p ((timer_of s p)\<lparr>trefcnt := refcnt\<rparr>) s"

definition timer_running :: "ptr \<Rightarrow> 'a timers_scheme \<Rightarrow> bool" where
  "timer_running p s = running (timer_of s p)"

definition start_timer :: "u32 \<Rightarrow> u32 \<Rightarrow> ptr \<Rightarrow> 'a timers_scheme \<Rightarrow> 'a timers_scheme" where
  "start_timer tps now p s =
     (let s = (if \<not> running (timer_of s p)
               then ref_get (trefcnt (timer_of s p)) (s\<lparr>timer_list := p # timer_list s\<rparr>) else s)
      in set_timer p (start_fields tps now (timer_of s p)) s)"

definition start_timer_fixed :: "u32 \<Rightarrow> u32 \<Rightarrow> ptr \<Rightarrow> u32 \<Rightarrow> 'a timers_scheme \<Rightarrow> 'a timers_scheme" where
  "start_timer_fixed tps now p tmo s =
     (let s = start_timer tps now p s in set_timer p ((timer_of s p)\<lparr>timeout := tmo\<rparr>) s)"

definition start_timer_nodelay :: "u32 \<Rightarrow> u32 \<Rightarrow> ptr \<Rightarrow> 'a timers_scheme \<Rightarrow> 'a timers_scheme" where
  "start_timer_nodelay tps now p s = start_timer_fixed tps now p 0 s"

definition stop_timer :: "u32 \<Rightarrow> ptr \<Rightarrow> 'a timers_scheme \<Rightarrow> 'a timers_scheme" where
  "stop_timer now p s =
     (if \<not> running (timer_of s p) then s
      else let s = s\<lparr>timer_list := remove1 p (timer_list s)\<rparr>;
               s = set_timer p (stop_fields now (timer_of s p)) s
           in ref_put (trefcnt (timer_of s p)) s)"

definition timer_expired ::
  "(ptr \<Rightarrow> bool \<Rightarrow> 'a timers_scheme \<Rightarrow> 'a timers_scheme) \<Rightarrow> u32 \<Rightarrow> ptr \<Rightarrow> 'a timers_scheme \<Rightarrow> 'a timers_scheme" where
  "timer_expired expired tps p s =
     (let refcnt = trefcnt (timer_of s p);
          s = s\<lparr>timer_list := remove1 p (timer_list s)\<rparr>;
          (fail, t) = expire_fields tps (timer_of s p);
          s = set_timer p t s;
          s = expired p fail s
      in ref_put refcnt s)"

definition overdue :: "u32 \<Rightarrow> 'a timers_scheme \<Rightarrow> ptr \<Rightarrow> bool" where
  "overdue now s p \<longleftrightarrow> now - start (timer_of s p) \<ge> timeout (timer_of s p)"

definition retry_poll ::
  "(ptr \<Rightarrow> bool \<Rightarrow> 'a timers_scheme \<Rightarrow> 'a timers_scheme) \<Rightarrow> u32 \<Rightarrow> u32 \<Rightarrow> 'a timers_scheme \<Rightarrow> 'a timers_scheme" where
  "retry_poll expired tps now s =
     (case dropWhile (\<lambda>p. \<not> overdue now s p) (timer_list s) of
        [] \<Rightarrow> s
      | p # _ \<Rightarrow> timer_expired expired tps p s)"

definition retry_step ::
  "(ptr \<Rightarrow> bool \<Rightarrow> 'a timers_scheme \<Rightarrow> 'a timers_scheme) \<Rightarrow> u32 \<Rightarrow> u32 \<Rightarrow> 'a timers_scheme \<Rightarrow> 'a timers_scheme" where
  "retry_step expired tps now s = retry_poll expired tps now s"

section \<open>Invariant and repeated expiry\<close>

definition timers_ok :: "'a timers_scheme \<Rightarrow> bool" where
  "timers_ok s \<longleftrightarrow> distinct (timer_list s) \<and> (\<forall>p. p \<in> set (timer_list s) \<longleftrightarrow> running (timer_of s p))"

text \<open>A timer that expires and is restarted \<open>n\<close> times, as a protocol that retransmits does.\<close>

fun backoff :: "u32 \<Rightarrow> u32 \<Rightarrow> nat \<Rightarrow> retry_timer \<Rightarrow> retry_timer" where
  "backoff tps now 0 t = t"
| "backoff tps now (Suc n) t = start_fields tps now (snd (expire_fields tps (backoff tps now n t)))"

section \<open>Lemmas\<close>

lemma timers_refs [simp]:
  "timer_list (ref_get r s) = timer_list s" "timer_list (ref_put r s) = timer_list s"
  "timer_of (ref_get r s) = timer_of s" "timer_of (ref_put r s) = timer_of s"
  by (simp_all add: ref_get_def ref_increment_def ref_put_def ref_decrement_def set_count_def Let_def)

lemma set_timer_simps [simp]:
  "timer_list (set_timer p t s) = timer_list s" "timer_of (set_timer p t s) q = (if q = p then t else timer_of s q)"
  by (simp_all add: set_timer_def)

lemma running_fields [simp]:
  "running (start_fields tps now t)" "\<not> running (stop_fields now t)" "\<not> running (snd (expire_fields tps t))"
  by (simp_all add: start_fields_def stop_fields_def expire_fields_def Let_def)

lemma start_timer_ok: "timers_ok s \<Longrightarrow> timers_ok (start_timer tps now p s)"
  by (auto simp: timers_ok_def start_timer_def Let_def)

lemma start_timer_fixed_ok: "timers_ok s \<Longrightarrow> timers_ok (start_timer_fixed tps now p tmo s)"
  using start_timer_ok [of s tps now p] by (auto simp: timers_ok_def start_timer_fixed_def Let_def)

lemma stop_timer_ok: "timers_ok s \<Longrightarrow> timers_ok (stop_timer now p s)"
  by (auto simp: timers_ok_def stop_timer_def Let_def)

lemma timer_expired_ok:
  assumes "timers_ok s" and "\<And>p fail s. timers_ok s \<Longrightarrow> timers_ok (expired p fail s)"
  shows "timers_ok (timer_expired expired tps p s)"
proof -
  obtain f t where e: "expire_fields tps (timer_of s p) = (f, t)" by (cases "expire_fields tps (timer_of s p)")
  then have "\<not> running t" using running_fields(3) [of tps "timer_of s p"] by simp
  then have "timers_ok (set_timer p t (s\<lparr>timer_list := remove1 p (timer_list s)\<rparr>))"
    using assms(1) by (auto simp: timers_ok_def)
  from assms(2) [OF this, of p f] show ?thesis by (simp add: timer_expired_def e timers_ok_def)
qed

lemma dropWhile_head: "dropWhile P xs = x # ys \<Longrightarrow> x \<in> set xs \<and> \<not> P x \<and> (\<exists>as. xs = as @ x # ys \<and> (\<forall>a \<in> set as. P a))"
  by (metis dropWhile_eq_Cons_conv in_set_conv_decomp set_takeWhileD)

lemma unat_double: "unat (x :: u32) < 2 ^ 31 \<Longrightarrow> unat (push_bit (Suc 0) x) = 2 * unat x"
proof -
  assume "unat x < 2 ^ 31"
  then have "unat (x + x) = unat x + unat x" by (intro unat_add_nowrap) simp
  moreover have "push_bit (Suc 0) x = x + x" by (simp add: push_bit_eq_mult)
  ultimately have "unat (push_bit (Suc 0) x) = unat x + unat x" by (simp only:)
  then show ?thesis by simp
qed

lemma start_fields_idle:
  "7 \<le> unat (min_timeout t) \<Longrightarrow> min_timeout t \<le> timeout t \<Longrightarrow>
     start_fields tps now t = t\<lparr>start := now, running := True\<rparr>"
  by (auto simp: start_fields_def Let_def MIN_TIMEOUT_def word_less_nat_alt word_le_nat_alt)

lemma expire_fields_eq:
  assumes "max_timeout t \<noteq> 0"
  shows "expire_fields tps t = (let tmo = push_bit 1 (timeout t); fail = tmo > max_timeout t in
     (fail, t\<lparr>running := False, tcount := tcount t + 1, timeout := if fail then max_timeout t else tmo\<rparr>))"
  using assms by (simp add: expire_fields_def Let_def)

lemma backoff_invariant:
  assumes "7 \<le> unat (min_timeout t)" "min_timeout t \<le> timeout t" "timeout t \<le> max_timeout t" "unat (max_timeout t) < 2 ^ 31"
  shows "min_timeout (backoff tps now n t) = min_timeout t \<and> max_timeout (backoff tps now n t) = max_timeout t \<and>
    unat (timeout (backoff tps now n t)) = min (unat (max_timeout t)) (unat (timeout t) * 2 ^ n)"
proof (induction n)
  case 0
  then show ?case using assms(3) by (simp add: word_le_nat_alt)
next
  case (Suc n)
  let ?b = "backoff tps now n t"
  have m: "max_timeout ?b \<noteq> 0" using Suc assms by (auto simp: word_le_nat_alt)
  have t: "unat (timeout ?b) < 2 ^ 31" "unat (min_timeout t) \<le> unat (timeout ?b)"
  proof -
    show "unat (timeout ?b) < 2 ^ 31" using Suc assms(4) by simp
    have "unat (timeout t) * 1 \<le> unat (timeout t) * 2 ^ n" by (intro mult_le_mono) simp_all
    then have "unat (min_timeout t) \<le> unat (timeout t) * 2 ^ n" using assms(2) unfolding word_le_nat_alt by linarith
    then show "unat (min_timeout t) \<le> unat (timeout ?b)" using Suc assms(2,3) by (simp add: word_le_nat_alt)
  qed
  let ?e = "snd (expire_fields tps ?b)"
  have e: "unat (timeout ?e) = min (unat (max_timeout t)) (2 * unat (timeout ?b))"
    "min_timeout ?e = min_timeout t" "max_timeout ?e = max_timeout t"
    using Suc unat_double [OF t(1)] by (auto simp: expire_fields_eq [OF m] Let_def word_less_nat_alt min_def)
  have "unat (min_timeout t) \<le> unat (timeout ?e)" using e t assms by (simp add: word_le_nat_alt)
  then have "start_fields tps now ?e = ?e\<lparr>start := now, running := True\<rparr>"
    using e(2) assms(1) by (intro start_fields_idle) (simp_all add: word_le_nat_alt)
  then show ?case using e Suc by (simp add: min_def)
qed

section \<open>Properties\<close>

text \<open>C32: starting, stopping and polling keep the list of running timers exact: a timer is on it, once,
  if and only if it is marked as running; one poll expires at most one timer, the first one on the list
  whose timeout has passed.\<close>

theorem retry_timers_invariant:
  assumes "timers_ok s" and "\<And>p fail s. timers_ok s \<Longrightarrow> timers_ok (expired p fail s)"
  shows "timers_ok (start_timer tps now p s) \<and> timers_ok (start_timer_fixed tps now p tmo s) \<and>
    timers_ok (stop_timer now p s) \<and> timers_ok (retry_poll expired tps now s) \<and>
    (retry_poll expired tps now s = s \<or>
     (\<exists>as q bs. timer_list s = as @ q # bs \<and> overdue now s q \<and> (\<forall>a \<in> set as. \<not> overdue now s a) \<and>
        retry_poll expired tps now s = timer_expired expired tps q s))"
proof (cases "dropWhile (\<lambda>p. \<not> overdue now s p) (timer_list s)")
  case Nil
  then have "retry_poll expired tps now s = s" unfolding retry_poll_def by (simp only: list.case)
  then show ?thesis using assms(1) by (simp add: start_timer_ok start_timer_fixed_ok stop_timer_ok)
next
  case (Cons q bs)
  then have "retry_poll expired tps now s = timer_expired expired tps q s" by (simp add: retry_poll_def)
  moreover from dropWhile_head [OF Cons] obtain as where
    "timer_list s = as @ q # bs" "overdue now s q" "\<forall>a \<in> set as. \<not> overdue now s a" by blast
  moreover have "timers_ok (timer_expired expired tps q s)" using timer_expired_ok [OF assms] .
  ultimately show ?thesis using assms(1)
    by (metis start_timer_ok start_timer_fixed_ok stop_timer_ok)
qed

definition one_timer :: timers where
  "one_timer = \<lparr>refcnts = (\<lambda>_. \<lparr>rcount = 0, rfree = None\<rparr>), freed = [], timer_list = [16],
     timer_of = (\<lambda>p. \<lparr>running = (p = 16), timeout = 8, min_timeout = 8, max_timeout = 100, start = 5,
       tcount = 0, trefcnt = 0\<rparr>)\<rparr>"

theorem retry_timers_invariant_witness:
  "timers_ok (retry_poll (\<lambda>p fail s. s) 18 20 one_timer)"
  using retry_timers_invariant [of one_timer "\<lambda>p fail s. s"] by (simp add: timers_ok_def one_timer_def)

text \<open>Binary exponential backoff: the timeout of a timer that expires and is restarted doubles every
  time until it reaches the maximum, where it stays; an expiry is reported as a failure exactly when the
  doubled timeout would exceed the maximum.\<close>

theorem timer_backoff:
  assumes "7 \<le> unat (min_timeout t)" and "min_timeout t \<le> timeout t" and "timeout t \<le> max_timeout t"
    and "unat (max_timeout t) < 2 ^ 31"
  shows "unat (timeout (backoff tps now n t)) = min (unat (max_timeout t)) (unat (timeout t) * 2 ^ n) \<and>
    (fst (expire_fields tps (backoff tps now n t)) \<longleftrightarrow> unat (max_timeout t) < unat (timeout t) * 2 ^ Suc n)"
proof -
  let ?b = "backoff tps now n t"
  note i = backoff_invariant [OF assms, of tps now n]
  have m: "max_timeout ?b \<noteq> 0" "0 < unat (max_timeout t)" using i assms by (auto simp: word_le_nat_alt)
  have "unat (timeout ?b) < 2 ^ 31" using i assms(4) by simp
  then have "fst (expire_fields tps ?b) \<longleftrightarrow> unat (max_timeout t) < 2 * min (unat (max_timeout t)) (unat (timeout t) * 2 ^ n)"
    using i unat_double [of "timeout ?b"] by (simp add: expire_fields_eq [OF m(1)] Let_def word_less_nat_alt)
  also have "\<dots> \<longleftrightarrow> unat (max_timeout t) < unat (timeout t) * 2 ^ Suc n"
    using m(2) by (auto simp: min_def)
  finally show ?thesis using i by simp
qed

theorem timer_backoff_witness:
  "unat (timeout (backoff 18 20 3 (timer_of one_timer 16))) = 64"
  using timer_backoff [of "timer_of one_timer 16" 18 20 3] by (simp add: one_timer_def word_le_nat_alt)

text \<open>Stopping a running timer that has not expired smooths the timeout to 7/8 of its value plus
  half the time it ran, and never lets it fall below the seven ticks the code relies on.\<close>

theorem stop_timer_smoothing:
  assumes "running t" and "tcount t = 0" and "7 \<le> unat (timeout t)"
    and "unat (timeout t) + unat (now - start t) < 2 ^ 32"
  shows "unat (timeout (stop_fields now t)) =
      unat (timeout t) - unat (timeout t) div 8 + unat (now - start t) div 2 \<and>
    7 \<le> unat (timeout (stop_fields now t))"
proof -
  define r where "r = now - start t"
  have d: "unat (drop_bit 3 (timeout t)) = unat (timeout t) div 8" "unat (drop_bit 1 r) = unat r div 2"
    by (simp_all only: unat_drop_bit_eq) (simp_all add: drop_bit_eq_div)
  have a: "unat (timeout t - drop_bit 3 (timeout t)) = unat (timeout t) - unat (timeout t) div 8"
    using d(1) by (subst unat_sub_le) simp_all
  have b: "unat (timeout t - drop_bit 3 (timeout t) + drop_bit 1 r) = unat (timeout t) - unat (timeout t) div 8 + unat r div 2"
    using assms(4) a d(2) by (subst unat_add_nowrap) (simp_all add: r_def)
  have "7 \<le> x - x div 8" if "7 \<le> x" for x :: nat using that by linarith
  then have "7 \<le> unat (timeout t) - unat (timeout t) div 8" using assms(3) .
  then show ?thesis using assms(1,2) b by (simp add: stop_fields_def Let_def r_def)
qed

theorem stop_timer_smoothing_witness:
  "unat (timeout (stop_fields 25 (timer_of one_timer 16))) = 17"
  using stop_timer_smoothing [of "timer_of one_timer 16" 25] by (simp add: one_timer_def)

end
