(* ===== verification/Tcp.thy ===== *)
theory Tcp
  imports Tcpip Retry
begin

text \<open>
  The TCP protocol (\<open>src/src/net/tcp.c\<close>, \<open>src/src/include/ipxe/tcp.h\<close>).  A connection is the record
  \<open>tcp_conn\<close>; the handlers work on \<open>tcp_ctx\<close>, a connection together with the global count of pending
  operations and the log of what the handler hands to other code: data and close notifications for the
  application, segments for the network layer.  I/O buffers on the queues are their contents (theory
  \<open>Iobuf\<close> relates the two); an entry of the receive queue carries the internal header
  \<open>tcp_rx_queued_header\<close>.  What other code answers (clock, application window, success of allocation
  and transmission, result of delivery, random numbers) is the record \<open>tcp_env\<close>; application code that
  calls back into TCP does so in a later event.  The reference counts that keep a connection structure
  alive are not represented: \<open>deleted\<close> records that the connection has left the list of connections.
\<close>

section \<open>Constants\<close>

definition TCP_ACK :: u32 where "TCP_ACK = 0x10"
definition TCP_PSH :: u32 where "TCP_PSH = 0x08"
definition TCP_RST :: u32 where "TCP_RST = 0x04"
definition TCP_SYN :: u32 where "TCP_SYN = 0x02"
definition TCP_FIN :: u32 where "TCP_FIN = 0x01"

definition TCP_STATE_SENT :: "u32 \<Rightarrow> u32" where "TCP_STATE_SENT flags = push_bit 0 flags"
definition TCP_FLAGS_SENT :: "u32 \<Rightarrow> u32" where "TCP_FLAGS_SENT state = drop_bit 0 state AND 0xff"
definition TCP_STATE_ACKED :: "u32 \<Rightarrow> u32" where "TCP_STATE_ACKED flags = push_bit 8 flags"
definition TCP_FLAGS_ACKED :: "u32 \<Rightarrow> u32" where "TCP_FLAGS_ACKED state = drop_bit 8 state AND 0xff"
definition TCP_STATE_RCVD :: "u32 \<Rightarrow> u32" where "TCP_STATE_RCVD flags = push_bit 16 flags"
definition TCP_FLAGS_SENDING :: "u32 \<Rightarrow> u32" where
  "TCP_FLAGS_SENDING state = TCP_FLAGS_SENT state AND NOT (TCP_FLAGS_ACKED state)"

definition TCP_CLOSED :: u32 where "TCP_CLOSED = TCP_RST"
definition TCP_LISTEN :: u32 where "TCP_LISTEN = 0"
definition TCP_SYN_SENT :: u32 where "TCP_SYN_SENT = TCP_STATE_SENT TCP_SYN"
definition TCP_SYN_RCVD :: u32 where
  "TCP_SYN_RCVD = TCP_STATE_SENT (TCP_SYN OR TCP_ACK) OR TCP_STATE_RCVD TCP_SYN"
definition TCP_ESTABLISHED :: u32 where
  "TCP_ESTABLISHED = TCP_STATE_SENT (TCP_SYN OR TCP_ACK) OR TCP_STATE_ACKED TCP_SYN OR TCP_STATE_RCVD TCP_SYN"
definition TCP_FIN_WAIT_1 :: u32 where
  "TCP_FIN_WAIT_1 = TCP_STATE_SENT (TCP_SYN OR TCP_ACK OR TCP_FIN) OR TCP_STATE_ACKED TCP_SYN OR TCP_STATE_RCVD TCP_SYN"
definition TCP_FIN_WAIT_2 :: u32 where
  "TCP_FIN_WAIT_2 = TCP_STATE_SENT (TCP_SYN OR TCP_ACK OR TCP_FIN) OR TCP_STATE_ACKED (TCP_SYN OR TCP_FIN) OR
     TCP_STATE_RCVD TCP_SYN"
definition TCP_CLOSING_OR_LAST_ACK :: u32 where
  "TCP_CLOSING_OR_LAST_ACK = TCP_STATE_SENT (TCP_SYN OR TCP_ACK OR TCP_FIN) OR TCP_STATE_ACKED TCP_SYN OR
     TCP_STATE_RCVD (TCP_SYN OR TCP_FIN)"
definition TCP_TIME_WAIT :: u32 where
  "TCP_TIME_WAIT = TCP_STATE_SENT (TCP_SYN OR TCP_ACK OR TCP_FIN) OR TCP_STATE_ACKED (TCP_SYN OR TCP_FIN) OR
     TCP_STATE_RCVD (TCP_SYN OR TCP_FIN)"
definition TCP_CLOSE_WAIT :: u32 where
  "TCP_CLOSE_WAIT = TCP_STATE_SENT (TCP_SYN OR TCP_ACK) OR TCP_STATE_ACKED TCP_SYN OR
     TCP_STATE_RCVD (TCP_SYN OR TCP_FIN)"

definition TCP_CAN_SEND_DATA :: "u32 \<Rightarrow> bool" where
  "TCP_CAN_SEND_DATA state \<longleftrightarrow>
     state AND (TCP_STATE_ACKED TCP_SYN OR TCP_STATE_SENT TCP_FIN) = TCP_STATE_ACKED TCP_SYN"
definition TCP_HAS_BEEN_ESTABLISHED :: "u32 \<Rightarrow> bool" where
  "TCP_HAS_BEEN_ESTABLISHED state \<longleftrightarrow>
     state AND (TCP_STATE_ACKED TCP_SYN OR TCP_STATE_RCVD TCP_SYN) = TCP_STATE_ACKED TCP_SYN OR TCP_STATE_RCVD TCP_SYN"
definition TCP_CLOSED_GRACEFULLY :: "u32 \<Rightarrow> bool" where
  "TCP_CLOSED_GRACEFULLY state \<longleftrightarrow>
     state AND (TCP_STATE_ACKED TCP_FIN OR TCP_STATE_RCVD TCP_FIN) = TCP_STATE_ACKED TCP_FIN OR TCP_STATE_RCVD TCP_FIN"

definition TCP_XFER_CLOSED :: u32 where "TCP_XFER_CLOSED = 0x0001"
definition TCP_TS_ENABLED :: u32 where "TCP_TS_ENABLED = 0x0002"
definition TCP_ACK_PENDING :: u32 where "TCP_ACK_PENDING = 0x0004"

definition TCP_MAX_WINDOW_SIZE :: u32 where "TCP_MAX_WINDOW_SIZE = 256 * 1024"
definition TCP_PATH_MTU :: u32 where "TCP_PATH_MTU = 1460"
definition TCP_MSS :: u16 where "TCP_MSS = 1460"
definition TCP_MSL :: "u32 \<Rightarrow> u32" where "TCP_MSL tps = 2 * 60 * tps"
definition TCP_RX_WINDOW_SCALE :: byte where "TCP_RX_WINDOW_SCALE = 9"
definition TCP_MASK_HLEN :: byte where "TCP_MASK_HLEN = 0xf0"
definition LISTEN_PORT :: u32 where "LISTEN_PORT = 45501"

definition TCP_OPTION_END :: byte where "TCP_OPTION_END = 0"
definition TCP_OPTION_NOP :: byte where "TCP_OPTION_NOP = 1"
definition TCP_OPTION_MSS :: byte where "TCP_OPTION_MSS = 2"
definition TCP_OPTION_WS :: byte where "TCP_OPTION_WS = 3"
definition TCP_OPTION_TS :: byte where "TCP_OPTION_TS = 8"

definition tcp_cmp :: "u32 \<Rightarrow> u32 \<Rightarrow> int" where
  "tcp_cmp seq1 seq2 = sint (seq1 - seq2)"

definition tcp_in_window :: "u32 \<Rightarrow> u32 \<Rightarrow> u32 \<Rightarrow> bool" where
  "tcp_in_window seq first len \<longleftrightarrow> seq - first < len"

section \<open>State\<close>

record sockaddr =
  st_addr :: nat
  st_port :: u16

record rx_packet =
  qseq :: u32
  qflags :: u32
  qdata :: "byte list"

record tcp_conn =
  cflags :: u32
  peer :: sockaddr
  local_port :: u32
  tstate :: u32
  prev_state :: u32
  snd_seq :: u32
  snd_sent :: u32
  snd_win :: u32
  rcv_ack :: u32
  rcv_win :: u32
  ts_val :: u32
  ts_recent :: u32
  snd_win_scale :: byte
  rcv_win_scale :: byte
  max_rcv_win :: u32
  tx_queue :: "byte list list"
  rx_queue :: "rx_packet list"
  timer :: retry_timer
  wait :: retry_timer
  pending_flags :: u32
  pending_data :: u32
  new_tcp_created :: u32
  deleted :: bool

datatype tcp_event =
    Deliver "byte list"
  | XferClose rc
  | Xmit sockaddr "byte list"
  | WindowChanged
  | OpenChild ptr
  | PlugParent

record tcp_ctx = tcp_conn +
  ptotal :: u32
  log :: "tcp_event list"

record tcp_env =
  now :: u32
  tps :: u32
  app_window :: u32
  alloc_ok :: bool
  tx_rc :: rc
  deliver_rc :: "byte list \<Rightarrow> rc"
  rnd :: u32
  rnd_port :: u32
  fresh :: ptr
  slack :: "nat \<Rightarrow> byte"

record tcp_options =
  mssopt :: "nat option"
  wsopt :: "nat option"
  tsopt :: "nat option"

text \<open>A structure fresh from \<open>zalloc()\<close>.\<close>

definition zero_timer :: retry_timer where
  "zero_timer = \<lparr>running = False, timeout = 0, min_timeout = 0, max_timeout = 0, start = 0, tcount = 0, trefcnt = 0\<rparr>"

definition zero_conn :: tcp_conn where
  "zero_conn = \<lparr>cflags = 0, peer = \<lparr>st_addr = 0, st_port = 0\<rparr>, local_port = 0, tstate = 0, prev_state = 0,
     snd_seq = 0, snd_sent = 0, snd_win = 0, rcv_ack = 0, rcv_win = 0, ts_val = 0, ts_recent = 0,
     snd_win_scale = 0, rcv_win_scale = 0, max_rcv_win = 0, tx_queue = [], rx_queue = [],
     timer = zero_timer, wait = zero_timer, pending_flags = 0, pending_data = 0, new_tcp_created = 0,
     deleted = False\<rparr>"

definition emit :: "tcp_event \<Rightarrow> 'a tcp_ctx_scheme \<Rightarrow> 'a tcp_ctx_scheme" where
  "emit e c = c\<lparr>log := log c @ [e]\<rparr>"

definition pend_get_flags :: "'a tcp_ctx_scheme \<Rightarrow> 'a tcp_ctx_scheme" where
  "pend_get_flags c = c\<lparr>pending_flags := pending_flags c + 1, ptotal := ptotal c + 1\<rparr>"

definition pend_put_flags :: "'a tcp_ctx_scheme \<Rightarrow> 'a tcp_ctx_scheme" where
  "pend_put_flags c = (if pending_flags c \<noteq> 0
     then c\<lparr>ptotal := ptotal c - 1, pending_flags := pending_flags c - 1\<rparr> else c)"

definition pend_get_data :: "'a tcp_ctx_scheme \<Rightarrow> 'a tcp_ctx_scheme" where
  "pend_get_data c = c\<lparr>pending_data := pending_data c + 1, ptotal := ptotal c + 1\<rparr>"

definition pend_put_data :: "'a tcp_ctx_scheme \<Rightarrow> 'a tcp_ctx_scheme" where
  "pend_put_data c = (if pending_data c \<noteq> 0
     then c\<lparr>ptotal := ptotal c - 1, pending_data := pending_data c - 1\<rparr> else c)"

definition tcp_dump_state :: "'a tcp_conn_scheme \<Rightarrow> 'a tcp_conn_scheme" where
  "tcp_dump_state c = c\<lparr>prev_state := tstate c\<rparr>"

section \<open>Transmit data path\<close>

definition tcp_xmit_win :: "'a tcp_conn_scheme \<Rightarrow> u32" where
  "tcp_xmit_win c =
     (if \<not> TCP_CAN_SEND_DATA (tstate c) then 0
      else let len = snd_win c in if len > TCP_PATH_MTU then TCP_PATH_MTU else len)"

definition tcp_xfer_window :: "'a tcp_conn_scheme \<Rightarrow> u32" where
  "tcp_xfer_window c = (if tx_queue c \<noteq> [] then 0 else tcp_xmit_win c)"

text \<open>The walk over the transmit queue: the length processed, the bytes copied, the queue that is left and
  the number of buffers freed.\<close>

fun tx_walk :: "u32 \<Rightarrow> bool \<Rightarrow> byte list list \<Rightarrow> u32 \<times> byte list \<times> byte list list \<times> nat" where
  "tx_walk max_len remove [] = (0, [], [], 0)"
| "tx_walk max_len remove (iobuf # queue) =
     (let frag_len = of_nat (length iobuf);
          frag_len = (if frag_len > max_len then max_len else frag_len);
          (len, data, queue', n) = tx_walk (max_len - frag_len) remove queue;
          rest = (if remove then drop (unat frag_len) iobuf else iobuf)
      in (frag_len + len, take (unat frag_len) iobuf @ data,
          if remove \<and> rest = [] then queue' else rest # queue',
          if remove \<and> rest = [] then Suc n else n))"

definition tcp_process_tx_queue :: "u32 \<Rightarrow> bool \<Rightarrow> 'a tcp_ctx_scheme \<Rightarrow> u32 \<times> byte list \<times> 'a tcp_ctx_scheme" where
  "tcp_process_tx_queue max_len remove c =
     (let (len, data, queue, n) = tx_walk max_len remove (tx_queue c)
      in (len, data, (pend_put_data ^^ n) (c\<lparr>tx_queue := queue\<rparr>)))"

text \<open>The TCP header with the given fields (the ports as they are stored, the rest in host order) and the
  options of an outgoing segment, in the order they appear on the wire.\<close>

definition tcp_header_bytes :: "u16 \<Rightarrow> u16 \<Rightarrow> u32 \<Rightarrow> u32 \<Rightarrow> byte \<Rightarrow> byte \<Rightarrow> u16 \<Rightarrow> u16 \<Rightarrow> byte list" where
  "tcp_header_bytes src dest seq ack hlen flags win csum =
     stored16 src @ stored16 dest @ stored32 (htonl seq) @ stored32 (htonl ack) @
     [hlen, flags] @ stored16 (htons win) @ stored16 csum @ stored16 0"

definition mss_option_bytes :: "byte list" where
  "mss_option_bytes = [TCP_OPTION_MSS, 4] @ stored16 (htons TCP_MSS)"

definition ws_option_bytes :: "byte list" where
  "ws_option_bytes = [TCP_OPTION_NOP, TCP_OPTION_WS, 3, TCP_RX_WINDOW_SCALE]"

definition ts_option_bytes :: "u32 \<Rightarrow> u32 \<Rightarrow> byte list" where
  "ts_option_bytes tsval tsecr =
     [TCP_OPTION_NOP, TCP_OPTION_NOP, TCP_OPTION_TS, 10] @ stored32 (htonl tsval) @ stored32 (htonl tsecr)"

definition expand_rcv_win :: "tcp_env \<Rightarrow> 'a tcp_conn_scheme \<Rightarrow> 'a tcp_conn_scheme" where
  "expand_rcv_win env c =
     (let max_win = max_rcv_win c;
          app_win = app_window env;
          max_win = (if max_win > app_win then app_win else max_win);
          max_representable_win = push_bit (unat (rcv_win_scale c)) 0xffff;
          max_win = (if max_win > max_representable_win then max_representable_win else max_win);
          max_win = max_win AND NOT 0x03
      in if rcv_win c < max_win then c\<lparr>rcv_win := max_win\<rparr> else c)"

definition build_segment :: "tcp_env \<Rightarrow> u32 \<Rightarrow> u32 \<Rightarrow> byte list \<Rightarrow> 'a tcp_conn_scheme \<Rightarrow> byte list" where
  "build_segment env flags len payload c =
     (let opts = (if flags AND TCP_SYN \<noteq> 0 then ws_option_bytes @ mss_option_bytes else []);
          opts = (if flags AND TCP_SYN \<noteq> 0 \<or> cflags c AND TCP_TS_ENABLED \<noteq> 0
                  then ts_option_bytes (now env) (ts_recent c) @ opts else opts);
          flags = (if len \<noteq> 0 then flags OR TCP_PSH else flags);
          header = tcp_header_bytes (htons (ucast (local_port c))) (st_port (peer c)) (snd_seq c) (rcv_ack c)
                     (push_bit 2 (of_nat (20 + length opts))) (ucast flags)
                     (ucast (drop_bit (unat (rcv_win_scale c)) (rcv_win c)));
          csum = tcpip_chksum (header 0 @ opts @ payload)
      in header csum @ opts @ payload)"

definition tcp_xmit :: "tcp_env \<Rightarrow> 'a tcp_ctx_scheme \<Rightarrow> rc \<times> 'a tcp_ctx_scheme" where
  "tcp_xmit env c =
     (if running (timer c) then (None, c)
      else let
        len = (if TCP_CAN_SEND_DATA (tstate c) then fst (tcp_process_tx_queue (tcp_xmit_win c) False c) else 0);
        flags = TCP_FLAGS_SENDING (tstate c);
        seq_len = (if flags AND (TCP_SYN OR TCP_FIN) \<noteq> 0 then len + 1 else len);
        c = c\<lparr>snd_sent := seq_len\<rparr>
      in if seq_len = 0 \<and> cflags c AND TCP_ACK_PENDING = 0 then (None, c)
         else let
           c = (if seq_len \<noteq> 0 then c\<lparr>timer := start_fields (tps env) (now env) (timer c)\<rparr> else c)
         in if \<not> alloc_ok env then (Some ENOMEM, c)
            else let
              payload = fst (snd (tcp_process_tx_queue len False c));
              c = expand_rcv_win env c;
              c = emit (Xmit (peer c) (build_segment env flags len payload c)) c
            in if tx_rc env \<noteq> None then (tx_rc env, c)
               else (None, c\<lparr>cflags := cflags c AND NOT TCP_ACK_PENDING\<rparr>))"

definition tcp_xmit_reset :: "tcp_env \<Rightarrow> sockaddr \<Rightarrow> u16 \<Rightarrow> u16 \<Rightarrow> u32 \<Rightarrow> u32 \<Rightarrow> rc \<times> tcp_event list" where
  "tcp_xmit_reset env st_dest in_src in_dest in_seq in_ack =
     (if \<not> alloc_ok env then (Some ENOMEM, [])
      else let
        header = tcp_header_bytes in_dest in_src in_ack in_seq (push_bit 4 (20 div 4))
                   (ucast (TCP_RST OR TCP_ACK)) 0;
        csum = tcpip_chksum (header 0)
      in (tx_rc env, [Xmit st_dest (header csum)]))"

section \<open>Receive data path\<close>

definition tcp_rx_seq :: "u32 \<Rightarrow> 'a tcp_conn_scheme \<Rightarrow> 'a tcp_conn_scheme" where
  "tcp_rx_seq seq_len c =
     (let c = c\<lparr>rcv_ack := rcv_ack c + seq_len\<rparr>;
          c = (if rcv_win c > seq_len then c\<lparr>rcv_win := rcv_win c - seq_len\<rparr> else c\<lparr>rcv_win := 0\<rparr>);
          c = c\<lparr>ts_recent := ts_val c\<rparr>
      in c\<lparr>cflags := cflags c OR TCP_ACK_PENDING\<rparr>)"

text \<open>Option parsing.  The memory from the options on is a function of the offset; it goes on after the
  packet, where it holds whatever the buffer held before.  Offsets stand for pointers.\<close>

partial_function (option) rx_opts_loop :: "(nat \<Rightarrow> byte) \<Rightarrow> nat \<Rightarrow> nat \<Rightarrow> tcp_options \<Rightarrow> tcp_options option" where
  "rx_opts_loop data pos len options =
     (if pos < len then
        let kind = data pos in
          if kind = TCP_OPTION_END then Some options
          else if kind = TCP_OPTION_NOP then rx_opts_loop data (pos + 1) len options
          else let options = (if kind = TCP_OPTION_MSS then options\<lparr>mssopt := Some pos\<rparr>
                              else if kind = TCP_OPTION_WS then options\<lparr>wsopt := Some pos\<rparr>
                              else if kind = TCP_OPTION_TS then options\<lparr>tsopt := Some pos\<rparr>
                              else options)
               in rx_opts_loop data (pos + unat (data (pos + 1))) len options
      else Some options)"

definition tcp_rx_opts :: "(nat \<Rightarrow> byte) \<Rightarrow> nat \<Rightarrow> tcp_options option" where
  "tcp_rx_opts data len = rx_opts_loop data 0 len \<lparr>mssopt = None, wsopt = None, tsopt = None\<rparr>"

definition tcp_rx_syn :: "u32 \<Rightarrow> bool \<Rightarrow> byte option \<Rightarrow> 'a tcp_conn_scheme \<Rightarrow> 'a tcp_conn_scheme" where
  "tcp_rx_syn seq ts scale c =
     (let c = (if tstate c AND TCP_STATE_RCVD TCP_SYN = 0 then
                 let c = c\<lparr>rcv_ack := seq\<rparr>;
                     c = (if ts then c\<lparr>cflags := cflags c OR TCP_TS_ENABLED\<rparr> else c)
                 in case scale of None \<Rightarrow> c
                    | Some s \<Rightarrow> c\<lparr>snd_win_scale := s, rcv_win_scale := TCP_RX_WINDOW_SCALE\<rparr>
               else c)
      in if seq \<noteq> rcv_ack c then c
         else let c = tcp_rx_seq 1 c
              in if tstate c = TCP_LISTEN
                 then c\<lparr>tstate := tstate c OR (TCP_STATE_SENT (TCP_SYN OR TCP_ACK) OR TCP_STATE_RCVD TCP_SYN)\<rparr>
                 else c\<lparr>tstate := tstate c OR (TCP_STATE_SENT TCP_ACK OR TCP_STATE_RCVD TCP_SYN)\<rparr>)"

definition tcp_rx_ack :: "tcp_env \<Rightarrow> u32 \<Rightarrow> u32 \<Rightarrow> 'a tcp_ctx_scheme \<Rightarrow> rc \<times> 'a tcp_ctx_scheme" where
  "tcp_rx_ack env ack win c =
     (let ack_len = ack - snd_seq c in
      if ack_len > snd_sent c then
        (if TCP_HAS_BEEN_ESTABLISHED (tstate c) then (None, c) else (Some EINVAL, c))
      else if ack_len = 0 then (None, c)
      else let
        c = c\<lparr>timer := stop_fields (now env) (timer c)\<rparr>;
        acked_flags = TCP_FLAGS_SENDING (tstate c) AND (TCP_SYN OR TCP_FIN);
        len = (if acked_flags \<noteq> 0 then ack_len - 1 else ack_len);
        c = (if acked_flags \<noteq> 0 then pend_put_flags c else c);
        c = c\<lparr>snd_seq := ack, snd_sent := 0, snd_win := win\<rparr>;
        c = snd (snd (tcp_process_tx_queue len True c));
        c = (if acked_flags \<noteq> 0 then c\<lparr>tstate := tstate c OR TCP_STATE_ACKED acked_flags\<rparr> else c);
        c = (if tx_queue c = [] \<and> cflags c AND TCP_XFER_CLOSED \<noteq> 0 \<and> tstate c AND TCP_STATE_SENT TCP_FIN = 0
             then pend_get_flags (c\<lparr>tstate := tstate c OR TCP_STATE_SENT TCP_FIN\<rparr>) else c)
      in (None, c))"

section \<open>Open and close\<close>

definition tcp_close :: "tcp_env \<Rightarrow> rc \<Rightarrow> 'a tcp_ctx_scheme \<Rightarrow> 'a tcp_ctx_scheme" where
  "tcp_close env rc c =
     (let c = emit (XferClose rc) c;
          c = c\<lparr>cflags := cflags c OR TCP_XFER_CLOSED\<rparr>
      in if tstate c AND TCP_STATE_RCVD TCP_SYN = 0 then
           let c = tcp_dump_state (c\<lparr>tstate := TCP_CLOSED\<rparr>);
               c = c\<lparr>rx_queue := []\<rparr>;
               n = length (tx_queue c);
               c = (pend_put_data ^^ n) (c\<lparr>tx_queue := []\<rparr>);
               c = pend_put_flags (pend_put_flags c);
               c = c\<lparr>timer := stop_fields (now env) (timer c)\<rparr>;
               c = c\<lparr>wait := stop_fields (now env) (wait c)\<rparr>
           in c\<lparr>deleted := True\<rparr>
         else
           let c = (if tstate c AND TCP_STATE_ACKED TCP_SYN = 0 then snd (tcp_rx_ack env (snd_seq c + 1) 0 c) else c)
           in if tx_queue c = [] \<and> tstate c AND TCP_STATE_SENT TCP_FIN = 0
              then pend_get_flags (tcp_dump_state (c\<lparr>tstate := tstate c OR TCP_STATE_SENT TCP_FIN\<rparr>))
              else c)"

section \<open>Receive data path, continued\<close>

definition tcp_rx_data :: "tcp_env \<Rightarrow> u32 \<Rightarrow> byte list \<Rightarrow> 'a tcp_ctx_scheme \<Rightarrow> rc \<times> 'a tcp_ctx_scheme" where
  "tcp_rx_data env seq iobuf c =
     (let already_rcvd = rcv_ack c - seq;
          len = of_nat (length iobuf)
      in if already_rcvd \<ge> len then (None, c)
         else let iobuf = drop (unat already_rcvd) iobuf;
                  len = len - already_rcvd;
                  c = tcp_rx_seq len c;
                  c = emit (Deliver iobuf) c
              in (deliver_rc env iobuf, c))"

definition tcp_rx_fin :: "tcp_env \<Rightarrow> u32 \<Rightarrow> 'a tcp_ctx_scheme \<Rightarrow> rc \<times> 'a tcp_ctx_scheme" where
  "tcp_rx_fin env seq c =
     (if seq \<noteq> rcv_ack c then (None, c)
      else let c = tcp_rx_seq 1 c;
               c = c\<lparr>tstate := tstate c OR TCP_STATE_RCVD TCP_FIN\<rparr>
           in (None, tcp_close env None c))"

definition tcp_rx_rst :: "tcp_env \<Rightarrow> u32 \<Rightarrow> 'a tcp_ctx_scheme \<Rightarrow> rc \<times> 'a tcp_ctx_scheme" where
  "tcp_rx_rst env seq c =
     (if (if tstate c AND TCP_STATE_RCVD TCP_SYN \<noteq> 0
          then \<not> tcp_in_window seq (rcv_ack c) (rcv_win c)
          else tstate c AND TCP_STATE_ACKED TCP_SYN = 0)
      then (None, c)
      else let c = tcp_dump_state (c\<lparr>tstate := TCP_CLOSED\<rparr>)
           in (Some ECONNRESET, tcp_close env (Some ECONNRESET) c))"

fun rx_insert :: "rx_packet \<Rightarrow> rx_packet list \<Rightarrow> rx_packet list" where
  "rx_insert p [] = [p]"
| "rx_insert p (q # queue) = (if tcp_cmp (qseq p) (qseq q) < 0 then p # q # queue else q # rx_insert p queue)"

definition tcp_rx_enqueue :: "u32 \<Rightarrow> u32 \<Rightarrow> byte list \<Rightarrow> 'a tcp_conn_scheme \<Rightarrow> 'a tcp_conn_scheme" where
  "tcp_rx_enqueue seq flags iobuf c =
     (let flags = flags AND TCP_FIN;
          len = of_nat (length iobuf);
          seq_len = len + (if flags \<noteq> 0 then 1 else 0)
      in if tstate c AND TCP_STATE_RCVD TCP_SYN = 0 \<or>
            tcp_cmp seq (rcv_ack c + rcv_win c) \<ge> 0 \<or>
            tcp_cmp (seq + seq_len) (rcv_ack c) < 0 \<or>
            seq_len = 0
         then c
         else c\<lparr>rx_queue := rx_insert \<lparr>qseq = seq, qflags = flags, qdata = iobuf\<rparr> (rx_queue c)\<rparr>)"

lemma rx_queue_simps [simp]:
  "rx_queue (tcp_rx_seq n c) = rx_queue c" "rx_queue (emit e d) = rx_queue d"
  "rx_queue (pend_put_flags d) = rx_queue d" "rx_queue (pend_get_flags d) = rx_queue d"
  "rx_queue ((pend_put_data ^^ k) d) = rx_queue d"
  "rx_queue (tcp_dump_state c) = rx_queue c"
  by (induction k)
    (simp_all add: tcp_rx_seq_def emit_def pend_put_flags_def pend_get_flags_def pend_put_data_def
      tcp_dump_state_def Let_def)

lemma rx_queue_tx [simp]: "rx_queue (snd (snd (tcp_process_tx_queue n r d))) = rx_queue d"
  by (simp add: tcp_process_tx_queue_def split_beta)

lemma rx_queue_ack [simp]: "rx_queue (snd (tcp_rx_ack env ack win c)) = rx_queue c"
  by (simp add: tcp_rx_ack_def Let_def)

lemma rx_queue_close: "length (rx_queue (tcp_close env rc c)) \<le> length (rx_queue c)"
  by (simp add: tcp_close_def Let_def)

lemma rx_queue_data [simp]: "rx_queue (snd (tcp_rx_data env seq iobuf c)) = rx_queue c"
  by (simp add: tcp_rx_data_def Let_def)

lemma rx_queue_fin: "length (rx_queue (snd (tcp_rx_fin env seq c))) \<le> length (rx_queue c)"
  using rx_queue_close [of env None "(tcp_rx_seq 1 c)\<lparr>tstate := tstate (tcp_rx_seq 1 c) OR TCP_STATE_RCVD TCP_FIN\<rparr>"]
  by (simp add: tcp_rx_fin_def Let_def)

function tcp_process_rx_queue :: "tcp_env \<Rightarrow> 'a tcp_ctx_scheme \<Rightarrow> 'a tcp_ctx_scheme" where
  "tcp_process_rx_queue env c =
     (case rx_queue c of
        [] \<Rightarrow> c
      | iobuf # queue \<Rightarrow>
          if tcp_cmp (qseq iobuf) (rcv_ack c) > 0 then c
          else let c = c\<lparr>rx_queue := queue\<rparr>;
                   seq = qseq iobuf;
                   len = of_nat (length (qdata iobuf));
                   c = snd (tcp_rx_data env seq (qdata iobuf) c);
                   seq = seq + len;
                   c = (if qflags iobuf AND TCP_FIN \<noteq> 0 then snd (tcp_rx_fin env seq c) else c)
               in tcp_process_rx_queue env c)"
  by pat_completeness auto
termination
proof (relation "measure (\<lambda>(env, c). length (rx_queue c))", goal_cases)
  case (2 env c p queue c1 seq len c2 seq2 c3)
  have "rx_queue c2 = queue" using 2 by simp
  then have "length (rx_queue c3) \<le> length queue" using 2 rx_queue_fin [of env seq2 c2] by simp
  then show ?case using 2 by simp
qed simp

declare tcp_process_rx_queue.simps [simp del]

section \<open>The list of connections\<close>

record tcp_world =
  conns :: "(ptr \<times> tcp_conn) list"
  listener :: ptr
  wtotal :: u32
  wlog :: "(ptr \<times> tcp_event) list"

definition set_conn :: "ptr \<Rightarrow> tcp_conn \<Rightarrow> (ptr \<times> tcp_conn) list \<Rightarrow> (ptr \<times> tcp_conn) list" where
  "set_conn p c cs = map (\<lambda>(q, d). if q = p then (q, c) else (q, d)) cs"

definition enter :: "tcp_conn \<Rightarrow> tcp_world \<Rightarrow> tcp_ctx" where
  "enter c w = tcp_conn.extend c (tcp_ctx.fields (wtotal w) [])"

definition leave :: "ptr \<Rightarrow> tcp_ctx \<Rightarrow> tcp_world \<Rightarrow> tcp_world" where
  "leave p c w =
     w\<lparr>conns := (if deleted c then filter (\<lambda>(q, d). q \<noteq> p) (conns w) else set_conn p (tcp_conn.truncate c) (conns w)),
       wtotal := ptotal c, wlog := wlog w @ map (Pair p) (log c)\<rparr>"

definition tcp_bind_port :: "u32 \<Rightarrow> (ptr \<times> tcp_conn) list \<Rightarrow> tcp_conn \<Rightarrow> rc \<times> tcp_conn" where
  "tcp_bind_port port cs c =
     (if \<exists>(p, existing) \<in> set cs. local_port existing = port then (Some EADDRINUSE, c)
      else (None, c\<lparr>local_port := port\<rparr>))"

fun bind_loop :: "nat \<Rightarrow> u16 \<Rightarrow> (ptr \<times> tcp_conn) list \<Rightarrow> tcp_conn \<Rightarrow> rc \<times> tcp_conn" where
  "bind_loop 0 try_port cs c = (Some EADDRINUSE, c)"
| "bind_loop (Suc n) try_port cs c =
     (let try_port = try_port + 1 in
      if try_port < 1024 then bind_loop n try_port cs c
      else case tcp_bind_port (ucast try_port) cs c of
        (None, c) \<Rightarrow> (None, c)
      | (Some _, c) \<Rightarrow> bind_loop n try_port cs c)"

definition tcp_bind :: "tcp_env \<Rightarrow> u32 \<Rightarrow> (ptr \<times> tcp_conn) list \<Rightarrow> tcp_conn \<Rightarrow> rc \<times> tcp_conn" where
  "tcp_bind env port cs c =
     (if port = 0 then bind_loop 65536 (ucast (rnd_port env)) cs c else tcp_bind_port port cs c)"

definition tcp_open :: "tcp_env \<Rightarrow> sockaddr \<Rightarrow> u16 option \<Rightarrow> tcp_world \<Rightarrow> rc \<times> tcp_world" where
  "tcp_open env st_peer st_local w =
     (let tcp = fresh env in
      if tcp = NULL then (Some ENOMEM, w)
      else let
        has_peer = (st_port st_peer \<noteq> 0);
        c = zero_conn\<lparr>prev_state := TCP_CLOSED\<rparr>;
        c = (if \<not> has_peer then c\<lparr>tstate := TCP_LISTEN\<rparr> else c\<lparr>tstate := TCP_STATE_SENT TCP_SYN\<rparr>);
        w = (if \<not> has_peer then w\<lparr>listener := tcp\<rparr> else w);
        c = tcp_dump_state c;
        c = c\<lparr>snd_seq := rnd env, max_rcv_win := TCP_MAX_WINDOW_SIZE\<rparr>;
        c = (if has_peer then c\<lparr>peer := st_peer\<rparr> else c);
        bind_port = (case st_local of Some port \<Rightarrow> ucast (ntohs port) | None \<Rightarrow> 0);
        bind_port = (if \<not> has_peer then LISTEN_PORT else bind_port)
      in case tcp_bind env bind_port (conns w) c of
           (Some rc, c) \<Rightarrow> (Some rc, w)
         | (None, c) \<Rightarrow>
             let c = (if has_peer then c\<lparr>timer := start_fixed_fields (tps env) (now env) 0 (timer c),
                                         pending_flags := pending_flags c + 1\<rparr> else c);
                 w = (if has_peer then w\<lparr>wtotal := wtotal w + 1\<rparr> else w)
             in (None, w\<lparr>conns := (tcp, c) # conns w, wlog := wlog w @ [(tcp, PlugParent)]\<rparr>))"

definition tcp_expired :: "tcp_env \<Rightarrow> bool \<Rightarrow> 'a tcp_ctx_scheme \<Rightarrow> 'a tcp_ctx_scheme" where
  "tcp_expired env over c =
     (if over then tcp_close env (Some ETIMEDOUT) (tcp_dump_state (c\<lparr>tstate := TCP_CLOSED\<rparr>))
      else snd (tcp_xmit env c))"

definition tcp_wait_expired :: "tcp_env \<Rightarrow> 'a tcp_ctx_scheme \<Rightarrow> 'a tcp_ctx_scheme" where
  "tcp_wait_expired env c = tcp_close env None (tcp_dump_state (c\<lparr>tstate := TCP_CLOSED\<rparr>))"

fun demux_loop :: "u32 \<Rightarrow> u32 \<Rightarrow> (ptr \<times> tcp_conn) option \<Rightarrow> (ptr \<times> tcp_conn) list \<Rightarrow>
    ptr + (ptr \<times> tcp_conn) option" where
  "demux_loop lport peer_port lst [] = Inr lst"
| "demux_loop lport peer_port lst ((p, c) # cs) =
     (let lst = (if tstate c = TCP_LISTEN then Some (p, c) else lst) in
      if local_port c = lport \<and> ucast (ntohs (st_port (peer c))) = peer_port \<and> peer_port \<noteq> 0 then Inl p
      else demux_loop lport peer_port lst cs)"

text \<open>The result \<open>None\<close> is the access through the NULL listener.\<close>

definition tcp_demux :: "u32 \<Rightarrow> u32 \<Rightarrow> (ptr \<times> tcp_conn) list \<Rightarrow> ptr option option" where
  "tcp_demux lport peer_port cs =
     (case demux_loop lport peer_port None cs of
        Inl p \<Rightarrow> Some (Some p)
      | Inr None \<Rightarrow> None
      | Inr (Some (p, c)) \<Rightarrow> Some (if local_port c = lport then Some p else None))"

section \<open>Received packets\<close>

definition field16 :: "byte list \<Rightarrow> nat \<Rightarrow> u16" where
  "field16 b i = ucast (b ! i) OR push_bit 8 (ucast (b ! (i + 1)))"

definition field32 :: "(nat \<Rightarrow> byte) \<Rightarrow> nat \<Rightarrow> u32" where
  "field32 m i = ucast (m i) OR push_bit 8 (ucast (m (i + 1))) OR push_bit 16 (ucast (m (i + 2))) OR
     push_bit 24 (ucast (m (i + 3)))"

text \<open>The header of a received segment in host order; the ports also as they are stored.\<close>

record tcp_segment =
  hsrc :: u16
  hdest :: u16
  hseq :: u32
  hack :: u32
  hflags :: u32
  hwin :: u16

definition parse_header :: "byte list \<Rightarrow> tcp_segment" where
  "parse_header b =
     \<lparr>hsrc = field16 b 0, hdest = field16 b 2, hseq = ntohl (field32 ((!) b) 4), hack = ntohl (field32 ((!) b) 8),
      hflags = ucast (b ! 13), hwin = ntohs (field16 b 14)\<rparr>"

definition header_len :: "byte list \<Rightarrow> nat" where
  "header_len b = unat ((b ! 12) AND TCP_MASK_HLEN) div 16 * 4"

definition rx_valid :: "u16 \<Rightarrow> byte list \<Rightarrow> bool" where
  "rx_valid pshdr_csum b \<longleftrightarrow>
     \<not> length b < 20 \<and> \<not> header_len b < 20 \<and> \<not> header_len b > length b \<and> tcpip_continue_chksum pshdr_csum b = 0"

text \<open>The connection that takes over from a connection in the LISTEN state, and the listening connection
  afterwards.\<close>

definition clone_conn :: "sockaddr \<Rightarrow> u16 \<Rightarrow> tcp_conn \<Rightarrow> tcp_conn" where
  "clone_conn st_src src tcp =
     (let new = zero_conn\<lparr>prev_state := prev_state tcp, tstate := tstate tcp\<rparr>;
          new = tcp_dump_state new;
          new = new\<lparr>tx_queue := [], rx_queue := [], local_port := LISTEN_PORT, peer := st_src\<lparr>st_port := src\<rparr>\<rparr>;
          new = new\<lparr>snd_seq := snd_seq tcp, snd_sent := snd_sent tcp, snd_win := snd_win tcp\<rparr>;
          new = new\<lparr>rcv_ack := rcv_ack tcp, rcv_win := rcv_win tcp, ts_val := ts_val tcp, ts_recent := ts_recent tcp\<rparr>;
          new = new\<lparr>snd_win_scale := snd_win_scale tcp, rcv_win_scale := rcv_win_scale tcp, max_rcv_win := max_rcv_win tcp\<rparr>
      in new\<lparr>pending_flags := pending_flags tcp, pending_data := pending_data tcp\<rparr>)"

definition reset_listener :: "tcp_env \<Rightarrow> tcp_conn \<Rightarrow> tcp_conn" where
  "reset_listener env tcp =
     (tcp_dump_state (tcp\<lparr>prev_state := TCP_CLOSED, tstate := TCP_LISTEN\<rparr>))
       \<lparr>snd_seq := rnd env, tx_queue := [], rx_queue := []\<rparr>"

text \<open>The effect of a segment on the connection it belongs to.\<close>

definition rx_handle_ack ::
  "tcp_env \<Rightarrow> ptr \<Rightarrow> sockaddr \<Rightarrow> tcp_segment \<Rightarrow> 'a tcp_ctx_scheme \<Rightarrow> rc \<times> 'a tcp_ctx_scheme" where
  "rx_handle_ack env lst st_src h c =
     (let win = push_bit (unat (snd_win_scale c)) (ucast (hwin h));
          (rc, c) = tcp_rx_ack env (hack h) win c
      in if rc \<noteq> None
         then (rc, c\<lparr>log := log c @ snd (tcp_xmit_reset env st_src (hsrc h) (hdest h) (hseq h) (hack h))\<rparr>)
         else if tstate c = TCP_ESTABLISHED \<and> prev_state c = TCP_SYN_RCVD \<and> new_tcp_created c = 0 \<and> lst \<noteq> NULL
         then (None, (emit (OpenChild lst) c)\<lparr>new_tcp_created := new_tcp_created c + 1\<rparr>)
         else (None, c))"

definition tcp_rx_finish :: "tcp_env \<Rightarrow> u32 \<Rightarrow> 'a tcp_ctx_scheme \<Rightarrow> 'a tcp_ctx_scheme" where
  "tcp_rx_finish env old_xfer_window c =
     (let c = tcp_dump_state (tcp_process_rx_queue env c);
          c = snd (tcp_xmit env c);
          c = (if TCP_CLOSED_GRACEFULLY (tstate c)
               then c\<lparr>wait := start_fixed_fields (tps env) (now env) (2 * TCP_MSL (tps env)) (stop_fields (now env) (wait c))\<rparr>
               else c)
      in if tcp_xfer_window c \<noteq> old_xfer_window then emit WindowChanged c else c)"

definition tcp_rx_conn ::
  "tcp_env \<Rightarrow> ptr \<Rightarrow> sockaddr \<Rightarrow> tcp_segment \<Rightarrow> bool \<Rightarrow> byte option \<Rightarrow> byte list \<Rightarrow> 'a tcp_ctx_scheme \<Rightarrow>
    rc \<times> 'a tcp_ctx_scheme" where
  "tcp_rx_conn env lst st_src h ts scale iobuf c =
     (let old_xfer_window = tcp_xfer_window c;
          (rc, c) = (if hflags h AND TCP_ACK \<noteq> 0 then rx_handle_ack env lst st_src h c else (None, c))
      in if rc \<noteq> None then (rc, c)
         else let
           c = (if tstate c AND TCP_STATE_RCVD TCP_SYN \<noteq> 0 \<and> hseq h \<noteq> rcv_ack c
                then c\<lparr>cflags := cflags c OR TCP_ACK_PENDING\<rparr> else c);
           c = (if hflags h AND TCP_SYN \<noteq> 0 then tcp_rx_syn (hseq h) ts scale c else c);
           seq = (if hflags h AND TCP_SYN \<noteq> 0 then hseq h + 1 else hseq h);
           (rc, c) = (if hflags h AND TCP_RST \<noteq> 0 then tcp_rx_rst env seq c else (None, c))
         in if rc \<noteq> None then (rc, c)
            else (None, tcp_rx_finish env old_xfer_window (tcp_rx_enqueue seq (hflags h) iobuf c)))"

text \<open>The memory from the options of a received segment on.\<close>

definition opt_memory :: "tcp_env \<Rightarrow> byte list \<Rightarrow> nat \<Rightarrow> byte" where
  "opt_memory env b i = (if 20 + i < length b then b ! (20 + i) else slack env (20 + i - length b))"

text \<open>The whole receive handler.  The result \<open>None\<close> is a call that does not return: the option parser loops
  or \<open>tcp_demux()\<close> follows the NULL pointer.\<close>

definition rx_dispatch ::
  "tcp_env \<Rightarrow> sockaddr \<Rightarrow> tcp_segment \<Rightarrow> bool \<Rightarrow> byte option \<Rightarrow> byte list \<Rightarrow> ptr \<Rightarrow> tcp_conn \<Rightarrow> tcp_world \<Rightarrow>
    rc \<times> tcp_world" where
  "rx_dispatch env st_src h ts scale iobuf p tcp w =
     (if tstate tcp = TCP_LISTEN then
        if fresh env = NULL then (Some ENOMEM, w)
        else let new = clone_conn st_src (hsrc h) tcp;
                 w = w\<lparr>conns := set_conn p (reset_listener env tcp) (conns w) @ [(fresh env, new)]\<rparr>;
                 (rc, c) = tcp_rx_conn env (listener w) st_src h ts scale iobuf (enter new w)
             in (rc, leave (fresh env) c w)
      else let (rc, c) = tcp_rx_conn env (listener w) st_src h ts scale iobuf (enter tcp w)
           in (rc, leave p c w))"

definition tcp_rx :: "tcp_env \<Rightarrow> byte list \<Rightarrow> sockaddr \<Rightarrow> u16 \<Rightarrow> tcp_world \<Rightarrow> (rc \<times> tcp_world) option" where
  "tcp_rx env b st_src pshdr_csum w =
     (if \<not> rx_valid pshdr_csum b then Some (Some EINVAL, w)
      else let
        h = parse_header b;
        hlen = header_len b;
        optmem = opt_memory env b;
        iobuf = drop hlen b
      in case tcp_demux (ucast (ntohs (hdest h))) (ucast (ntohs (hsrc h))) (conns w) of
           None \<Rightarrow> None
         | Some tcp \<Rightarrow>
             (case tcp_rx_opts optmem (hlen - 20) of
                None \<Rightarrow> None
              | Some options \<Rightarrow>
                  (case tcp of
                     None \<Rightarrow>
                       Some (Some ENOTCONN,
                         w\<lparr>wlog := wlog w @ map (Pair NULL)
                             (snd (tcp_xmit_reset env st_src (hsrc h) (hdest h) (hseq h) (hack h)))\<rparr>)
                   | Some p \<Rightarrow>
                       let c = the (map_of (conns w) p);
                           c = (case tsopt options of None \<Rightarrow> c
                                | Some pos \<Rightarrow> c\<lparr>ts_val := ntohl (field32 optmem (pos + 2))\<rparr>);
                           w = w\<lparr>conns := set_conn p c (conns w)\<rparr>
                       in Some (rx_dispatch env st_src h (tsopt options \<noteq> None)
                                  (map_option (\<lambda>pos. optmem (pos + 2)) (wsopt options)) iobuf p c w))))"

section \<open>Cache discard, shutdown and the data transfer interface\<close>

definition discard_conn :: "'a tcp_conn_scheme \<Rightarrow> nat \<times> 'a tcp_conn_scheme" where
  "discard_conn c =
     (if rx_queue c = [] then (0, c)
      else let max_win = qseq (last (rx_queue c)) - rcv_ack c;
               c = (if max_win < max_rcv_win c then c\<lparr>max_rcv_win := max_win\<rparr> else c)
           in (1, c\<lparr>rx_queue := butlast (rx_queue c)\<rparr>))"

definition tcp_discard :: "tcp_world \<Rightarrow> nat \<times> tcp_world" where
  "tcp_discard w =
     (sum_list (map (\<lambda>(p, c). fst (discard_conn c)) (conns w)),
      w\<lparr>conns := map (\<lambda>(p, c). (p, snd (discard_conn c))) (conns w)\<rparr>)"

lemma tcp_close_closed: "deleted (tcp_close env rc (tcp_dump_state (c\<lparr>tstate := TCP_CLOSED\<rparr>)))"
  by (simp add: tcp_close_def Let_def tcp_dump_state_def emit_def TCP_CLOSED_def TCP_RST_def TCP_STATE_RCVD_def TCP_SYN_def)

function tcp_shutdown :: "tcp_env \<Rightarrow> tcp_world \<Rightarrow> tcp_world" where
  "tcp_shutdown env w =
     (case conns w of
        [] \<Rightarrow> w
      | (p, c) # _ \<Rightarrow>
          tcp_shutdown env
            (leave p (tcp_close env (Some ECANCELED) (tcp_dump_state ((enter c w)\<lparr>tstate := TCP_CLOSED\<rparr>))) w))"
  by pat_completeness auto
termination
  by (relation "measure (\<lambda>(env, w). length (conns w))")
    (auto simp: leave_def tcp_close_closed le_imp_less_Suc)

declare tcp_shutdown.simps [simp del]

definition tcp_xfer_close :: "tcp_env \<Rightarrow> rc \<Rightarrow> 'a tcp_ctx_scheme \<Rightarrow> 'a tcp_ctx_scheme" where
  "tcp_xfer_close env rc c = snd (tcp_xmit env (tcp_close env rc c))"

definition tcp_xfer_deliver :: "tcp_env \<Rightarrow> byte list \<Rightarrow> 'a tcp_ctx_scheme \<Rightarrow> rc \<times> 'a tcp_ctx_scheme" where
  "tcp_xfer_deliver env iobuf c =
     (None, snd (tcp_xmit env (pend_get_data (c\<lparr>tx_queue := tx_queue c @ [iobuf]\<rparr>))))"

end
