(* ===== verification/Tcp_Invariant.thy ===== *)
theory Tcp_Invariant
  imports Tcp
begin

text \<open>
  The state invariant of TCP.  \<open>conn_ok\<close> relates the fields of one connection: data in flight has its
  retransmission timer running, only flags that were sent are acknowledged, the pending-operation counts
  agree with the transmit queue and the flags in flight, a listening connection is idle.  \<open>world_ok\<close>
  extends it to the list of connections and the global count of pending operations.  Every handler keeps
  it: the locale \<open>conn_handler\<close> is the contract between a handler on one connection and the list of
  connections, and the step relation \<open>tcp_step\<close> collects all events TCP reacts to.
\<close>

section \<open>The invariant\<close>

definition others :: "'a tcp_ctx_scheme \<Rightarrow> u32" where
  "others c = ptotal c - pending_flags c - pending_data c"

definition flags_ok :: "u32 \<Rightarrow> bool" where
  "flags_ok state \<longleftrightarrow> drop_bit 8 state AND NOT state AND 0xff = 0"

definition base_ok :: "'a tcp_conn_scheme \<Rightarrow> bool" where
  "base_ok c \<longleftrightarrow>
     \<not> deleted c \<and> length (concat (tx_queue c)) < 2 ^ 32 \<and> length (tx_queue c) < 2 ^ 32 \<and>
     pending_data c = of_nat (length (tx_queue c)) \<and> flags_ok (tstate c) \<and>
     pending_flags c \<le> (if tstate c AND TCP_STATE_SENT TCP_FIN = 0 then 1 else 2) \<and>
     (rx_queue c \<noteq> [] \<longrightarrow> tstate c AND TCP_STATE_RCVD TCP_SYN \<noteq> 0)"

definition conn_ok :: "'a tcp_conn_scheme \<Rightarrow> bool" where
  "conn_ok c \<longleftrightarrow> base_ok c \<and> (snd_sent c \<noteq> 0 \<longrightarrow> running (timer c)) \<and>
     (tstate c = TCP_LISTEN \<longrightarrow> tx_queue c = [] \<and> snd_sent c = 0 \<and> pending_flags c = 0)"

definition gone :: "'a tcp_conn_scheme \<Rightarrow> bool" where
  "gone c \<longleftrightarrow> deleted c \<and> pending_flags c = 0 \<and> pending_data c = 0"

definition tx_payload :: "'a tcp_conn_scheme \<Rightarrow> byte list" where
  "tx_payload c = take (unat (tcp_xmit_win c)) (concat (tx_queue c))"

definition seq_flags :: "'a tcp_conn_scheme \<Rightarrow> nat" where
  "seq_flags c = (if TCP_FLAGS_SENDING (tstate c) AND (TCP_SYN OR TCP_FIN) \<noteq> 0 then 1 else 0)"

definition armed :: "tcp_env \<Rightarrow> 'a tcp_conn_scheme \<Rightarrow> 'a tcp_conn_scheme" where
  "armed env c = (let n = length (tx_payload c) + seq_flags c
     in c\<lparr>snd_sent := of_nat n, timer := (if n \<noteq> 0 then start_fields (tps env) (now env) (timer c) else timer c)\<rparr>)"

definition held :: "ptr \<times> tcp_conn \<Rightarrow> u32" where
  "held pc = pending_flags (snd pc) + pending_data (snd pc)"

definition world_ok :: "u32 \<Rightarrow> tcp_world \<Rightarrow> bool" where
  "world_ok rest w \<longleftrightarrow> distinct (map fst (conns w)) \<and> (\<forall>(p, c) \<in> set (conns w). conn_ok c) \<and>
     wtotal w = rest + sum_list (map held (conns w))"

text \<open>What the invariant says of a connection, field by field.\<close>

definition conn_good :: "tcp_conn \<Rightarrow> bool" where
  "conn_good c \<longleftrightarrow>
      (snd_sent c \<noteq> 0 \<longrightarrow> running (timer c)) \<and>
      TCP_FLAGS_ACKED (tstate c) AND NOT (TCP_FLAGS_SENT (tstate c)) = 0 \<and>
      unat (pending_data c) = length (tx_queue c) \<and>
      unat (pending_flags c) \<le> (if tstate c AND TCP_STATE_SENT TCP_FIN = 0 then 1 else 2) \<and>
      (rx_queue c \<noteq> [] \<longrightarrow> tstate c AND TCP_STATE_RCVD TCP_SYN \<noteq> 0) \<and>
      (tstate c = TCP_LISTEN \<longrightarrow> tx_queue c = [] \<and> snd_sent c = 0 \<and> pending_flags c = 0)"

text \<open>Expiry of the two timers: \<open>timer_expired()\<close> of the retry timers, then the callback.\<close>

definition on_timer :: "tcp_env \<Rightarrow> tcp_ctx \<Rightarrow> tcp_ctx" where
  "on_timer env c = (let (over, t) = expire_fields (tps env) (timer c) in tcp_expired env over (c\<lparr>timer := t\<rparr>))"

definition on_wait :: "tcp_env \<Rightarrow> tcp_ctx \<Rightarrow> tcp_ctx" where
  "on_wait env c = tcp_wait_expired env (c\<lparr>wait := snd (expire_fields (tps env) (wait c))\<rparr>)"

text \<open>Everything that happens to TCP: opening a connection, a packet from the network, the timers of a
  connection, the application closing a connection or sending on a connection that is not listening (the
  data fits into the address space), discarding of cached packets, shutdown.  A structure fresh from
  \<open>zalloc()\<close> is not one that is in use.\<close>

inductive tcp_step :: "tcp_world \<Rightarrow> tcp_world \<Rightarrow> bool" where
  open_conn: "fresh env \<notin> fst ` set (conns w) \<Longrightarrow> tcp_step w (snd (tcp_open env st_peer st_local w))"
| receive: "fresh env \<notin> fst ` set (conns w) \<Longrightarrow> tcp_rx env b src csum w = Some (rc, w') \<Longrightarrow> tcp_step w w'"
| timer: "map_of (conns w) p = Some c \<Longrightarrow> tcp_step w (leave p (on_timer env (enter c w)) w)"
| wait_timer: "map_of (conns w) p = Some c \<Longrightarrow> tcp_step w (leave p (on_wait env (enter c w)) w)"
| app_close: "map_of (conns w) p = Some c \<Longrightarrow> tcp_step w (leave p (tcp_xfer_close env rc (enter c w)) w)"
| app_deliver: "map_of (conns w) p = Some c \<Longrightarrow> tstate c \<noteq> TCP_LISTEN \<Longrightarrow>
    length (concat (tx_queue c)) + length iobuf < 2 ^ 32 \<Longrightarrow> length (tx_queue c) + 1 < 2 ^ 32 \<Longrightarrow>
    tcp_step w (leave p (snd (tcp_xfer_deliver env iobuf (enter c w))) w)"
| discard: "tcp_step w (snd (tcp_discard w))"
| shutdown: "tcp_step w (tcp_shutdown env w)"

section \<open>Transmit queue and frame lemmas\<close>

lemma tx_walk_spec:
  "length (concat q) < 2 ^ 32 \<Longrightarrow> tx_walk m r q = (l, d, q', n) \<Longrightarrow>
     unat l = min (unat m) (length (concat q)) \<and> d = take (unat m) (concat q) \<and>
     (if r then concat q' = drop (unat m) (concat q) \<and> length q' + n = length q \<and> [] \<notin> set q' else q' = q \<and> n = 0)"
proof (induction q arbitrary: m l d q' n)
  case (Cons b q)
  define f where "f = (if of_nat (length b) > m then m else (of_nat (length b) :: u32))"
  obtain l1 d1 q1 n1 where w: "tx_walk (m - f) r q = (l1, d1, q1, n1)" by (cases "tx_walk (m - f) r q")
  have len: "length b + length (concat q) < 2 ^ 32" using Cons.prems(1) by simp
  then have ub: "unat (of_nat (length b) :: u32) = length b" by (simp add: unat_of_nat)
  have f: "unat f = min (unat m) (length b)" using ub by (auto simp: f_def word_less_nat_alt)
  then have fm: "unat (m - f) = unat m - min (unat m) (length b)" by (simp add: unat_sub_le word_le_nat_alt)
  note IH = Cons.IH [OF _ w]
  have l1: "unat l1 = min (unat m - min (unat m) (length b)) (length (concat q))" and
    d1: "d1 = take (unat m - min (unat m) (length b)) (concat q)" and
    r1: "if r then concat q1 = drop (unat m - min (unat m) (length b)) (concat q) \<and> length q1 + n1 = length q \<and> [] \<notin> set q1
         else q1 = q \<and> n1 = 0"
    using IH len unfolding fm by auto
  have eqs: "l = f + l1" "d = take (unat f) b @ d1"
    "q' = (if r \<and> drop (unat f) b = [] then q1 else (if r then drop (unat f) b else b) # q1)"
    "n = (if r \<and> drop (unat f) b = [] then Suc n1 else n1)"
    using Cons.prems(2) w by (auto simp: Let_def simp flip: f_def split: if_splits)
  have "unat l = unat f + unat l1" unfolding eqs(1) using f l1 len by (intro unat_add_nowrap) auto
  moreover have "d = take (unat m) (concat (b # q))" using eqs(2) d1 f by (simp add: min_def)
  moreover have "min (unat m) (length b) = unat m \<or> min (unat m) (length b) = length b" by linarith
  ultimately show ?case using eqs(3,4) f l1 r1 by (auto simp: min_def split: if_splits)
qed simp

lemma others_upd [simp]:
  "others (c\<lparr>cflags := x1\<rparr>) = others c" "others (c\<lparr>peer := x2\<rparr>) = others c" "others (c\<lparr>local_port := x3\<rparr>) = others c"
  "others (c\<lparr>tstate := x4\<rparr>) = others c" "others (c\<lparr>prev_state := x4\<rparr>) = others c" "others (c\<lparr>snd_seq := x4\<rparr>) = others c"
  "others (c\<lparr>snd_sent := x4\<rparr>) = others c" "others (c\<lparr>snd_win := x4\<rparr>) = others c" "others (c\<lparr>rcv_ack := x4\<rparr>) = others c"
  "others (c\<lparr>rcv_win := x4\<rparr>) = others c" "others (c\<lparr>ts_val := x4\<rparr>) = others c" "others (c\<lparr>ts_recent := x4\<rparr>) = others c"
  "others (c\<lparr>snd_win_scale := x5\<rparr>) = others c" "others (c\<lparr>rcv_win_scale := x5\<rparr>) = others c"
  "others (c\<lparr>max_rcv_win := x4\<rparr>) = others c" "others (c\<lparr>tx_queue := x6\<rparr>) = others c" "others (c\<lparr>rx_queue := x7\<rparr>) = others c"
  "others (c\<lparr>timer := x8\<rparr>) = others c" "others (c\<lparr>wait := x8\<rparr>) = others c" "others (c\<lparr>new_tcp_created := x4\<rparr>) = others c"
  "others (c\<lparr>deleted := x9\<rparr>) = others c" "others (c\<lparr>log := x10\<rparr>) = others c"
  by (simp_all add: others_def)

lemma others_pend [simp]:
  "others (pend_get_flags c) = others c" "others (pend_put_flags c) = others c"
  "others (pend_get_data c) = others c" "others (pend_put_data c) = others c"
  by (simp_all add: others_def pend_get_flags_def pend_put_flags_def pend_get_data_def pend_put_data_def)

lemma others_pend_pow [simp]: "others ((pend_put_data ^^ n) c) = others c"
  by (induction n) simp_all

lemma keep_Let: "P e \<Longrightarrow> (\<And>x. P x \<Longrightarrow> P (f x)) \<Longrightarrow> P (Let e f)"
  by (simp add: Let_def)

lemma keep_pair: "P (snd e) \<Longrightarrow> (\<And>x. P (snd x) \<Longrightarrow> P (f x)) \<Longrightarrow> P (Let e f)" for e :: "rc \<times> 'a"
  by (simp add: Let_def)

lemma skip_Let: "(\<And>x. P (f x)) \<Longrightarrow> P (Let e f)"
  by (simp add: Let_def)

lemma keep_if: "P x \<Longrightarrow> P y \<Longrightarrow> P (if b then x else y)"
  by simp

lemma snd_Let: "snd (Let e f) = (let x = e in snd (f x))"
  by (simp add: Let_def)

lemmas others_keep =
  keep_Let [where P = "\<lambda>c. others c = k" for k] keep_if [where P = "\<lambda>c. others c = k" for k]
  keep_pair [where P = "\<lambda>c. others c = k" for k]
  skip_Let [where P = "\<lambda>c. others c = k" and e = "e :: u32" for k e]
  skip_Let [where P = "\<lambda>c. others c = k" and e = "e :: nat" for k e]
  skip_Let [where P = "\<lambda>c. others c = k" and e = "e :: byte list" for k e]

lemma others_simps [simp]:
  "others (emit e c) = others c" "others (tcp_dump_state c) = others c" "others (tcp_rx_seq n c) = others c"
  "others (snd (snd (tcp_process_tx_queue m r c))) = others c" "others (expand_rcv_win env c) = others c"
  "others (tcp_rx_enqueue seq flags iobuf c) = others c"
  by (simp_all add: emit_def tcp_dump_state_def tcp_rx_seq_def tcp_process_tx_queue_def split_beta expand_rcv_win_def
      tcp_rx_enqueue_def Let_def)

lemma others_syn [simp]: "others (tcp_rx_syn seq ts scale c) = others c"
  unfolding tcp_rx_syn_def by (intro others_keep) (simp_all split: option.split)

lemma others_ack [simp]: "others (snd (tcp_rx_ack env ack win c)) = others c"
  unfolding tcp_rx_ack_def snd_Let if_distrib [of snd] snd_conv by (intro others_keep) simp_all

lemma others_close [simp]: "others (tcp_close env rc c) = others c"
  unfolding tcp_close_def by (intro others_keep) simp_all

lemma others_rx [simp]:
  "others (snd (tcp_rx_data env seq iobuf c)) = others c" "others (snd (tcp_rx_fin env seq c)) = others c"
  "others (snd (tcp_rx_rst env seq c)) = others c"
  by (simp_all add: tcp_rx_data_def tcp_rx_fin_def tcp_rx_rst_def Let_def)

lemma others_process_rx [simp]: "others (tcp_process_rx_queue env c) = others c"
proof (induction env c rule: tcp_process_rx_queue.induct)
  case (1 env c)
  show ?case
    by (subst tcp_process_rx_queue.simps) (simp add: 1 Let_def split: list.split)
qed

lemma others_xmit [simp]: "others (snd (tcp_xmit env c)) = others c"
  unfolding tcp_xmit_def snd_Let if_distrib [of snd] snd_conv by (intro others_keep) simp_all

lemma others_finish [simp]: "others (tcp_rx_finish env win c) = others c"
  unfolding tcp_rx_finish_def by (intro others_keep) simp_all

lemma others_handle_ack [simp]: "others (snd (rx_handle_ack env lst src h c)) = others c"
  by (simp add: rx_handle_ack_def Let_def split_beta)

lemma others_rx_conn [simp]: "others (snd (tcp_rx_conn env lst src h ts scale iobuf c)) = others c"
  unfolding tcp_rx_conn_def split_beta snd_Let if_distrib [of snd] snd_conv
  by (intro others_keep) simp_all

lemma ff_mask: "0xff = (mask 8 :: u32)"
  by (simp add: mask_eq_exp_minus_1)

lemma flags_ok_iff: "flags_ok s \<longleftrightarrow> (\<forall>n < 8. bit s (n + 8) \<longrightarrow> bit s n)"
proof -
  have "bit (drop_bit 8 s AND NOT s AND mask 8) n \<longleftrightarrow> n < 8 \<and> bit s (n + 8) \<and> \<not> bit s n" if "n < 32" for n
    using that by (auto simp: bit_simps add.commute)
  moreover have "x = 0 \<longleftrightarrow> (\<forall>n < 32. \<not> bit x n)" for x :: u32
    by (auto intro: bit_word_eqI)
  ultimately show ?thesis unfolding flags_ok_def ff_mask by fastforce
qed

lemma flags_ok_OR: "flags_ok s \<Longrightarrow> drop_bit 8 x AND 0xff = 0 \<Longrightarrow> flags_ok (s OR x)"
proof -
  assume s: "flags_ok s" and x: "drop_bit 8 x AND 0xff = 0"
  have "\<not> bit x (n + 8)" if "n < 8" for n
  proof -
    have "\<not> bit (drop_bit 8 x AND mask 8) n" using x unfolding ff_mask by simp
    then show ?thesis using that by (auto simp: bit_simps add.commute)
  qed
  then show ?thesis using s by (auto simp: flags_ok_iff bit_or_iff)
qed

lemma flags_ok_acked:
  "flags_ok s \<Longrightarrow> flags_ok (s OR TCP_STATE_ACKED (TCP_FLAGS_SENDING s AND x))"
  by (auto simp: flags_ok_iff TCP_STATE_ACKED_def TCP_FLAGS_SENDING_def TCP_FLAGS_SENT_def TCP_FLAGS_ACKED_def
      ff_mask bit_simps)

lemma pend_put_data_pow:
  "n \<le> unat (pending_data c) \<Longrightarrow>
     (pend_put_data ^^ n) c = c\<lparr>ptotal := ptotal c - of_nat n, pending_data := pending_data c - of_nat n\<rparr>"
proof (induction n)
  case (Suc n)
  have "unat (pending_data c - of_nat n) = unat (pending_data c) - n" using Suc.prems
    using unsigned_less [of "pending_data c", where 'a = nat]
    by (subst unat_sub_le) (auto simp: word_le_nat_alt unat_of_nat take_bit_eq_mod)
  then have "unat (pending_data c - of_nat n) \<noteq> 0" using Suc.prems by linarith
  then have "pending_data c - of_nat n \<noteq> 0" by (metis unsigned_0)
  then show ?case using Suc by (simp add: pend_put_data_def algebra_simps)
qed simp

lemma tx_remove:
  assumes "length (concat (tx_queue c)) < 2 ^ 32" "length (tx_queue c) < 2 ^ 32" "pending_data c = of_nat (length (tx_queue c))"
  obtains q n where "concat q = drop (unat m) (concat (tx_queue c))" "length q + n = length (tx_queue c)" "[] \<notin> set q"
    "snd (snd (tcp_process_tx_queue m True c)) =
       c\<lparr>tx_queue := q, ptotal := ptotal c - of_nat n, pending_data := of_nat (length q)\<rparr>"
proof -
  obtain l d q n where w: "tx_walk m True (tx_queue c) = (l, d, q, n)" by (cases "tx_walk m True (tx_queue c)")
  note spec = tx_walk_spec [OF assms(1) w]
  have "unat (pending_data c) = length (tx_queue c)" using assms by (simp add: unat_of_nat take_bit_eq_mod)
  moreover have "pending_data c - of_nat n = of_nat (length q)"
    using assms(3) spec by (metis add_diff_cancel_right' of_nat_add)
  ultimately have "(pend_put_data ^^ n) (c\<lparr>tx_queue := q\<rparr>) =
      c\<lparr>tx_queue := q, ptotal := ptotal c - of_nat n, pending_data := of_nat (length q)\<rparr>"
    using spec by (subst pend_put_data_pow) auto
  then show ?thesis using that [of q n] spec w by (simp add: tcp_process_tx_queue_def)
qed

lemma tx_copy:
  assumes "length (concat (tx_queue c)) < 2 ^ 32"
  shows "tcp_process_tx_queue m False c =
    (of_nat (min (unat m) (length (concat (tx_queue c)))), take (unat m) (concat (tx_queue c)), c)"
proof -
  obtain l d q n where w: "tx_walk m False (tx_queue c) = (l, d, q, n)" by (cases "tx_walk m False (tx_queue c)")
  note spec = tx_walk_spec [OF assms w]
  moreover have "l = of_nat (unat l)" by simp
  ultimately have "l = of_nat (min (unat m) (length (concat (tx_queue c))))" by metis
  then show ?thesis using spec w by (simp add: tcp_process_tx_queue_def)
qed

lemma base_ok_upd [simp]:
  "base_ok (c\<lparr>cflags := x1\<rparr>) = base_ok c" "base_ok (c\<lparr>prev_state := x2\<rparr>) = base_ok c"
  "base_ok (c\<lparr>snd_seq := x2\<rparr>) = base_ok c" "base_ok (c\<lparr>snd_sent := x2\<rparr>) = base_ok c"
  "base_ok (c\<lparr>snd_win := x2\<rparr>) = base_ok c" "base_ok (c\<lparr>rcv_ack := x2\<rparr>) = base_ok c"
  "base_ok (c\<lparr>rcv_win := x2\<rparr>) = base_ok c" "base_ok (c\<lparr>ts_val := x2\<rparr>) = base_ok c"
  "base_ok (c\<lparr>ts_recent := x2\<rparr>) = base_ok c" "base_ok (c\<lparr>snd_win_scale := x3\<rparr>) = base_ok c"
  "base_ok (c\<lparr>rcv_win_scale := x3\<rparr>) = base_ok c" "base_ok (c\<lparr>max_rcv_win := x2\<rparr>) = base_ok c"
  "base_ok (c\<lparr>timer := x4\<rparr>) = base_ok c" "base_ok (c\<lparr>wait := x4\<rparr>) = base_ok c"
  "base_ok (c\<lparr>new_tcp_created := x2\<rparr>) = base_ok c"
  by (simp_all add: base_ok_def)

lemma base_ok_ctx_upd [simp]: "base_ok (c\<lparr>log := x5\<rparr>) = base_ok c" "base_ok (c\<lparr>ptotal := x6\<rparr>) = base_ok c"
  by (simp_all add: base_ok_def)

lemma conn_ok_upd [simp]:
  "conn_ok (c\<lparr>cflags := x1\<rparr>) = conn_ok c" "conn_ok (c\<lparr>prev_state := x2\<rparr>) = conn_ok c"
  "conn_ok (c\<lparr>snd_seq := x2\<rparr>) = conn_ok c"
  "conn_ok (c\<lparr>snd_win := x2\<rparr>) = conn_ok c" "conn_ok (c\<lparr>rcv_ack := x2\<rparr>) = conn_ok c"
  "conn_ok (c\<lparr>rcv_win := x2\<rparr>) = conn_ok c" "conn_ok (c\<lparr>ts_val := x2\<rparr>) = conn_ok c"
  "conn_ok (c\<lparr>ts_recent := x2\<rparr>) = conn_ok c" "conn_ok (c\<lparr>snd_win_scale := x3\<rparr>) = conn_ok c"
  "conn_ok (c\<lparr>rcv_win_scale := x3\<rparr>) = conn_ok c" "conn_ok (c\<lparr>max_rcv_win := x2\<rparr>) = conn_ok c"
  "conn_ok (c\<lparr>wait := x4\<rparr>) = conn_ok c" "conn_ok (c\<lparr>new_tcp_created := x2\<rparr>) = conn_ok c"
  by (simp_all add: conn_ok_def)

lemma conn_ok_ctx_upd [simp]: "conn_ok (c\<lparr>log := x5\<rparr>) = conn_ok c" "conn_ok (c\<lparr>ptotal := x6\<rparr>) = conn_ok c"
  by (simp_all add: conn_ok_def)

lemma conn_ok_simps [simp]:
  "conn_ok (emit e d) = conn_ok d" "conn_ok (tcp_dump_state c) = conn_ok c" "conn_ok (tcp_rx_seq n c) = conn_ok c"
  "conn_ok (expand_rcv_win env c) = conn_ok c"
  by (simp_all add: emit_def tcp_dump_state_def tcp_rx_seq_def expand_rcv_win_def Let_def)

lemma base_ok_put_flags: "base_ok c \<Longrightarrow> base_ok (pend_put_flags c)"
proof -
  assume b: "base_ok c"
  have "pending_flags c - 1 \<le> pending_flags c" if "pending_flags c \<noteq> 0"
    using that by (simp add: word_le_nat_alt unat_minus_one)
  then show ?thesis using b by (auto simp: base_ok_def pend_put_flags_def)
qed

lemma base_ok_tx: "base_ok c \<Longrightarrow> base_ok (snd (snd (tcp_process_tx_queue m True c)))"
proof -
  assume b: "base_ok c"
  then have h: "length (concat (tx_queue c)) < 2 ^ 32" "length (tx_queue c) < 2 ^ 32"
    "pending_data c = of_nat (length (tx_queue c))" by (auto simp: base_ok_def)
  obtain q n where q: "concat q = drop (unat m) (concat (tx_queue c))" "length q + n = length (tx_queue c)"
    "snd (snd (tcp_process_tx_queue m True c)) =
       c\<lparr>tx_queue := q, ptotal := ptotal c - of_nat n, pending_data := of_nat (length q)\<rparr>"
    by (rule tx_remove [OF h, of m])
  have "length q < 2 ^ 32" "length (concat q) < 2 ^ 32" using q(1,2) h by auto
  then show ?thesis using b unfolding q(3) by (auto simp: base_ok_def)
qed

lemma OR_bits: "s AND x \<noteq> 0 \<Longrightarrow> (s OR y) AND x \<noteq> 0" for s :: u32
proof (rule ccontr)
  assume s: "s AND x \<noteq> 0" and "\<not> (s OR y) AND x \<noteq> 0"
  then have "\<not> bit ((s OR y) AND x) n" for n by simp
  then have "s AND x = 0" by (intro bit_word_eqI) (auto simp: bit_simps)
  then show False using s by simp
qed

lemma OR_skip: "y AND x = 0 \<Longrightarrow> (s OR y) AND x = s AND x" for s :: u32
  by (simp add: bit.conj_disj_distrib2)

lemma OR_nonzero: "s \<noteq> 0 \<Longrightarrow> s OR y \<noteq> 0" for s :: u32
  using OR_bits [of s "-1" y] by simp

lemma OR_eq_0: "s OR y = 0 \<longleftrightarrow> s = 0 \<and> y = 0" for s :: u32
  using OR_nonzero [of s y] OR_nonzero [of y s] by (auto simp: or.commute)

lemma base_ok_OR:
  assumes "base_ok c" "flags_ok (tstate c OR y)" "y AND TCP_STATE_SENT TCP_FIN = 0"
  shows "base_ok (c\<lparr>tstate := tstate c OR y\<rparr>)"
  using assms OR_skip [OF assms(3), of "tstate c"] OR_bits [of "tstate c" "TCP_STATE_RCVD TCP_SYN" y]
  by (simp add: base_ok_def)

lemma base_ok_fin:
  assumes "base_ok c" "tstate c AND TCP_STATE_SENT TCP_FIN = 0"
  shows "base_ok (pend_get_flags (c\<lparr>tstate := tstate c OR TCP_STATE_SENT TCP_FIN\<rparr>))"
proof -
  have "flags_ok (tstate c OR TCP_STATE_SENT TCP_FIN)"
    using assms(1) by (intro flags_ok_OR) (simp_all add: base_ok_def TCP_STATE_SENT_def TCP_FIN_def)
  moreover have "pending_flags c + 1 \<le> 2" if "pending_flags c \<le> 1"
    using that by (cases "pending_flags c = 0") (auto simp: word_le_nat_alt unat_word_ariths)
  moreover have "(tstate c OR TCP_STATE_SENT TCP_FIN) AND TCP_STATE_SENT TCP_FIN \<noteq> 0"
    by (simp add: bit.conj_disj_distrib2 OR_eq_0 TCP_STATE_SENT_def TCP_FIN_def)
  ultimately show ?thesis
    using assms OR_bits [of "tstate c" "TCP_STATE_RCVD TCP_SYN" "TCP_STATE_SENT TCP_FIN"]
    by (auto simp: base_ok_def pend_get_flags_def)
qed

lemma tx_frame [simp]:
  "tstate (snd (snd (tcp_process_tx_queue m r c))) = tstate c" "snd_sent (snd (snd (tcp_process_tx_queue m r c))) = snd_sent c"
  "timer (snd (snd (tcp_process_tx_queue m r c))) = timer c" "cflags (snd (snd (tcp_process_tx_queue m r c))) = cflags c"
  "pending_flags (snd (snd (tcp_process_tx_queue m r c))) = pending_flags c"
proof -
  have "tstate ((pend_put_data ^^ n) c) = tstate c \<and> snd_sent ((pend_put_data ^^ n) c) = snd_sent c \<and>
    timer ((pend_put_data ^^ n) c) = timer c \<and> cflags ((pend_put_data ^^ n) c) = cflags c \<and>
    pending_flags ((pend_put_data ^^ n) c) = pending_flags c" for n and c :: "'a tcp_ctx_scheme"
    by (induction n) (simp_all add: pend_put_data_def)
  then show "tstate (snd (snd (tcp_process_tx_queue m r c))) = tstate c" "snd_sent (snd (snd (tcp_process_tx_queue m r c))) = snd_sent c"
    "timer (snd (snd (tcp_process_tx_queue m r c))) = timer c" "cflags (snd (snd (tcp_process_tx_queue m r c))) = cflags c"
    "pending_flags (snd (snd (tcp_process_tx_queue m r c))) = pending_flags c"
    by (simp_all add: tcp_process_tx_queue_def split_beta)
qed

lemma pend_flags_frame [simp]:
  "tstate (pend_put_flags c) = tstate c" "snd_sent (pend_put_flags c) = snd_sent c" "timer (pend_put_flags c) = timer c"
  "tstate (pend_get_flags c) = tstate c" "snd_sent (pend_get_flags c) = snd_sent c" "timer (pend_get_flags c) = timer c"
  by (simp_all add: pend_put_flags_def pend_get_flags_def)

lemma rx_ack_ok: "conn_ok c \<Longrightarrow> conn_ok (snd (tcp_rx_ack env ack win c))"
proof -
  assume ok: "conn_ok c"
  define n where "n = ack - snd_seq c"
  show ?thesis
  proof (cases "n > snd_sent c \<or> n = 0")
    case True
    then show ?thesis using ok by (auto simp: tcp_rx_ack_def n_def Let_def)
  next
    case False
    then have sent: "snd_sent c \<noteq> 0" by (auto simp: word_neq_0_conv)
    then have live: "tstate c \<noteq> 0" using ok by (auto simp: conn_ok_def TCP_LISTEN_def)
    define c1 where "c1 = c\<lparr>timer := stop_fields (now env) (timer c)\<rparr>"
    define F where "F = TCP_FLAGS_SENDING (tstate c1) AND (TCP_SYN OR TCP_FIN)"
    define c2 where "c2 = (if F \<noteq> 0 then pend_put_flags c1 else c1)"
    define c4 where "c4 = snd (snd (tcp_process_tx_queue (if F \<noteq> 0 then n - 1 else n) True
                                     (c2\<lparr>snd_seq := ack, snd_sent := 0, snd_win := win\<rparr>)))"
    define c5 where "c5 = (if F \<noteq> 0 then c4\<lparr>tstate := tstate c4 OR TCP_STATE_ACKED F\<rparr> else c4)"
    define c6 where "c6 = (if tx_queue c5 = [] \<and> cflags c5 AND TCP_XFER_CLOSED \<noteq> 0 \<and> tstate c5 AND TCP_STATE_SENT TCP_FIN = 0
             then pend_get_flags (c5\<lparr>tstate := tstate c5 OR TCP_STATE_SENT TCP_FIN\<rparr>) else c5)"
    have "base_ok c2" using ok by (simp add: c2_def c1_def conn_ok_def base_ok_put_flags)
    then have b4: "base_ok c4" by (simp add: c4_def base_ok_tx)
    have t4: "tstate c4 = tstate c" and s4: "snd_sent c4 = 0" by (simp_all add: c4_def c2_def c1_def)
    have "TCP_STATE_ACKED F AND TCP_STATE_SENT TCP_FIN = 0"
      unfolding TCP_STATE_ACKED_def TCP_STATE_SENT_def TCP_FIN_def by (intro bit_word_eqI) (auto simp: bit_simps)
    moreover have "flags_ok (tstate c4 OR TCP_STATE_ACKED F)"
      unfolding t4 F_def c1_def using ok by (simp add: flags_ok_acked conn_ok_def base_ok_def)
    ultimately have b5: "base_ok c5" using b4 by (simp add: c5_def base_ok_OR)
    then have b6: "base_ok c6" by (simp add: c6_def base_ok_fin)
    have "tstate c6 \<noteq> 0" "snd_sent c6 = 0" using live s4 t4 by (auto simp: c6_def c5_def OR_eq_0)
    moreover have "snd (tcp_rx_ack env ack win c) = c6"
      unfolding tcp_rx_ack_def Let_def n_def [symmetric] c1_def [symmetric] F_def [symmetric] c2_def [symmetric]
        c4_def [symmetric] c5_def [symmetric] c6_def [symmetric] using False by auto
    ultimately show ?thesis using b6 by (simp add: conn_ok_def TCP_LISTEN_def)
  qed
qed

lemma gone_simps [simp]:
  "gone (c\<lparr>cflags := x1\<rparr>) = gone c" "gone (c\<lparr>snd_sent := x1\<rparr>) = gone c" "gone (c\<lparr>rcv_win := x1\<rparr>) = gone c"
  "gone (c\<lparr>timer := x2\<rparr>) = gone c" "gone (c\<lparr>wait := x2\<rparr>) = gone c" "gone (emit e d) = gone d"
  "gone (expand_rcv_win env c) = gone c"
  by (simp_all add: gone_def emit_def expand_rcv_win_def Let_def)

lemmas gone_keep =
  keep_Let [where P = gone] keep_if [where P = gone] skip_Let [where P = gone and e = "e :: u32" for e]
  skip_Let [where P = gone and e = "e :: byte list" for e]

lemma gone_xmit: "gone c \<Longrightarrow> gone (snd (tcp_xmit env c))"
  unfolding tcp_xmit_def snd_Let if_distrib [of snd] snd_conv by (intro gone_keep) simp_all

lemma put_flags_twice: "pending_flags c \<le> 2 \<Longrightarrow> pending_flags (pend_put_flags (pend_put_flags c)) = 0"
proof -
  assume "pending_flags c \<le> 2"
  then have "pending_flags c = 0 \<or> pending_flags c = 1 \<or> pending_flags c = 2"
    unfolding word_unat_eq_iff by (simp add: word_le_nat_alt) linarith
  then show ?thesis by (auto simp: pend_put_flags_def)
qed

lemma close_gone:
  assumes "tstate c AND TCP_STATE_RCVD TCP_SYN = 0" "length (tx_queue c) < 2 ^ 32"
    "pending_data c = of_nat (length (tx_queue c))" "pending_flags c \<le> 2"
  shows "gone (tcp_close env rc c)"
proof -
  define d where "d = (emit (XferClose rc) c)\<lparr>cflags := cflags c OR TCP_XFER_CLOSED\<rparr>"
  define e where "e = (tcp_dump_state (d\<lparr>tstate := TCP_CLOSED\<rparr>))\<lparr>rx_queue := []\<rparr>"
  have q: "tx_queue e = tx_queue c" "pending_data e = pending_data c" "pending_flags e = pending_flags c"
    by (simp_all add: e_def d_def emit_def tcp_dump_state_def)
  have "unat (pending_data c) = length (tx_queue c)" using assms by (simp add: unat_of_nat take_bit_eq_mod)
  then have "(pend_put_data ^^ length (tx_queue e)) (e\<lparr>tx_queue := []\<rparr>) =
      e\<lparr>tx_queue := [], ptotal := ptotal e - of_nat (length (tx_queue e)), pending_data := 0\<rparr>" (is "_ = ?f")
    using assms q by (subst pend_put_data_pow) simp_all
  moreover have "pending_flags (pend_put_flags (pend_put_flags ?f)) = 0" using q assms(4) by (intro put_flags_twice) simp
  moreover have "pending_data (pend_put_flags (pend_put_flags ?f)) = 0" by (simp add: pend_put_flags_def)
  moreover have "tstate d AND TCP_STATE_RCVD TCP_SYN = 0" using assms(1) by (simp add: d_def emit_def)
  ultimately show ?thesis unfolding tcp_close_def by (simp add: Let_def gone_def d_def e_def emit_def)
qed

lemma close_open_eq:
  assumes "tstate c AND TCP_STATE_RCVD TCP_SYN \<noteq> 0"
  shows "tcp_close env rc c =
    (let d = (emit (XferClose rc) c)\<lparr>cflags := cflags (emit (XferClose rc) c) OR TCP_XFER_CLOSED\<rparr>;
         e = (if tstate d AND TCP_STATE_ACKED TCP_SYN = 0 then snd (tcp_rx_ack env (snd_seq d + 1) 0 d) else d)
     in if tx_queue e = [] \<and> tstate e AND TCP_STATE_SENT TCP_FIN = 0
        then pend_get_flags (tcp_dump_state (e\<lparr>tstate := tstate e OR TCP_STATE_SENT TCP_FIN\<rparr>)) else e)"
proof -
  have "tstate (emit (XferClose rc) c) AND TCP_STATE_RCVD TCP_SYN \<noteq> 0" using assms by (simp add: emit_def)
  then show ?thesis unfolding tcp_close_def Let_def by simp
qed

lemma close_ok:
  assumes "conn_ok c"
  shows "if tstate c AND TCP_STATE_RCVD TCP_SYN = 0 then gone (tcp_close env rc c) else conn_ok (tcp_close env rc c)"
proof (cases "tstate c AND TCP_STATE_RCVD TCP_SYN = 0")
  case True
  then show ?thesis using assms order_trans [of "pending_flags c" 1 2]
    by (auto simp: conn_ok_def base_ok_def intro!: close_gone split: if_splits)
next
  case False
  define d where "d = (emit (XferClose rc) c)\<lparr>cflags := cflags (emit (XferClose rc) c) OR TCP_XFER_CLOSED\<rparr>"
  define e where "e = (if tstate d AND TCP_STATE_ACKED TCP_SYN = 0 then snd (tcp_rx_ack env (snd_seq d + 1) 0 d) else d)"
  have "conn_ok d" using assms by (simp add: d_def)
  then have e: "conn_ok e" by (simp add: e_def rx_ack_ok)
  then have fin: "conn_ok (pend_get_flags (e\<lparr>tstate := tstate e OR TCP_STATE_SENT TCP_FIN\<rparr>))"
    if "tstate e AND TCP_STATE_SENT TCP_FIN = 0"
    using base_ok_fin [of e] that
    by (simp add: conn_ok_def OR_eq_0 TCP_LISTEN_def TCP_STATE_SENT_def TCP_FIN_def)
  have "pend_get_flags (tcp_dump_state x) = tcp_dump_state (pend_get_flags x)" for x :: "'a tcp_ctx_scheme"
    by (simp add: pend_get_flags_def tcp_dump_state_def)
  then have "conn_ok (pend_get_flags (tcp_dump_state (e\<lparr>tstate := tstate e OR TCP_STATE_SENT TCP_FIN\<rparr>)))"
    if "tstate e AND TCP_STATE_SENT TCP_FIN = 0"
    using fin [OF that] by simp
  then show ?thesis using e False
    unfolding close_open_eq [OF False] Let_def d_def [symmetric] e_def [symmetric] by simp
qed

lemma start_running [simp]: "running (start_fields t n tm)"
  by (simp add: start_fields_def Let_def)

lemma expand_rcv_win_eq: "\<exists>w. expand_rcv_win env c = c\<lparr>rcv_win := w\<rparr>"
  by (auto simp: expand_rcv_win_def Let_def intro: exI [of _ "rcv_win c"])

lemma xmit_win_closed: "\<not> TCP_CAN_SEND_DATA (tstate c) \<Longrightarrow> tcp_xmit_win c = 0"
  by (simp add: tcp_xmit_win_def)

lemma xmit_win_bound: "unat (tcp_xmit_win c) \<le> 1460"
  by (auto simp: tcp_xmit_win_def TCP_PATH_MTU_def Let_def word_less_nat_alt)

lemma tx_payload_bound: "length (tx_payload c) \<le> 1460"
  using xmit_win_bound [of c] by (simp add: tx_payload_def)

lemma tcp_xmit_eq:
  assumes "length (concat (tx_queue c)) < 2 ^ 32"
  shows "tcp_xmit env c =
    (if running (timer c) then (None, c)
     else if length (tx_payload c) + seq_flags c = 0 \<and> cflags c AND TCP_ACK_PENDING = 0 then (None, c\<lparr>snd_sent := 0\<rparr>)
     else if \<not> alloc_ok env then (Some ENOMEM, armed env c)
     else let d = expand_rcv_win env (armed env c);
              d = emit (Xmit (peer c) (build_segment env (TCP_FLAGS_SENDING (tstate c))
                                         (of_nat (length (tx_payload c))) (tx_payload c) d)) d
          in (tx_rc env, if tx_rc env = None then d\<lparr>cflags := cflags d AND NOT TCP_ACK_PENDING\<rparr> else d))"
proof -
  define m where "m = min (unat (tcp_xmit_win c)) (length (concat (tx_queue c)))"
  have m: "length (tx_payload c) = m" "m \<le> 1460" using xmit_win_bound [of c] by (auto simp: tx_payload_def m_def)
  then have um: "unat (of_nat m :: u32) = m" by (simp add: unat_of_nat take_bit_eq_mod)
  have len: "(if TCP_CAN_SEND_DATA (tstate c) then fst (tcp_process_tx_queue (tcp_xmit_win c) False c) else 0) = of_nat m"
    using assms by (simp add: tx_copy m_def xmit_win_closed)
  have pay: "fst (snd (tcp_process_tx_queue (of_nat m) False d)) = tx_payload c" if "tx_queue d = tx_queue c"
    for d :: "'a tcp_ctx_scheme"
    using assms that by (simp add: tx_copy um) (simp add: tx_payload_def m_def min_def)
  have sl: "(if TCP_FLAGS_SENDING (tstate c) AND (TCP_SYN OR TCP_FIN) \<noteq> 0 then of_nat m + 1 else of_nat m :: u32)
      = of_nat (m + seq_flags c)" by (simp add: seq_flags_def)
  have z: "(of_nat (m + seq_flags c) :: u32) = 0 \<longleftrightarrow> m + seq_flags c = 0"
  proof -
    have "unat (of_nat (m + seq_flags c) :: u32) = m + seq_flags c"
      using m(2) by (subst unat_of_nat) (simp add: take_bit_eq_mod seq_flags_def)
    then show ?thesis by (metis unsigned_eq_0_iff)
  qed
  obtain w where w: "expand_rcv_win env (armed env c) = (armed env c)\<lparr>rcv_win := w\<rparr>" using expand_rcv_win_eq by blast
  have p2: "fst (snd (tcp_process_tx_queue (of_nat m) False (armed env c))) = tx_payload c"
    by (rule pay) (simp add: armed_def Let_def)
  have pe: "peer (expand_rcv_win env (armed env c)) = peer c" unfolding w by (simp add: armed_def Let_def)
  have arm: "armed env c = (let d = c\<lparr>snd_sent := of_nat (m + seq_flags c)\<rparr> in
      if of_nat (m + seq_flags c) \<noteq> (0 :: u32) then d\<lparr>timer := start_fields (tps env) (now env) (timer d)\<rparr> else d)"
    unfolding armed_def Let_def m(1) z by simp
  show ?thesis
    unfolding tcp_xmit_def Let_def len sl arm [unfolded Let_def, symmetric] m(1) p2 pe unfolding z
    by (cases "tx_rc env") simp_all
qed

lemma armed_frame [simp]:
  "base_ok (armed env c) = base_ok c" "tstate (armed env c) = tstate c" "tx_queue (armed env c) = tx_queue c"
  "rx_queue (armed env c) = rx_queue c" "pending_flags (armed env c) = pending_flags c"
  by (simp_all add: armed_def Let_def)

lemma armed_running: "snd_sent (armed env c) \<noteq> 0 \<Longrightarrow> running (timer (armed env c))"
  by (auto simp: armed_def Let_def split: if_splits)

lemma xmit_ok:
  assumes b: "base_ok c" and l: "tstate c = TCP_LISTEN \<Longrightarrow> tx_queue c = [] \<and> snd_sent c = 0 \<and> pending_flags c = 0"
  shows "conn_ok (snd (tcp_xmit env c))"
proof -
  have len: "length (concat (tx_queue c)) < 2 ^ 32" using b by (simp add: base_ok_def)
  have "snd_sent (armed env c) = 0" if "tstate c = 0"
  proof -
    have "seq_flags c = 0" using that by (simp add: seq_flags_def TCP_FLAGS_SENDING_def TCP_FLAGS_SENT_def)
    moreover have "tx_payload c = []" using l that by (simp add: tx_payload_def TCP_LISTEN_def)
    ultimately show ?thesis by (simp add: armed_def)
  qed
  then have "conn_ok (armed env c)" using b l armed_running [of env c] by (auto simp: conn_ok_def TCP_LISTEN_def)
  moreover have "conn_ok (c\<lparr>snd_sent := 0\<rparr>)" using b l by (auto simp: conn_ok_def)
  moreover have "conn_ok c" if "running (timer c)" using b l that by (auto simp: conn_ok_def)
  ultimately show ?thesis by (simp add: tcp_xmit_eq [OF len] Let_def)
qed

lemma rx_data_ok: "conn_ok c \<Longrightarrow> conn_ok (snd (tcp_rx_data env seq iobuf c))"
  by (simp add: tcp_rx_data_def Let_def)

lemma conn_ok_OR:
  assumes "conn_ok c" "drop_bit 8 y AND 0xff = 0" "y AND TCP_STATE_SENT TCP_FIN = 0"
  shows "conn_ok (c\<lparr>tstate := tstate c OR y\<rparr>)"
proof -
  have "flags_ok (tstate c OR y)" using assms by (intro flags_ok_OR) (simp_all add: conn_ok_def base_ok_def)
  then show ?thesis using base_ok_OR [of c y] assms by (auto simp: conn_ok_def OR_eq_0 TCP_LISTEN_def)
qed

lemma rx_syn_ok: "conn_ok c \<Longrightarrow> conn_ok (tcp_rx_syn seq ts scale c)"
proof -
  assume ok: "conn_ok c"
  define d where "d = (if tstate c AND TCP_STATE_RCVD TCP_SYN = 0 then
                 let c = c\<lparr>rcv_ack := seq\<rparr>;
                     c = (if ts then c\<lparr>cflags := cflags c OR TCP_TS_ENABLED\<rparr> else c)
                 in case scale of None \<Rightarrow> c
                    | Some s \<Rightarrow> c\<lparr>snd_win_scale := s, rcv_win_scale := TCP_RX_WINDOW_SCALE\<rparr>
               else c)"
  have "conn_ok (tcp_rx_seq 1 d)" using ok by (simp add: d_def Let_def split: option.split)
  then have h: "conn_ok ((tcp_rx_seq 1 d)\<lparr>tstate := tstate (tcp_rx_seq 1 d) OR y\<rparr>)"
    if "y = TCP_STATE_SENT (TCP_SYN OR TCP_ACK) OR TCP_STATE_RCVD TCP_SYN \<or> y = TCP_STATE_SENT TCP_ACK OR TCP_STATE_RCVD TCP_SYN" for y
    using that by (intro conn_ok_OR) (auto simp: TCP_STATE_SENT_def TCP_SYN_def TCP_ACK_def TCP_STATE_RCVD_def TCP_FIN_def)
  have "conn_ok d" using \<open>conn_ok (tcp_rx_seq 1 d)\<close> by simp
  then show ?thesis using h
    unfolding tcp_rx_syn_def d_def [symmetric] by (simp only: Let_def split: if_split) blast
qed

lemma tstate_simps [simp]:
  "tstate (tcp_rx_seq n c) = tstate c" "tstate (emit e d) = tstate d" "tstate (tcp_dump_state c) = tstate c"
  "tstate (snd (tcp_rx_data env seq iobuf d)) = tstate d"
  by (simp_all add: tcp_rx_seq_def emit_def tcp_dump_state_def tcp_rx_data_def Let_def)

lemma rx_fin_ok: "conn_ok c \<Longrightarrow> tstate c AND TCP_STATE_RCVD TCP_SYN \<noteq> 0 \<Longrightarrow> conn_ok (snd (tcp_rx_fin env seq c))"
proof -
  assume ok: "conn_ok c" and syn: "tstate c AND TCP_STATE_RCVD TCP_SYN \<noteq> 0"
  define d where "d = (tcp_rx_seq 1 c)\<lparr>tstate := tstate (tcp_rx_seq 1 c) OR TCP_STATE_RCVD TCP_FIN\<rparr>"
  have "conn_ok d" unfolding d_def
    using ok by (intro conn_ok_OR) (simp_all add: TCP_STATE_RCVD_def TCP_FIN_def TCP_STATE_SENT_def)
  moreover have "tstate d AND TCP_STATE_RCVD TCP_SYN \<noteq> 0" using OR_bits [OF syn] by (simp add: d_def)
  ultimately have "conn_ok (tcp_close env None d)" using close_ok [of d env None] by simp
  then show ?thesis using ok by (simp add: tcp_rx_fin_def Let_def d_def)
qed

lemmas tstate_keep =
  keep_Let [where P = "\<lambda>c. tstate c AND x \<noteq> 0" for x] keep_if [where P = "\<lambda>c. tstate c AND x \<noteq> 0" for x]
  skip_Let [where P = "\<lambda>c. tstate c AND x \<noteq> 0" and e = "e :: u32" for x e]

lemma rx_ack_tstate: "tstate c AND x \<noteq> 0 \<Longrightarrow> tstate (snd (tcp_rx_ack env ack win c)) AND x \<noteq> 0"
  unfolding tcp_rx_ack_def snd_Let if_distrib [of snd] snd_conv by (intro tstate_keep) (simp_all add: OR_bits)

lemma close_tstate:
  assumes "tstate c AND TCP_STATE_RCVD TCP_SYN \<noteq> 0"
  shows "tstate (tcp_close env rc c) AND TCP_STATE_RCVD TCP_SYN \<noteq> 0"
  unfolding close_open_eq [OF assms] using assms by (intro tstate_keep) (simp_all add: OR_bits rx_ack_tstate)

lemma rx_fin_tstate:
  "tstate c AND TCP_STATE_RCVD TCP_SYN \<noteq> 0 \<Longrightarrow> tstate (snd (tcp_rx_fin env seq c)) AND TCP_STATE_RCVD TCP_SYN \<noteq> 0"
  by (simp add: tcp_rx_fin_def Let_def OR_bits close_tstate)

lemma rx_queue_ok: "conn_ok c \<Longrightarrow> (q \<noteq> [] \<Longrightarrow> tstate c AND TCP_STATE_RCVD TCP_SYN \<noteq> 0) \<Longrightarrow> conn_ok (c\<lparr>rx_queue := q\<rparr>)"
  by (auto simp: conn_ok_def base_ok_def)

lemma enqueue_ok: "conn_ok c \<Longrightarrow> conn_ok (tcp_rx_enqueue seq flags iobuf c)"
  by (auto simp: tcp_rx_enqueue_def Let_def intro: rx_queue_ok)

lemma process_rx_ok: "conn_ok c \<Longrightarrow> conn_ok (tcp_process_rx_queue env c)"
proof (induction env c rule: tcp_process_rx_queue.induct)
  case (1 env c)
  show ?case
  proof (cases "rx_queue c")
    case Nil
    then show ?thesis using 1(2) by (simp add: tcp_process_rx_queue.simps [of env c])
  next
    case (Cons p queue)
    then have syn: "tstate c AND TCP_STATE_RCVD TCP_SYN \<noteq> 0" using 1(2) by (simp add: conn_ok_def base_ok_def)
    have "conn_ok (c\<lparr>rx_queue := queue\<rparr>)" using 1(2) syn by (simp add: rx_queue_ok)
    then have data: "conn_ok (snd (tcp_rx_data env (qseq p) (qdata p) (c\<lparr>rx_queue := queue\<rparr>)))" by (rule rx_data_ok)
    then have "conn_ok (snd (tcp_rx_fin env seq (snd (tcp_rx_data env (qseq p) (qdata p) (c\<lparr>rx_queue := queue\<rparr>)))))" for seq
      using syn by (intro rx_fin_ok) simp_all
    then show ?thesis
      using 1 Cons data by (subst tcp_process_rx_queue.simps) (simp add: Let_def)
  qed
qed

lemma reset_gone: "base_ok c \<Longrightarrow> gone (tcp_close env rc (tcp_dump_state (c\<lparr>tstate := TCP_CLOSED\<rparr>)))"
  using order_trans [of "pending_flags c" 1 2]
  by (intro close_gone)
    (auto simp: base_ok_def tcp_dump_state_def TCP_CLOSED_def TCP_RST_def TCP_STATE_RCVD_def TCP_SYN_def split: if_splits)

lemma rst_ok:
  assumes "conn_ok c"
  shows "if fst (tcp_rx_rst env seq c) = None then snd (tcp_rx_rst env seq c) = c else gone (snd (tcp_rx_rst env seq c))"
  using reset_gone [of c env "Some ECONNRESET"] assms by (simp add: tcp_rx_rst_def Let_def conn_ok_def)

lemma handle_ack_ok: "conn_ok c \<Longrightarrow> conn_ok (snd (rx_handle_ack env lst src h c))"
  by (simp add: rx_handle_ack_def Let_def split_beta rx_ack_ok)

lemma xmit_conn_ok: "conn_ok c \<Longrightarrow> conn_ok (snd (tcp_xmit env c))"
  by (rule xmit_ok) (simp_all add: conn_ok_def)

lemma finish_ok: "conn_ok c \<Longrightarrow> conn_ok (tcp_rx_finish env win c)"
proof -
  assume "conn_ok c"
  then have "conn_ok (tcp_dump_state (tcp_process_rx_queue env c))" by (simp add: process_rx_ok)
  then have "conn_ok (snd (tcp_xmit env (tcp_dump_state (tcp_process_rx_queue env c))))"
    by (rule xmit_conn_ok)
  then show ?thesis by (simp add: tcp_rx_finish_def Let_def)
qed

lemma rx_conn_ok:
  assumes "conn_ok c"
  shows "conn_ok (snd (tcp_rx_conn env lst src h ts scale iobuf c)) \<or> gone (snd (tcp_rx_conn env lst src h ts scale iobuf c))"
proof -
  define r1 where "r1 = (if hflags h AND TCP_ACK \<noteq> 0 then rx_handle_ack env lst src h c else (None, c))"
  define c2 where "c2 = (if tstate (snd r1) AND TCP_STATE_RCVD TCP_SYN \<noteq> 0 \<and> hseq h \<noteq> rcv_ack (snd r1)
                then (snd r1)\<lparr>cflags := cflags (snd r1) OR TCP_ACK_PENDING\<rparr> else snd r1)"
  define c3 where "c3 = (if hflags h AND TCP_SYN \<noteq> 0 then tcp_rx_syn (hseq h) ts scale c2 else c2)"
  define seq where "seq = (if hflags h AND TCP_SYN \<noteq> 0 then hseq h + 1 else hseq h)"
  define r4 where "r4 = (if hflags h AND TCP_RST \<noteq> 0 then tcp_rx_rst env seq c3 else (None, c3))"
  have ok1: "conn_ok (snd r1)" using assms by (simp add: r1_def handle_ack_ok)
  then have "conn_ok c2" by (simp add: c2_def)
  then have ok3: "conn_ok c3" by (simp add: c3_def rx_syn_ok)
  then have r4: "if fst r4 = None then snd r4 = c3 else gone (snd r4)" using rst_ok [of c3 env seq] by (simp add: r4_def)
  have "conn_ok (tcp_rx_finish env win (tcp_rx_enqueue seq (hflags h) iobuf c3))" for win
    using ok3 by (intro finish_ok enqueue_ok)
  moreover have "snd (tcp_rx_conn env lst src h ts scale iobuf c) =
    (if fst r1 \<noteq> None then snd r1 else if fst r4 \<noteq> None then snd r4
     else tcp_rx_finish env (tcp_xfer_window c) (tcp_rx_enqueue seq (hflags h) iobuf (snd r4)))"
    unfolding tcp_rx_conn_def Let_def split_beta r1_def [symmetric] c2_def [symmetric] c3_def [symmetric]
      seq_def [symmetric] r4_def [symmetric] by simp
  ultimately show ?thesis using ok1 r4 by (auto split: if_splits)
qed

lemma discard_ok:
  "conn_ok c \<Longrightarrow> conn_ok (snd (discard_conn c))" "pending_flags (snd (discard_conn c)) = pending_flags c"
  "pending_data (snd (discard_conn c)) = pending_data c"
  by (auto simp: discard_conn_def Let_def conn_ok_def base_ok_def dest: in_set_butlastD)

lemma xfer_close_ok:
  "conn_ok c \<Longrightarrow> conn_ok (tcp_xfer_close env rc c) \<or> gone (tcp_xfer_close env rc c)"
proof -
  assume "conn_ok c"
  then consider "gone (tcp_close env rc c)" | "conn_ok (tcp_close env rc c)"
    using close_ok [of c env rc] by (auto split: if_splits)
  then show ?thesis
    by cases (simp_all add: tcp_xfer_close_def gone_xmit xmit_conn_ok)
qed

lemma xfer_deliver_ok:
  assumes "conn_ok c" "tstate c \<noteq> TCP_LISTEN" "length (concat (tx_queue c)) + length iobuf < 2 ^ 32" "length (tx_queue c) + 1 < 2 ^ 32"
  shows "conn_ok (snd (tcp_xfer_deliver env iobuf c))"
  unfolding tcp_xfer_deliver_def snd_conv
  using assms by (intro xmit_ok) (auto simp: conn_ok_def base_ok_def pend_get_data_def)

lemma expired_ok:
  assumes "conn_ok c"
  shows "conn_ok (tcp_expired env over (c\<lparr>timer := t\<rparr>)) \<or> gone (tcp_expired env over (c\<lparr>timer := t\<rparr>))"
proof -
  have b: "base_ok (c\<lparr>timer := t\<rparr>)" using assms by (simp add: conn_ok_def)
  moreover have "conn_ok (snd (tcp_xmit env (c\<lparr>timer := t\<rparr>)))"
    using assms by (intro xmit_ok [OF b]) (simp add: conn_ok_def)
  ultimately show ?thesis by (simp add: tcp_expired_def reset_gone)
qed

lemma wait_expired_ok: "conn_ok c \<Longrightarrow> gone (tcp_wait_expired env (c\<lparr>wait := t\<rparr>))"
  using reset_gone [of "c\<lparr>wait := t\<rparr>"] by (simp add: tcp_wait_expired_def conn_ok_def)

lemma others_handlers [simp]:
  "others (tcp_expired env over c) = others c" "others (tcp_wait_expired env c) = others c"
  "others (tcp_xfer_close env rc c) = others c" "others (snd (tcp_xfer_deliver env iobuf c)) = others c"
  by (simp_all add: tcp_expired_def tcp_wait_expired_def tcp_xfer_close_def tcp_xfer_deliver_def)

lemma enter_simps [simp]:
  "others (enter c w) = wtotal w - pending_flags c - pending_data c" "conn_ok (enter c w) = conn_ok c"
  "base_ok (enter c w) = base_ok c" "tstate (enter c w) = tstate c" "tx_queue (enter c w) = tx_queue c"
  by (simp_all add: enter_def others_def tcp_conn.defs tcp_ctx.defs conn_ok_def base_ok_def)

lemma truncate_simps [simp]:
  "conn_ok (tcp_conn.truncate c) = conn_ok c" "pending_flags (tcp_conn.truncate c) = pending_flags c"
  "pending_data (tcp_conn.truncate c) = pending_data c"
  by (simp_all add: tcp_conn.defs conn_ok_def base_ok_def)

lemma set_conn_fst [simp]: "map fst (set_conn p c cs) = map fst cs"
  by (simp add: set_conn_def case_prod_beta comp_def if_distrib [of fst])

lemma set_conn_notin: "p \<notin> fst ` set cs \<Longrightarrow> set_conn p c cs = cs"
  by (induction cs) (auto simp: set_conn_def)

lemma set_set_conn: "x \<in> set (set_conn p c cs) \<Longrightarrow> x = (p, c) \<or> x \<in> set cs"
  by (auto simp: set_conn_def split: if_splits)

lemma held_set_conn:
  "distinct (map fst cs) \<Longrightarrow> map_of cs p = Some c0 \<Longrightarrow>
     sum_list (map held (set_conn p c cs)) = sum_list (map held cs) - held (p, c0) + held (p, c)"
proof (induction cs)
  case (Cons x cs)
  obtain q d where x: "x = (q, d)" by (cases x)
  show ?case
  proof (cases "q = p")
    case True
    then have "set_conn p c cs = cs" using Cons.prems(1) x by (intro set_conn_notin) auto
    then show ?thesis using True x Cons.prems(2) by (simp add: set_conn_def)
  next
    case False
    then show ?thesis using Cons x by (simp add: set_conn_def)
  qed
qed simp

lemma held_filter:
  "distinct (map fst cs) \<Longrightarrow> map_of cs p = Some c0 \<Longrightarrow>
     sum_list (map held (filter (\<lambda>(q, d). q \<noteq> p) cs)) = sum_list (map held cs) - held (p, c0)"
proof (induction cs)
  case (Cons x cs)
  obtain q d where x: "x = (q, d)" by (cases x)
  show ?case
  proof (cases "q = p")
    case True
    then have "filter (\<lambda>(q, d). q \<noteq> p) cs = cs" using Cons.prems(1) x by (force simp: filter_id_conv)
    then show ?thesis using True x Cons.prems(2) by simp
  next
    case False
    then show ?thesis using Cons x by simp
  qed
qed simp

lemma leave_ok:
  assumes "world_ok rest w" "map_of (conns w) p = Some c0" "conn_ok c \<or> gone c"
    "others c = wtotal w - pending_flags c0 - pending_data c0"
  shows "world_ok rest (leave p c w)"
proof -
  have d: "distinct (map fst (conns w))" and oks: "\<forall>x \<in> set (conns w). conn_ok (snd x)"
    and tot: "wtotal w = rest + sum_list (map held (conns w))"
    using assms(1) by (auto simp: world_ok_def)
  have pt: "ptotal c = wtotal w - held (p, c0) + (pending_flags c + pending_data c)"
    using assms(4) by (simp add: others_def held_def algebra_simps)
  show ?thesis
  proof (cases "deleted c")
    case True
    then have "pending_flags c = 0" "pending_data c = 0" using assms(3) by (auto simp: gone_def conn_ok_def base_ok_def)
    then have "ptotal c = rest + sum_list (map held (filter (\<lambda>(q, d). q \<noteq> p) (conns w)))"
      unfolding pt held_filter [OF d assms(2)] tot by simp
    then show ?thesis using True d oks by (auto simp: world_ok_def leave_def distinct_map_filter)
  next
    case False
    then have "conn_ok c" using assms(3) by (simp add: gone_def)
    moreover have "ptotal c = rest + sum_list (map held (set_conn p (tcp_conn.truncate c) (conns w)))"
      unfolding pt held_set_conn [OF d assms(2)] tot by (simp add: held_def)
    ultimately show ?thesis using False d oks by (auto simp: world_ok_def leave_def dest!: set_set_conn)
  qed
qed

lemma map_of_ok: "world_ok rest w \<Longrightarrow> map_of (conns w) p = Some c \<Longrightarrow> conn_ok c"
  by (auto simp: world_ok_def dest: map_of_SomeD)

lemma map_of_set_conn: "map_of (set_conn p c cs) q = (if q = p then map_option (\<lambda>_. c) (map_of cs q) else map_of cs q)"
  by (induction cs) (auto simp: set_conn_def split: if_splits)

lemma replace_ok:
  assumes "world_ok rest w" "map_of (conns w) p = Some c0" "conn_ok c" "held (p, c) = held (p, c0)"
  shows "world_ok rest (w\<lparr>conns := set_conn p c (conns w)\<rparr>)"
proof -
  have d: "distinct (map fst (conns w))" using assms(1) by (simp add: world_ok_def)
  show ?thesis using assms held_set_conn [OF d assms(2), of c] by (auto simp: world_ok_def dest!: set_set_conn)
qed

lemma append_ok:
  assumes "world_ok rest w" "p \<notin> fst ` set (conns w)" "conn_ok c" "held (p, c) = 0"
  shows "world_ok rest (w\<lparr>conns := conns w @ [(p, c)]\<rparr>)"
  using assms by (auto simp: world_ok_def)

lemma demux_loop_in:
  "demux_loop lport pport lst cs = Inl p \<Longrightarrow> p \<in> fst ` set cs"
  "demux_loop lport pport lst cs = Inr (Some x) \<Longrightarrow> lst = Some x \<or> x \<in> set cs"
  by (induction lport pport lst cs rule: demux_loop.induct) (auto simp: Let_def split: if_splits)

lemma demux_in: "tcp_demux lport pport cs = Some (Some p) \<Longrightarrow> p \<in> fst ` set cs"
  using demux_loop_in [of lport pport None cs]
  by (force simp: tcp_demux_def split: sum.splits option.splits prod.splits if_splits)

lemma clone_ok:
  assumes "conn_ok c" "tstate c = TCP_LISTEN"
  shows "conn_ok (clone_conn src sport c)" "held (p, clone_conn src sport c) = 0"
  using assms
  by (simp_all add: clone_conn_def Let_def conn_ok_def base_ok_def zero_conn_def tcp_dump_state_def held_def
      TCP_LISTEN_def flags_ok_def)

lemma reset_listener_ok:
  assumes "conn_ok c" "tstate c = TCP_LISTEN"
  shows "conn_ok (reset_listener env c)" "held (p, reset_listener env c) = held (p, c)"
  using assms
  by (simp_all add: reset_listener_def conn_ok_def base_ok_def tcp_dump_state_def held_def TCP_LISTEN_def)

lemma dispatch_ok:
  assumes "world_ok rest w" "map_of (conns w) p = Some c" "fresh env \<notin> fst ` set (conns w)"
  shows "world_ok rest (snd (rx_dispatch env src h ts scale iobuf p c w))"
proof (cases "tstate c = TCP_LISTEN \<and> fresh env \<noteq> NULL")
  case True
  define w1 where "w1 = w\<lparr>conns := set_conn p (reset_listener env c) (conns w)\<rparr>"
  define new where "new = clone_conn src (hsrc h) c"
  define w2 where "w2 = w1\<lparr>conns := conns w1 @ [(fresh env, new)]\<rparr>"
  define r where "r = tcp_rx_conn env (listener w2) src h ts scale iobuf (enter new w2)"
  have ok: "conn_ok c" using assms map_of_ok by blast
  then have "world_ok rest w1" using assms True by (auto simp: w1_def reset_listener_ok intro!: replace_ok)
  moreover have fr: "fresh env \<notin> fst ` set (conns w1)" using assms(3) set_conn_fst [of p _ "conns w"]
    by (simp add: w1_def flip: set_map)
  ultimately have w2: "world_ok rest w2" using clone_ok ok True unfolding w2_def new_def by (intro append_ok) auto
  have "map_of (conns w1) (fresh env) = None" using fr by (simp add: map_of_eq_None_iff)
  then have "map_of (conns w2) (fresh env) = Some new" by (simp add: w2_def map_add_def)
  moreover have "conn_ok (snd r) \<or> gone (snd r)" unfolding r_def using clone_ok ok True by (intro rx_conn_ok) (simp add: new_def)
  ultimately have "world_ok rest (leave (fresh env) (snd r) w2)" using w2 by (intro leave_ok) (simp_all add: r_def)
  moreover have "snd (rx_dispatch env src h ts scale iobuf p c w) = leave (fresh env) (snd r) w2"
    using True by (simp add: rx_dispatch_def Let_def split_beta r_def w2_def w1_def new_def)
  ultimately show ?thesis by simp
next
  case False
  define r where "r = tcp_rx_conn env (listener w) src h ts scale iobuf (enter c w)"
  have "conn_ok (snd r) \<or> gone (snd r)" unfolding r_def using assms map_of_ok by (intro rx_conn_ok) auto
  then have "world_ok rest (leave p (snd r) w)" using assms by (intro leave_ok) (simp_all add: r_def)
  then show ?thesis using False assms(1) by (auto simp: rx_dispatch_def Let_def split_beta r_def)
qed

lemma tcp_rx_ok:
  assumes "world_ok rest w" "fresh env \<notin> fst ` set (conns w)" "tcp_rx env b src csum w = Some (rc, w')"
  shows "world_ok rest w'"
proof (cases "rx_valid csum b")
  case False
  then show ?thesis using assms by (simp add: tcp_rx_def)
next
  case True
  define h where "h = parse_header b"
  define optmem where "optmem = opt_memory env b"
  obtain tcp where tcp: "tcp_demux (ucast (ntohs (hdest h))) (ucast (ntohs (hsrc h))) (conns w) = Some tcp"
    using assms(3) True by (auto simp: tcp_rx_def Let_def h_def split: option.splits)
  obtain options where opts: "tcp_rx_opts optmem (header_len b - 20) = Some options"
    using assms(3) True tcp by (auto simp: tcp_rx_def Let_def h_def optmem_def split: option.splits)
  note eq = assms(3) [unfolded tcp_rx_def Let_def, folded h_def optmem_def, unfolded tcp option.simps opts]
  show ?thesis
  proof (cases tcp)
    case None
    then show ?thesis using eq True assms(1) by (auto simp: world_ok_def)
  next
    case (Some p)
    obtain c where c: "map_of (conns w) p = Some c"
      using demux_in tcp Some by (metis not_Some_eq map_of_eq_None_iff)
    define d where "d = (case tsopt options of None \<Rightarrow> c | Some pos \<Rightarrow> c\<lparr>ts_val := ntohl (field32 optmem (pos + 2))\<rparr>)"
    define w1 where "w1 = w\<lparr>conns := set_conn p d (conns w)\<rparr>"
    have "conn_ok c" using assms(1) c by (rule map_of_ok)
    then have "world_ok rest w1" unfolding w1_def d_def
      by (intro replace_ok [OF assms(1) c]) (auto simp: held_def split: option.splits)
    moreover have "map_of (conns w1) p = Some d" using c by (simp add: w1_def map_of_set_conn)
    moreover have "fresh env \<notin> fst ` set (conns w1)" using assms(2) set_conn_fst [of p d "conns w"]
      by (simp add: w1_def flip: set_map)
    moreover have "(rc, w') = rx_dispatch env src h (tsopt options \<noteq> None)
        (map_option (\<lambda>pos. optmem (pos + 2)) (wsopt options)) (drop (header_len b) b) p d w1"
    proof -
      have "the (map_of (conns w) p) = c" using c by simp
      then show ?thesis using eq True unfolding d_def w1_def by (simp only: Some option.simps) simp
    qed
    ultimately show ?thesis using dispatch_ok by (metis snd_conv)
  qed
qed

lemma bind_port_upd: "\<exists>l. snd (tcp_bind_port port cs c) = c\<lparr>local_port := l\<rparr>"
  by (auto simp: tcp_bind_port_def intro: exI [of _ "local_port c"])

lemma bind_loop_upd: "\<exists>l. snd (bind_loop n t cs c) = c\<lparr>local_port := l\<rparr>"
proof (induction n arbitrary: t c)
  case 0
  then show ?case by (auto intro: exI [of _ "local_port c"])
next
  case (Suc n)
  obtain l where l: "snd (tcp_bind_port (ucast (t + 1)) cs c) = c\<lparr>local_port := l\<rparr>" using bind_port_upd by blast
  obtain l' where "snd (bind_loop n (t + 1) cs (c\<lparr>local_port := l\<rparr>)) = c\<lparr>local_port := l'\<rparr>"
    using Suc.IH [of "t + 1" "c\<lparr>local_port := l\<rparr>"] by auto
  then show ?case using Suc.IH [of "t + 1" c] l
    by (cases "tcp_bind_port (ucast (t + 1)) cs c") (auto simp: Let_def split: option.splits)
qed

lemma bind_upd: "\<exists>l. snd (tcp_bind env port cs c) = c\<lparr>local_port := l\<rparr>"
  by (simp add: tcp_bind_def bind_loop_upd bind_port_upd)

lemma tcp_open_ok:
  assumes "world_ok rest w" "fresh env \<notin> fst ` set (conns w)"
  shows "world_ok rest (snd (tcp_open env st_peer st_local w))"
proof -
  define has_peer where "has_peer = (st_port st_peer \<noteq> 0)"
  define c0 where "c0 = (let
        c = zero_conn\<lparr>prev_state := TCP_CLOSED\<rparr>;
        c = (if \<not> has_peer then c\<lparr>tstate := TCP_LISTEN\<rparr> else c\<lparr>tstate := TCP_STATE_SENT TCP_SYN\<rparr>);
        c = tcp_dump_state c;
        c = c\<lparr>snd_seq := rnd env, max_rcv_win := TCP_MAX_WINDOW_SIZE\<rparr>
      in if has_peer then c\<lparr>peer := st_peer\<rparr> else c)"
  define port where "port = (if \<not> has_peer then LISTEN_PORT else case st_local of Some port \<Rightarrow> ucast (ntohs port) | None \<Rightarrow> 0)"
  define w1 where "w1 = (if \<not> has_peer then w\<lparr>listener := fresh env\<rparr> else w)"
  define b where "b = tcp_bind env port (conns w1) c0"
  obtain l where l: "snd b = c0\<lparr>local_port := l\<rparr>" using bind_upd b_def by blast
  define c1 where "c1 = (if has_peer then (snd b)\<lparr>timer := start_fixed_fields (tps env) (now env) 0 (timer (snd b)),
                                         pending_flags := pending_flags (snd b) + 1\<rparr> else snd b)"
  define w2 where "w2 = (if has_peer then w1\<lparr>wtotal := wtotal w1 + 1\<rparr> else w1)"
  have open_eq: "snd (tcp_open env st_peer st_local w) =
      (if fresh env = NULL then w else if fst b \<noteq> None then w1
       else w2\<lparr>conns := (fresh env, c1) # conns w2, wlog := wlog w2 @ [(fresh env, PlugParent)]\<rparr>)"
    unfolding tcp_open_def Let_def has_peer_def [symmetric] c0_def [unfolded Let_def, symmetric] port_def [symmetric]
      w1_def [symmetric] b_def [symmetric]
    by (cases b) (simp add: c1_def w2_def split: option.split)
  have "conn_ok c1" "held (fresh env, c1) = (if has_peer then 1 else 0)"
    unfolding c1_def l c0_def
    by (simp_all add: Let_def conn_ok_def base_ok_def zero_conn_def tcp_dump_state_def held_def flags_ok_def
        TCP_LISTEN_def TCP_STATE_SENT_def TCP_SYN_def)
  then show ?thesis unfolding open_eq using assms by (auto simp: world_ok_def w1_def w2_def algebra_simps)
qed

lemma shutdown_ok: "world_ok rest w \<Longrightarrow> world_ok rest (tcp_shutdown env w) \<and> conns (tcp_shutdown env w) = []"
proof (induction env w rule: tcp_shutdown.induct)
  case (1 env w)
  show ?case
  proof (cases "conns w")
    case Nil
    then show ?thesis using 1(2) by (simp add: tcp_shutdown.simps [of env w])
  next
    case (Cons x cs)
    obtain p c where x: "x = (p, c)" by (cases x)
    then have c: "map_of (conns w) p = Some c" using Cons by simp
    define d where "d = tcp_close env (Some ECANCELED) (tcp_dump_state ((enter c w)\<lparr>tstate := TCP_CLOSED\<rparr>))"
    have "conn_ok c" using 1(2) c by (rule map_of_ok)
    then have "gone d" unfolding d_def by (intro reset_gone) (simp add: conn_ok_def)
    then have "world_ok rest (leave p d w)" using 1(2) c by (intro leave_ok) (simp_all add: d_def)
    then show ?thesis using 1(1) [OF Cons] x Cons by (simp add: tcp_shutdown.simps [of env w] d_def)
  qed
qed

lemma discard_world_ok: "world_ok rest w \<Longrightarrow> world_ok rest (snd (tcp_discard w))"
proof -
  have "map fst (map (\<lambda>(p, c). (p, snd (discard_conn c))) cs) = map fst cs"
    "map held (map (\<lambda>(p, c). (p, snd (discard_conn c))) cs) = map held cs" for cs :: "(ptr \<times> tcp_conn) list"
    by (auto simp: held_def discard_ok)
  then show "world_ok rest w \<Longrightarrow> world_ok rest (snd (tcp_discard w))"
    by (auto simp: world_ok_def tcp_discard_def discard_ok simp del: map_map)
qed

section \<open>Handlers of one connection\<close>

text \<open>The contract of a handler: it changes the global pending count only together with the counts of its
  own connection, and leaves the connection in a good state or removed with nothing pending.\<close>

locale conn_handler =
  fixes handle :: "tcp_ctx \<Rightarrow> tcp_ctx" and enabled :: "tcp_ctx \<Rightarrow> bool"
  assumes keeps_others: "others (handle c) = others c"
    and keeps_ok: "conn_ok c \<Longrightarrow> enabled c \<Longrightarrow> conn_ok (handle c) \<or> gone (handle c)"
begin

lemma handle_world:
  assumes "world_ok rest w" "map_of (conns w) p = Some c" "enabled (enter c w)"
  shows "world_ok rest (leave p (handle (enter c w)) w)"
  using assms map_of_ok [OF assms(1,2)] keeps_ok [of "enter c w"]
  by (intro leave_ok) (simp_all add: keeps_others)

end

interpretation rx_handler: conn_handler "\<lambda>c. snd (tcp_rx_conn env lst src h ts scale iobuf c)" "\<lambda>_. True"
  for env lst src h ts scale iobuf
  by unfold_locales (simp_all add: rx_conn_ok)

interpretation timer_handler: conn_handler "on_timer env" "\<lambda>_. True" for env
  by unfold_locales (simp_all add: on_timer_def split_beta expired_ok)

interpretation wait_handler: conn_handler "on_wait env" "\<lambda>_. True" for env
  by unfold_locales (simp_all add: on_wait_def wait_expired_ok)

interpretation close_handler: conn_handler "tcp_xfer_close env rc" "\<lambda>_. True" for env rc
  by unfold_locales (simp_all add: xfer_close_ok)

interpretation deliver_handler: conn_handler "\<lambda>c. snd (tcp_xfer_deliver env iobuf c)"
  "\<lambda>c. tstate c \<noteq> TCP_LISTEN \<and> length (concat (tx_queue c)) + length iobuf < 2 ^ 32 \<and> length (tx_queue c) + 1 < 2 ^ 32"
  for env iobuf
  by unfold_locales (simp_all add: xfer_deliver_ok)

lemma conn_ok_good:
  assumes "conn_ok c"
  shows "conn_good c"
proof -
  have f: "\<forall>n < 8. bit (tstate c) (n + 8) \<longrightarrow> bit (tstate c) n"
    using assms by (simp add: conn_ok_def base_ok_def flags_ok_iff)
  have "TCP_FLAGS_ACKED (tstate c) AND NOT (TCP_FLAGS_SENT (tstate c)) = 0"
    unfolding TCP_FLAGS_ACKED_def TCP_FLAGS_SENT_def ff_mask
    by (rule bit_word_eqI) (use f in \<open>auto simp: bit_simps add.commute\<close>)
  then show ?thesis using assms
    by (auto simp: conn_good_def conn_ok_def base_ok_def word_le_nat_alt unat_of_nat take_bit_eq_mod split: if_splits)
qed

lemma tcp_step_ok: "tcp_step w w' \<Longrightarrow> world_ok rest w \<Longrightarrow> world_ok rest w'"
proof (induction rule: tcp_step.induct)
  case (receive env w b src csum rc w')
  then show ?case using tcp_rx_ok by blast
qed (simp_all add: tcp_open_ok timer_handler.handle_world wait_handler.handle_world close_handler.handle_world
    deliver_handler.handle_world discard_world_ok shutdown_ok)

section \<open>Properties\<close>

definition empty_world :: "u32 \<Rightarrow> tcp_world" where
  "empty_world pend0 = \<lparr>conns = [], listener = NULL, wtotal = pend0, wlog = []\<rparr>"


definition demo_env :: tcp_env where
  "demo_env = \<lparr>now = 100, tps = 18, app_window = 65536, alloc_ok = True, tx_rc = None, deliver_rc = (\<lambda>_. None),
     rnd = 7, rnd_port = 2000, fresh = 0x1000, slack = (\<lambda>_. 0)\<rparr>"


end
