(* ===== verification/Tcp_Stream.thy ===== *)
theory Tcp_Stream
  imports Tcp_Invariant
begin

text \<open>
  What TCP does with data: delivery of the received stream in order, transmission and acknowledgement of
  the data of the application, the format of segments and options, resets, and the choice of the connection
  a packet belongs to.
\<close>

section \<open>Streams\<close>

fun delivered :: "tcp_event list \<Rightarrow> byte list" where
  "delivered [] = []"
| "delivered (Deliver b # es) = b @ delivered es"
| "delivered (e # es) = delivered es"

text \<open>A received piece of the stream \<open>S\<close> that starts at sequence number \<open>base\<close>, at offset \<open>ofs\<close>; a FIN
  follows the last byte.\<close>

definition piece :: "byte list \<Rightarrow> u32 \<Rightarrow> rx_packet \<Rightarrow> nat \<Rightarrow> bool" where
  "piece S base p ofs \<longleftrightarrow> qseq p = base + of_nat ofs \<and> ofs + length (qdata p) \<le> length S \<and>
     qdata p = take (length (qdata p)) (drop ofs S) \<and> length (qdata p) \<le> 2 ^ 16 \<and>
     (qflags p AND TCP_FIN \<noteq> 0 \<longrightarrow> ofs + length (qdata p) = length S)"

definition near :: "nat \<Rightarrow> nat \<Rightarrow> bool" where
  "near k ofs \<longleftrightarrow> k \<le> ofs + 2 ^ 29 \<and> ofs \<le> k + 2 ^ 29"

definition rx_at :: "byte list \<Rightarrow> u32 \<Rightarrow> nat \<Rightarrow> 'a tcp_ctx_scheme \<Rightarrow> bool" where
  "rx_at S base k c \<longleftrightarrow> rcv_ack c = base + of_nat k \<and> k \<le> length S + 1 \<and> delivered (log c) = take k S \<and>
     tstate c AND TCP_STATE_RCVD TCP_SYN \<noteq> 0"

definition queue_at :: "byte list \<Rightarrow> u32 \<Rightarrow> nat \<Rightarrow> rx_packet list \<Rightarrow> nat list \<Rightarrow> bool" where
  "queue_at S base k0 q os \<longleftrightarrow> list_all2 (piece S base) q os \<and> sorted os \<and> (\<forall>ofs \<in> set os. near k0 ofs)"

definition seg_opts :: "tcp_env \<Rightarrow> u32 \<Rightarrow> 'a tcp_conn_scheme \<Rightarrow> byte list" where
  "seg_opts env flags c =
     (let opts = (if flags AND TCP_SYN \<noteq> 0 then ws_option_bytes @ mss_option_bytes else [])
      in if flags AND TCP_SYN \<noteq> 0 \<or> cflags c AND TCP_TS_ENABLED \<noteq> 0
         then ts_option_bytes (now env) (ts_recent c) @ opts else opts)"

definition note_option :: "byte \<Rightarrow> nat \<Rightarrow> tcp_options \<Rightarrow> tcp_options" where
  "note_option kind pos options =
     (if kind = TCP_OPTION_MSS then options\<lparr>mssopt := Some pos\<rparr>
      else if kind = TCP_OPTION_WS then options\<lparr>wsopt := Some pos\<rparr>
      else if kind = TCP_OPTION_TS then options\<lparr>tsopt := Some pos\<rparr> else options)"

definition demux_match :: "u32 \<Rightarrow> u32 \<Rightarrow> ptr \<times> tcp_conn \<Rightarrow> bool" where
  "demux_match lport pport pc \<longleftrightarrow>
     local_port (snd pc) = lport \<and> ucast (ntohs (st_port (peer (snd pc)))) = pport \<and> pport \<noteq> 0"

definition rx_stream :: "byte list \<Rightarrow> u32 \<Rightarrow> nat \<Rightarrow> 'a tcp_ctx_scheme \<Rightarrow> bool" where
  "rx_stream S base k c \<longleftrightarrow> rx_at S base k c \<and> (\<exists>os. queue_at S base k (rx_queue c) os \<and> (\<forall>ofs \<in> set os. k < ofs))"

text \<open>An established connection that expects the given sequence number, and has data to send.\<close>

definition demo_rx :: "u32 \<Rightarrow> tcp_ctx" where
  "demo_rx ack = enter (zero_conn\<lparr>tstate := TCP_ESTABLISHED, rcv_ack := ack, rcv_win := 1000, snd_win := 2,
     tx_queue := [[5], [6, 7]], pending_data := 2, peer := \<lparr>st_addr = 1, st_port = 0x5000\<rparr>, snd_seq := 40\<rparr>) (empty_world 2)"

section \<open>Lemmas\<close>

lemma cmp_offsets:
  assumes "\<bar>int a - int b\<bar> < 2 ^ 31"
  shows "tcp_cmp (base + of_nat a) (base + of_nat b) = int a - int b"
proof -
  have "(base + of_nat a) - (base + of_nat b) = (word_of_int (int a - int b) :: u32)" by simp
  moreover have "sint (word_of_int (int a - int b) :: u32) = int a - int b"
    using assms by (simp only: sint_sbintrunc') (simp add: signed_take_bit_int_eq_self)
  ultimately show ?thesis by (simp add: tcp_cmp_def)
qed

lemma unat_offsets:
  assumes "b \<le> a" "a - b < 2 ^ 32"
  shows "unat ((base + of_nat a) - (base + of_nat b) :: u32) = a - b"
proof -
  have "(base + of_nat a) - (base + of_nat b) = (of_nat (a - b) :: u32)" using assms(1) by (simp add: of_nat_diff)
  then show ?thesis using assms(2) by (simp only: unat_of_nat take_bit_eq_mod) simp
qed

lemma delivered_append [simp]: "delivered (xs @ ys) = delivered xs @ delivered ys"
  by (induction xs rule: delivered.induct) auto

lemma rcv_frame [simp]:
  "rcv_ack (pend_put_flags d) = rcv_ack d" "rcv_ack (pend_get_flags d) = rcv_ack d"
  "rcv_ack ((pend_put_data ^^ k) d) = rcv_ack d" "rcv_ack (tcp_dump_state c) = rcv_ack c" "rcv_ack (emit e d) = rcv_ack d"
  "log (pend_put_flags d) = log d" "log (pend_get_flags d) = log d" "log ((pend_put_data ^^ k) d) = log d"
  "log (tcp_dump_state d) = log d" "log (emit e d) = log d @ [e]" "log (tcp_rx_seq n d) = log d"
  "rcv_ack (tcp_rx_seq n c) = rcv_ack c + n"
  by (induction k)
    (simp_all add: pend_put_flags_def pend_get_flags_def pend_put_data_def tcp_dump_state_def emit_def tcp_rx_seq_def Let_def)

lemma tx_rcv_frame [simp]:
  "rcv_ack (snd (snd (tcp_process_tx_queue m r d))) = rcv_ack d" "log (snd (snd (tcp_process_tx_queue m r d))) = log d"
  by (simp_all add: tcp_process_tx_queue_def split_beta)

lemmas rcv_keep =
  keep_Let [where P = "\<lambda>c. (rcv_ack c, log c, rx_queue c) = k" for k] keep_if [where P = "\<lambda>c. (rcv_ack c, log c, rx_queue c) = k" for k]
  skip_Let [where P = "\<lambda>c. (rcv_ack c, log c, rx_queue c) = k" and e = "e :: u32" for k e]

lemma ack_rcv_frame: "(rcv_ack (snd (tcp_rx_ack env ack win c)), log (snd (tcp_rx_ack env ack win c)),
    rx_queue (snd (tcp_rx_ack env ack win c))) = (rcv_ack c, log c, rx_queue c)"
  unfolding tcp_rx_ack_def snd_Let if_distrib [of snd] snd_conv by (intro rcv_keep) simp_all

lemma ack_rcv [simp]:
  "rcv_ack (snd (tcp_rx_ack env ack win c)) = rcv_ack c" "log (snd (tcp_rx_ack env ack win c)) = log c"
  using ack_rcv_frame [of env ack win c] by simp_all

lemma close_rcv_frame:
  assumes "tstate c AND TCP_STATE_RCVD TCP_SYN \<noteq> 0"
  shows "(rcv_ack (tcp_close env rc c), log (tcp_close env rc c), rx_queue (tcp_close env rc c)) =
    (rcv_ack c, log c @ [XferClose rc], rx_queue c)"
  unfolding close_open_eq [OF assms] by (intro rcv_keep) simp_all

lemma rx_data_stream:
  assumes at: "rx_at S base k c" and p: "piece S base p ofs" and o: "ofs \<le> k" "k < ofs + 2 ^ 31"
  shows "\<exists>k'. rx_at S base k' (snd (tcp_rx_data env (qseq p) (qdata p) c)) \<and> k' = max k (ofs + length (qdata p)) \<and>
    rx_queue (snd (tcp_rx_data env (qseq p) (qdata p) c)) = rx_queue c"
proof -
  define len where "len = length (qdata p)"
  have ack: "rcv_ack c = base + of_nat k" and seq: "qseq p = base + of_nat ofs" using at p by (auto simp: rx_at_def piece_def)
  have len: "len \<le> 2 ^ 16" using p by (simp add: piece_def len_def)
  have ulen: "unat (of_nat len :: u32) = len" using len by (simp add: unat_of_nat take_bit_eq_mod)
  have alr: "unat (rcv_ack c - qseq p) = k - ofs" unfolding ack seq using o by (intro unat_offsets) auto
  show ?thesis
  proof (cases "k - ofs \<ge> len")
    case True
    then have "tcp_rx_data env (qseq p) (qdata p) c = (None, c)"
      by (simp add: tcp_rx_data_def Let_def word_le_nat_alt alr ulen flip: len_def)
    moreover have "max k (ofs + len) = k" using True o by linarith
    ultimately show ?thesis using at by (auto simp flip: len_def)
  next
    case False
    then have lt: "k < ofs + len" using o(1) by linarith
    define d where "d = emit (Deliver (drop (k - ofs) (qdata p))) (tcp_rx_seq (of_nat len - (rcv_ack c - qseq p)) c)"
    have "tcp_rx_data env (qseq p) (qdata p) c = (deliver_rc env (drop (k - ofs) (qdata p)), d)"
      using False by (simp add: tcp_rx_data_def Let_def word_le_nat_alt alr ulen d_def flip: len_def)
    moreover have "rcv_ack d = base + of_nat (ofs + len)"
      using ack seq by (simp add: d_def)
    moreover have "delivered (log d) = take (ofs + len) S"
    proof -
      have "qdata p = take len (drop ofs S)" using p by (simp add: piece_def len_def)
      then have "drop (k - ofs) (qdata p) = take (ofs + len - k) (drop k S)" using o(1) by (simp add: drop_take add.commute)
      moreover have "take k S @ take (ofs + len - k) (drop k S) = take (ofs + len) S"
        using lt by (metis le_add_diff_inverse less_imp_le take_add)
      ultimately show ?thesis using at by (simp add: d_def rx_at_def)
    qed
    moreover have "ofs + len \<le> length S" using p by (simp add: piece_def len_def)
    ultimately show ?thesis using at lt by (auto simp: rx_at_def d_def max_def simp flip: len_def)
  qed
qed

lemma rx_fin_stream:
  assumes at: "rx_at S base k c" and k: "length S \<le> k"
  shows "rx_at S base (length S + 1) (snd (tcp_rx_fin env (base + of_nat (length S)) c)) \<and>
    rx_queue (snd (tcp_rx_fin env (base + of_nat (length S)) c)) = rx_queue c"
proof (cases "k = length S")
  case True
  define d where "d = (tcp_rx_seq 1 c)\<lparr>tstate := tstate (tcp_rx_seq 1 c) OR TCP_STATE_RCVD TCP_FIN\<rparr>"
  have syn: "tstate d AND TCP_STATE_RCVD TCP_SYN \<noteq> 0" using at by (simp add: d_def rx_at_def OR_bits)
  have "snd (tcp_rx_fin env (base + of_nat (length S)) c) = tcp_close env None d"
    using at True by (simp add: tcp_rx_fin_def d_def rx_at_def Let_def)
  moreover have "rcv_ack d = base + of_nat (length S + 1)" "log d = log c" "rx_queue d = rx_queue c"
    using at True by (simp_all add: d_def rx_at_def)
  moreover have "take (length S + 1) S = take k S" using True by simp
  ultimately show ?thesis
    using close_rcv_frame [OF syn, of env None] close_tstate [OF syn, of env None] at by (simp add: rx_at_def)
next
  case False
  then have k': "k = length S + 1" using at k by (simp add: rx_at_def)
  have "base + of_nat (length S) \<noteq> rcv_ack c" using at k' by (simp add: rx_at_def)
  then show ?thesis using at k' by (simp add: tcp_rx_fin_def)
qed

lemma rx_insert_at:
  assumes "list_all2 (piece S base) q os" "\<forall>x \<in> set os. near k0 x" "piece S base p ofs" "near k0 ofs" "sorted os"
  shows "\<exists>os'. list_all2 (piece S base) (rx_insert p q) os' \<and> sorted os' \<and> set os' = insert ofs (set os) \<and>
    (p, ofs) \<in> set (zip (rx_insert p q) os')"
  using assms
proof (induction rule: list_all2_induct)
  case Nil
  then show ?case by (intro exI [of _ "[ofs]"]) simp
next
  case (Cons x xs y ys)
  have "qseq p = base + of_nat ofs" "qseq x = base + of_nat y" "near k0 y" using Cons by (auto simp: piece_def)
  then have cmp: "tcp_cmp (qseq p) (qseq x) = int ofs - int y" using Cons.prems(3) by (auto simp: near_def intro!: cmp_offsets)
  show ?case
  proof (cases "ofs < y")
    case True
    then show ?thesis using Cons cmp by (intro exI [of _ "ofs # y # ys"]) auto
  next
    case False
    obtain os' where "list_all2 (piece S base) (rx_insert p xs) os'" "sorted os'" "set os' = insert ofs (set ys)"
      "(p, ofs) \<in> set (zip (rx_insert p xs) os')" using Cons by auto
    then show ?thesis using Cons cmp False by (intro exI [of _ "y # os'"]) auto
  qed
qed

lemma process_rx_stream:
  assumes "rx_at S base k c" "queue_at S base k0 (rx_queue c) os" "k0 \<le> k" "k \<le> k0 + 2 ^ 29 + 2 ^ 17"
  shows "\<exists>k' os'. rx_at S base k' (tcp_process_rx_queue env c) \<and> k \<le> k' \<and>
    queue_at S base k' (rx_queue (tcp_process_rx_queue env c)) os' \<and> (\<forall>ofs \<in> set os'. k' < ofs) \<and>
    (\<forall>(p, ofs) \<in> set (zip (rx_queue c) os). ofs \<le> k' \<longrightarrow> ofs + length (qdata p) \<le> k')"
  using assms
proof (induction env c arbitrary: k os rule: tcp_process_rx_queue.induct)
  case (1 env c)
  show ?case
  proof (cases "rx_queue c")
    case Nil
    then show ?thesis using 1(2-) by (intro exI [of _ k] exI [of _ "[]"])
      (simp add: tcp_process_rx_queue.simps [of env c] queue_at_def)
  next
    case (Cons p q)
    then obtain y ys where os: "os = y # ys" and p: "piece S base p y" and ys: "queue_at S base k0 q ys"
      and y: "near k0 y" "\<forall>x \<in> set ys. y \<le> x"
      using 1(3) by (auto simp: queue_at_def list_all2_Cons1)
    have cmp: "tcp_cmp (qseq p) (rcv_ack c) = int y - int k"
      using 1(2,4,5) p y by (auto simp: rx_at_def piece_def near_def intro!: cmp_offsets)
    show ?thesis
    proof (cases "y \<le> k")
      case False
      then have "tcp_process_rx_queue env c = c" using Cons cmp by (simp add: tcp_process_rx_queue.simps [of env c])
      moreover have "near k x" if "x \<in> set os" for x
        using that 1(3-5) y False os by (auto simp: queue_at_def near_def)
      moreover have "\<forall>ofs \<in> set os. k < ofs" using y(2) os False by auto
      moreover have "\<forall>(p, ofs) \<in> set (zip (rx_queue c) os). k < ofs"
        using \<open>\<forall>ofs \<in> set os. k < ofs\<close> by (auto dest: set_zip_rightD)
      ultimately show ?thesis using 1(2,3) by (intro exI [of _ k] exI [of _ os]) (auto simp: queue_at_def)
    next
      case True
      define c1 where "c1 = c\<lparr>rx_queue := q\<rparr>"
      define c2 where "c2 = snd (tcp_rx_data env (qseq p) (qdata p) c1)"
      define c3 where "c3 = (if qflags p AND TCP_FIN \<noteq> 0 then snd (tcp_rx_fin env (qseq p + of_nat (length (qdata p))) c2) else c2)"
      have "rx_at S base k c1" using 1(2) by (simp add: c1_def rx_at_def)
      then have c2: "rx_at S base (max k (y + length (qdata p))) c2" "rx_queue c2 = q"
        using rx_data_stream [OF _ p True, of c1 env] 1(4,5) y by (auto simp: c2_def c1_def near_def)
      obtain k3 where c3: "rx_at S base k3 c3" "rx_queue c3 = q" "max k (y + length (qdata p)) \<le> k3"
        "k3 \<le> max k (y + length (qdata p) + 1)"
      proof (cases "qflags p AND TCP_FIN = 0")
        case True
        then show ?thesis using that [of "max k (y + length (qdata p))"] c2 by (simp add: c3_def)
      next
        case False
        then have e: "y + length (qdata p) = length S" "qseq p + of_nat (length (qdata p)) = base + of_nat (length S)"
          using p by (auto simp: piece_def simp flip: of_nat_add)
        have "rx_at S base (length S + 1) c3 \<and> rx_queue c3 = q"
          using rx_fin_stream [OF c2(1)] c2(2) False unfolding c3_def e by simp
        then show ?thesis using that [of "length S + 1"] c2(1) e by (auto simp: rx_at_def)
      qed
      have len: "length (qdata p) \<le> 2 ^ 16" using p by (simp add: piece_def)
      have kb: "k0 \<le> k3" "k3 \<le> k0 + 2 ^ 29 + 2 ^ 17" using c3(3,4) 1(4,5) y len by (auto simp: near_def)
      have qa: "queue_at S base k0 (rx_queue c3) ys" using ys c3 by simp
      have proc: "tcp_process_rx_queue env c = tcp_process_rx_queue env c3"
        using Cons cmp True by (subst tcp_process_rx_queue.simps) (simp add: c3_def c2_def c1_def Let_def)
      have nb: "\<not> 0 < tcp_cmp (qseq p) (rcv_ack c)" using cmp True by simp
      obtain k' os' where "rx_at S base k' (tcp_process_rx_queue env c)" "k3 \<le> k'"
          "queue_at S base k' (rx_queue (tcp_process_rx_queue env c)) os'" "\<forall>ofs \<in> set os'. k' < ofs"
          "\<forall>(p, ofs) \<in> set (zip q ys). ofs \<le> k' \<longrightarrow> ofs + length (qdata p) \<le> k'"
        using 1(1) [OF Cons nb c1_def refl refl c2_def refl c3_def c3(1) qa kb] unfolding proc c3(2) by blast
      then show ?thesis using c3(3) Cons os by (intro exI [of _ k'] exI [of _ os']) auto
    qed
  qed
qed

section \<open>Segments on the wire\<close>

lemma load16_stored: "field16 (stored16 x @ b) 0 = x"
  by (auto simp: field16_def stored16_def bit_simps intro!: bit_word_eqI)

lemma load32_stored: "field32 ((!) (stored32 x @ b)) 0 = x"
proof (rule bit_word_eqI)
  fix n :: nat
  assume "n < LENGTH(32)"
  then consider "n < 8" | "8 \<le> n" "n < 16" | "16 \<le> n" "n < 24" | "24 \<le> n" "n < 32" by force
  then show "bit (field32 ((!) (stored32 x @ b)) 0) n = bit x n"
    by cases (auto simp: field32_def stored32_def bit_simps numeral_3_eq_3)
qed

lemma load_skip:
  "field16 (a @ b) (length a + i) = field16 b i" "field32 ((!) (a @ b)) (length a + i) = field32 ((!) b) i"
  by (simp_all add: field16_def field32_def nth_append add.assoc)

lemma length_stored [simp]: "length (stored16 x) = 2" "length (stored32 y) = 4"
  by (simp_all add: stored16_def stored32_def)

lemma ntoh_hton [simp]: "ntohs (htons x) = x" "ntohl (htonl y) = y"
  by (simp_all add: ntohs_def htons_def ntohl_def htonl_def bswap_16_16 bswap_32_32)

lemma length_header [simp]: "length (tcp_header_bytes src dest seq ack hl fl win csum) = 20"
  by (simp add: tcp_header_bytes_def)

lemma parse_header_bytes:
  "parse_header (tcp_header_bytes src dest seq ack hl fl win csum @ b) =
     \<lparr>hsrc = src, hdest = dest, hseq = seq, hack = ack, hflags = ucast fl, hwin = win\<rparr>"
proof -
  define t where "t = stored16 (htons win) @ stored16 csum @ stored16 0 @ b"
  have e: "tcp_header_bytes src dest seq ack hl fl win csum @ b =
      stored16 src @ stored16 dest @ stored32 (htonl seq) @ stored32 (htonl ack) @ [hl, fl] @ t"
    by (simp add: tcp_header_bytes_def t_def)
  have "field16 (stored16 src @ x) 0 = src" for x by (rule load16_stored)
  moreover have "field16 (stored16 src @ stored16 dest @ x) 2 = dest" for x
    using load_skip(1) [of "stored16 src" _ 0] load16_stored by simp
  moreover have "field32 ((!) (stored16 src @ stored16 dest @ stored32 y @ x)) 4 = y" for x y
    using load_skip(2) [of "stored16 src @ stored16 dest" _ 0] load32_stored by simp
  moreover have "field32 ((!) (stored16 src @ stored16 dest @ stored32 z @ stored32 y @ x)) 8 = y" for x y z
    using load_skip(2) [of "stored16 src @ stored16 dest @ stored32 z" _ 0] load32_stored by simp
  moreover have "field16 (stored16 src @ stored16 dest @ stored32 z @ stored32 y @ [hl, fl] @ t) 14 = htons win" for y z
    using load_skip(1) [of "stored16 src @ stored16 dest @ stored32 z @ stored32 y @ [hl, fl]" t 0] load16_stored
    by (simp add: t_def)
  ultimately show ?thesis unfolding parse_header_def e
    by (simp add: nth_append)
qed

lemma header_len_bytes: "header_len (tcp_header_bytes src dest seq ack hl fl win csum @ b) = unat (hl AND TCP_MASK_HLEN) div 16 * 4"
  by (simp add: header_len_def tcp_header_bytes_def nth_append)

lemma header_chksum:
  "tcpip_chksum (tcp_header_bytes src dest seq ack hl fl win 0 @ b) = csum \<Longrightarrow>
     tcpip_continue_chksum TCPIP_EMPTY_CSUM (tcp_header_bytes src dest seq ack hl fl win csum @ b) = 0"
proof -
  define a where "a = stored16 src @ stored16 dest @ stored32 (htonl seq) @ stored32 (htonl ack) @ [hl, fl] @ stored16 (htons win)"
  have e: "tcp_header_bytes src dest seq ack hl fl win c @ b = a @ stored16 c @ stored16 0 @ b" for c
    by (simp add: tcp_header_bytes_def a_def)
  have z: "stored16 0 = [0, 0]" by (simp add: stored16_def)
  assume "tcpip_chksum (tcp_header_bytes src dest seq ack hl fl win 0 @ b) = csum"
  then have "csum = tcpip_continue_chksum TCPIP_EMPTY_CSUM (a @ [0, 0] @ stored16 0 @ b)"
    unfolding e tcpip_chksum_def z by simp
  moreover have "even (length a)" by (simp add: a_def)
  ultimately show ?thesis unfolding e by (intro chksum_verify)
qed

lemma seg_opts_len: "length (seg_opts env flags c) \<in> {0, 12, 20}"
  by (simp add: seg_opts_def Let_def ts_option_bytes_def ws_option_bytes_def mss_option_bytes_def)

lemma seg_hlen:
  assumes "n \<in> {0, 12, 20 :: nat}"
  shows "unat ((push_bit 2 (of_nat (20 + n)) :: byte) AND TCP_MASK_HLEN) div 16 * 4 = 20 + n"
  using assms by (auto simp: TCP_MASK_HLEN_def)

lemma build_segment_eq:
  "\<exists>csum. build_segment env flags len payload c =
     tcp_header_bytes (htons (ucast (local_port c))) (st_port (peer c)) (snd_seq c) (rcv_ack c)
       (push_bit 2 (of_nat (20 + length (seg_opts env flags c)))) (ucast (if len \<noteq> 0 then flags OR TCP_PSH else flags))
       (ucast (drop_bit (unat (rcv_win_scale c)) (rcv_win c))) csum @ seg_opts env flags c @ payload \<and>
     tcpip_continue_chksum TCPIP_EMPTY_CSUM (build_segment env flags len payload c) = 0"
  unfolding build_segment_def Let_def seg_opts_def [unfolded Let_def, symmetric]
  by (rule exI, rule conjI, rule refl, rule header_chksum, rule refl)

lemma loop_stop: "len \<le> pos \<Longrightarrow> rx_opts_loop m pos len options = Some options"
  by (subst rx_opts_loop.simps) simp

lemma loop_nop: "m pos = TCP_OPTION_NOP \<Longrightarrow> pos < len \<Longrightarrow> rx_opts_loop m pos len options = rx_opts_loop m (pos + 1) len options"
  by (subst rx_opts_loop.simps) (simp add: TCP_OPTION_NOP_def TCP_OPTION_END_def)

lemma loop_opt:
  "m pos \<noteq> TCP_OPTION_END \<Longrightarrow> m pos \<noteq> TCP_OPTION_NOP \<Longrightarrow> pos < len \<Longrightarrow>
     rx_opts_loop m pos len options = rx_opts_loop m (pos + unat (m (pos + 1))) len (note_option (m pos) pos options)"
  by (subst rx_opts_loop.simps) (simp add: note_option_def Let_def)

lemmas option_codes = TCP_OPTION_END_def TCP_OPTION_NOP_def TCP_OPTION_MSS_def TCP_OPTION_WS_def TCP_OPTION_TS_def

lemma rx_opts_ts:
  assumes "m 0 = 1" "m 1 = 1" "m 2 = 8" "m 3 = 10" "12 \<le> len"
  shows "tcp_rx_opts m len = rx_opts_loop m 12 len \<lparr>mssopt = None, wsopt = None, tsopt = Some 2\<rparr>"
  using assms by (simp add: tcp_rx_opts_def loop_nop loop_opt note_option_def option_codes flip: numeral_2_eq_2)

lemma rx_opts_syn:
  assumes "m 12 = 1" "m 13 = 3" "m 14 = 3" "m 16 = 2" "m 17 = 4"
  shows "rx_opts_loop m 12 20 options = Some (options\<lparr>wsopt := Some 13, mssopt := Some 16\<rparr>)"
  using assms by (simp add: loop_nop loop_opt loop_stop note_option_def option_codes)

lemma opt_memory_append: "length h = 20 \<Longrightarrow> i < length x \<Longrightarrow> opt_memory env (h @ x) i = x ! i"
  by (simp add: opt_memory_def nth_append)

lemma seg_opts_parse:
  assumes "length h = 20"
  shows "tcp_rx_opts (opt_memory env' (h @ seg_opts env flags c @ payload)) (length (seg_opts env flags c)) =
    Some (if flags AND TCP_SYN \<noteq> 0 then \<lparr>mssopt = Some 16, wsopt = Some 13, tsopt = Some 2\<rparr>
          else if cflags c AND TCP_TS_ENABLED \<noteq> 0 then \<lparr>mssopt = None, wsopt = None, tsopt = Some 2\<rparr>
          else \<lparr>mssopt = None, wsopt = None, tsopt = None\<rparr>)"
proof -
  define o' where "o' = seg_opts env flags c"
  have m: "opt_memory env' (h @ o' @ payload) i = o' ! i" if "i < length o'" for i
    using that assms by (simp add: opt_memory_append nth_append)
  consider "flags AND TCP_SYN \<noteq> 0" | "flags AND TCP_SYN = 0" "cflags c AND TCP_TS_ENABLED \<noteq> 0"
    | "flags AND TCP_SYN = 0" "cflags c AND TCP_TS_ENABLED = 0" by blast
  then show ?thesis
  proof cases
    case 1
    have o': "o' = [1, 1, 8, 10] @ stored32 (htonl (now env)) @ stored32 (htonl (ts_recent c)) @ [1, 3, 3, 9] @ [2, 4] @ stored16 (htons TCP_MSS)"
      using 1 by (simp add: o'_def seg_opts_def ts_option_bytes_def ws_option_bytes_def mss_option_bytes_def option_codes TCP_RX_WINDOW_SCALE_def)
    then have n: "length o' = 20" "o' ! 0 = 1" "o' ! 1 = 1" "o' ! 2 = 8" "o' ! 3 = 10" "o' ! 12 = 1" "o' ! 13 = 3"
      "o' ! 14 = 3" "o' ! 16 = 2" "o' ! 17 = 4" by (simp_all add: stored32_def)
    show ?thesis using 1 n unfolding o'_def [symmetric]
      by (subst rx_opts_ts) (simp_all add: m rx_opts_syn)
  next
    case 2
    have o': "o' = [1, 1, 8, 10] @ stored32 (htonl (now env)) @ stored32 (htonl (ts_recent c))"
      using 2 by (simp add: o'_def seg_opts_def ts_option_bytes_def option_codes)
    then have n: "length o' = 12" "o' ! 0 = 1" "o' ! 1 = 1" "o' ! 2 = 8" "o' ! 3 = 10" by (simp_all add: stored32_def)
    show ?thesis using 2 n unfolding o'_def [symmetric]
      by (subst rx_opts_ts) (simp_all add: m loop_stop)
  next
    case 3
    then show ?thesis by (simp add: seg_opts_def tcp_rx_opts_def loop_stop)
  qed
qed

lemma close_reset_effect:
  fixes c :: "'a tcp_ctx_scheme"
  assumes d_def: "d = tcp_close env rc (tcp_dump_state (c\<lparr>tstate := TCP_CLOSED\<rparr>))"
  shows "log d = log c @ [XferClose rc]" "tx_queue d = []" "rx_queue d = []" "\<not> running (timer d)" "\<not> running (wait d)" "deleted d"
proof -
  define e where "e = (emit (XferClose rc) (tcp_dump_state (c\<lparr>tstate := TCP_CLOSED\<rparr>)))\<lparr>cflags := cflags c OR TCP_XFER_CLOSED\<rparr>"
  define n where "n = length (tx_queue c)"
  define f where "f = pend_put_flags (pend_put_flags ((pend_put_data ^^ n) ((tcp_dump_state (e\<lparr>tstate := TCP_CLOSED\<rparr>))\<lparr>rx_queue := [], tx_queue := []\<rparr>)))"
  have "tstate e AND TCP_STATE_RCVD TCP_SYN = 0"
    by (simp add: e_def TCP_CLOSED_def TCP_RST_def TCP_STATE_RCVD_def TCP_SYN_def)
  moreover have "tx_queue e = tx_queue c" by (simp add: e_def emit_def tcp_dump_state_def)
  ultimately have d: "d = f\<lparr>timer := stop_fields (now env) (timer f), wait := stop_fields (now env) (wait f), deleted := True\<rparr>"
    unfolding d_def tcp_close_def Let_def e_def f_def n_def by (simp add: emit_def tcp_dump_state_def)
  have tx: "tx_queue ((pend_put_data ^^ m) x) = tx_queue x" for m and x :: "'a tcp_ctx_scheme"
    by (induction m) (simp_all add: pend_put_data_def)
  have txf: "tx_queue (pend_put_flags x) = tx_queue x" for x :: "'a tcp_ctx_scheme" by (simp add: pend_put_flags_def)
  have "log f = log c @ [XferClose rc]" "rx_queue f = []" "tx_queue f = []"
    by (simp_all add: f_def e_def tx txf)
  moreover have "\<not> running (stop_fields t x)" for t x by (simp add: stop_fields_def Let_def)
  ultimately show "log d = log c @ [XferClose rc]" "tx_queue d = []" "rx_queue d = []" "\<not> running (timer d)" "\<not> running (wait d)" "deleted d"
    by (simp_all add: d)
qed

lemma tx_more_frame [simp]:
  "snd_seq (snd (snd (tcp_process_tx_queue m r c))) = snd_seq c" "snd_win (snd (snd (tcp_process_tx_queue m r c))) = snd_win c"
proof -
  have "snd_seq ((pend_put_data ^^ n) c) = snd_seq c \<and> snd_win ((pend_put_data ^^ n) c) = snd_win c" for n and c :: "'a tcp_ctx_scheme"
    by (induction n) (simp_all add: pend_put_data_def)
  then show "snd_seq (snd (snd (tcp_process_tx_queue m r c))) = snd_seq c" "snd_win (snd (snd (tcp_process_tx_queue m r c))) = snd_win c"
    by (simp_all add: tcp_process_tx_queue_def split_beta)
qed

lemma pend_more_frame [simp]:
  "tx_queue (pend_put_flags c) = tx_queue c" "tx_queue (pend_get_flags c) = tx_queue c" "snd_seq (pend_get_flags c) = snd_seq c"
  "snd_win (pend_get_flags c) = snd_win c" "pending_data (pend_put_flags c) = pending_data c"
  by (simp_all add: pend_put_flags_def pend_get_flags_def)

lemma rx_ack_accept:
  fixes c :: "'a tcp_ctx_scheme"
  assumes ok: "conn_ok c" and n: "ack - snd_seq c \<noteq> 0" "ack - snd_seq c \<le> snd_sent c"
    and c'_def: "c' = snd (tcp_rx_ack env ack win c)"
  shows "fst (tcp_rx_ack env ack win c) = None" "concat (tx_queue c') = drop (unat (ack - snd_seq c) - seq_flags c) (concat (tx_queue c))"
    "snd_seq c' = ack" "snd_sent c' = 0" "snd_win c' = win"
    "TCP_FLAGS_ACKED (tstate c') = TCP_FLAGS_ACKED (tstate c) OR (TCP_FLAGS_SENDING (tstate c) AND (TCP_SYN OR TCP_FIN))"
proof -
  define k where "k = ack - snd_seq c"
  define c1 where "c1 = c\<lparr>timer := stop_fields (now env) (timer c)\<rparr>"
  define F where "F = TCP_FLAGS_SENDING (tstate c1) AND (TCP_SYN OR TCP_FIN)"
  define c2 where "c2 = (if F \<noteq> 0 then pend_put_flags c1 else c1)"
  define c3 where "c3 = c2\<lparr>snd_seq := ack, snd_sent := 0, snd_win := win\<rparr>"
  define m where "m = (if F \<noteq> 0 then k - 1 else k)"
  define c4 where "c4 = snd (snd (tcp_process_tx_queue m True c3))"
  define c5 where "c5 = (if F \<noteq> 0 then c4\<lparr>tstate := tstate c4 OR TCP_STATE_ACKED F\<rparr> else c4)"
  define c6 where "c6 = (if tx_queue c5 = [] \<and> cflags c5 AND TCP_XFER_CLOSED \<noteq> 0 \<and> tstate c5 AND TCP_STATE_SENT TCP_FIN = 0
             then pend_get_flags (c5\<lparr>tstate := tstate c5 OR TCP_STATE_SENT TCP_FIN\<rparr>) else c5)"
  have run: "tcp_rx_ack env ack win c = (None, c6)"
    unfolding tcp_rx_ack_def Let_def k_def [symmetric] c1_def [symmetric] F_def [symmetric] c2_def [symmetric] m_def [symmetric]
      c3_def [symmetric] c4_def [symmetric] c5_def [symmetric] c6_def [symmetric] using n by (auto simp: k_def)
  have F: "F = TCP_FLAGS_SENDING (tstate c) AND (TCP_SYN OR TCP_FIN)" by (simp add: F_def c1_def)
  have um: "unat m = unat k - seq_flags c"
    using n(1) by (simp add: m_def seq_flags_def F k_def unat_minus_one)
  have q3: "tx_queue c3 = tx_queue c" "pending_data c3 = pending_data c" by (simp_all add: c3_def c2_def c1_def)
  have "length (concat (tx_queue c3)) < 2 ^ 32" "length (tx_queue c3) < 2 ^ 32" "pending_data c3 = of_nat (length (tx_queue c3))"
    using ok by (simp_all add: q3 conn_ok_def base_ok_def)
  then have "concat (tx_queue c4) = drop (unat m) (concat (tx_queue c3))" unfolding c4_def by (rule tx_remove [of c3 m]) simp
  moreover have "tx_queue c6 = tx_queue c4" by (simp add: c6_def c5_def)
  ultimately have q6: "concat (tx_queue c6) = drop (unat k - seq_flags c) (concat (tx_queue c))" by (simp add: um q3)
  have f6: "snd_seq c6 = ack" "snd_sent c6 = 0" "snd_win c6 = win" by (simp_all add: c6_def c5_def c4_def c3_def)
  have "tstate c4 = tstate c" by (simp add: c4_def c3_def c2_def c1_def)
  then have "tstate c6 = tstate c OR TCP_STATE_ACKED F \<or> tstate c6 = tstate c OR TCP_STATE_ACKED F OR TCP_STATE_SENT TCP_FIN"
    by (auto simp: c6_def c5_def TCP_STATE_ACKED_def ac_simps)
  moreover have "TCP_FLAGS_ACKED (s OR TCP_STATE_SENT TCP_FIN) = TCP_FLAGS_ACKED s" for s
    by (simp add: TCP_FLAGS_ACKED_def TCP_STATE_SENT_def TCP_FIN_def drop_bit_or)
  moreover have "TCP_FLAGS_ACKED (s OR TCP_STATE_ACKED F) = TCP_FLAGS_ACKED s OR F" for s
    by (auto simp: TCP_FLAGS_ACKED_def TCP_STATE_ACKED_def F TCP_FLAGS_SENDING_def TCP_FLAGS_SENT_def ff_mask bit_simps intro!: bit_word_eqI)
  ultimately have "TCP_FLAGS_ACKED (tstate c6) = TCP_FLAGS_ACKED (tstate c) OR F" by (metis or.assoc)
  then show "fst (tcp_rx_ack env ack win c) = None" "concat (tx_queue c') = drop (unat (ack - snd_seq c) - seq_flags c) (concat (tx_queue c))"
    "snd_seq c' = ack" "snd_sent c' = 0" "snd_win c' = win"
    "TCP_FLAGS_ACKED (tstate c') = TCP_FLAGS_ACKED (tstate c) OR (TCP_FLAGS_SENDING (tstate c) AND (TCP_SYN OR TCP_FIN))"
    using run q6 f6 by (simp_all add: c'_def k_def F)
qed

lemma sending_byte: "ucast (ucast (TCP_FLAGS_SENDING s) :: byte) = TCP_FLAGS_SENDING s"
  by (auto simp: TCP_FLAGS_SENDING_def TCP_FLAGS_SENT_def ff_mask bit_simps intro!: bit_word_eqI)

lemma rx_opts_total:
  assumes "\<And>pos. pos < len \<Longrightarrow> m pos \<noteq> TCP_OPTION_END \<Longrightarrow> m pos \<noteq> TCP_OPTION_NOP \<Longrightarrow> m (pos + 1) \<noteq> 0"
  shows "\<exists>options'. rx_opts_loop m pos len options = Some options'"
proof (induction "len - pos" arbitrary: pos options rule: less_induct)
  case less
  show ?case
  proof (cases "pos < len")
    case False
    then show ?thesis by (simp add: loop_stop)
  next
    case True
    consider "m pos = TCP_OPTION_END" | "m pos = TCP_OPTION_NOP" | "m pos \<noteq> TCP_OPTION_END" "m pos \<noteq> TCP_OPTION_NOP" by blast
    then show ?thesis
    proof cases
      case 1
      then show ?thesis using True by (simp add: rx_opts_loop.simps)
    next
      case 2
      then show ?thesis using True less [of "pos + 1"] by (simp add: loop_nop)
    next
      case 3
      have "0 < unat (m (pos + 1))" using assms [OF True 3] by (simp add: word_neq_0_conv unat_gt_0)
      then show ?thesis using True 3 less [of "pos + unat (m (pos + 1))"] by (simp add: loop_opt)
    qed
  qed
qed

lemma rx_opts_stuck:
  assumes "rx_opts_loop m pos len options = Some r" "pos < len" "m pos \<noteq> TCP_OPTION_END" "m pos \<noteq> TCP_OPTION_NOP" "m (pos + 1) = 0"
  shows False
proof -
  have "rx_opts_loop m p l opt = Some r \<Longrightarrow>
      \<not> (p < l \<and> m p \<noteq> TCP_OPTION_END \<and> m p \<noteq> TCP_OPTION_NOP \<and> m (p + 1) = 0)" for m p l opt r
  proof (induction rule: rx_opts_loop.raw_induct [rotated, consumes 1, case_names loop])
    case (loop f data pos len options r)
    show ?case
    proof
      assume s: "pos < len \<and> data pos \<noteq> TCP_OPTION_END \<and> data pos \<noteq> TCP_OPTION_NOP \<and> data (pos + 1) = 0"
      then obtain opt where "f data pos len opt = Some r" using loop(2) by (auto simp: Let_def)
      then show False using loop(1) s by blast
    qed
  qed
  then show ?thesis using assms by blast
qed

lemma demux_loop_eq:
  "demux_loop lport pport lst cs =
     (case find (demux_match lport pport) cs of
        Some pc \<Rightarrow> Inl (fst pc)
      | None \<Rightarrow> Inr (case filter (\<lambda>pc. tstate (snd pc) = TCP_LISTEN) cs of [] \<Rightarrow> lst | ls \<Rightarrow> Some (last ls)))"
proof (induction lport pport lst cs rule: demux_loop.induct)
  case (2 lport pport lst p c cs)
  show ?case
  proof (cases "demux_match lport pport (p, c)")
    case True
    then show ?thesis by (simp add: demux_match_def)
  next
    case False
    then show ?thesis using 2 [OF refl] by (auto simp: demux_match_def Let_def split: option.split list.split)
  qed
qed simp

lemma enqueue_at:
  assumes at: "rx_at S base k c" and q: "queue_at S base k (rx_queue c) os"
    and p: "piece S base \<lparr>qseq = seq, qflags = flags AND TCP_FIN, qdata = iobuf\<rparr> ofs" and n: "near k ofs"
  shows "\<exists>os1. rx_at S base k (tcp_rx_enqueue seq flags iobuf c) \<and>
    queue_at S base k (rx_queue (tcp_rx_enqueue seq flags iobuf c)) os1 \<and>
    (tcp_rx_enqueue seq flags iobuf c = c \<or>
     (\<lparr>qseq = seq, qflags = flags AND TCP_FIN, qdata = iobuf\<rparr>, ofs) \<in> set (zip (rx_queue (tcp_rx_enqueue seq flags iobuf c)) os1))"
proof -
  define p where "p = \<lparr>qseq = seq, qflags = flags AND TCP_FIN, qdata = iobuf\<rparr>"
  obtain os1 where os1: "list_all2 (piece S base) (rx_insert p (rx_queue c)) os1" "sorted os1" "set os1 = insert ofs (set os)"
    "(p, ofs) \<in> set (zip (rx_insert p (rx_queue c)) os1)"
    using rx_insert_at [of S base "rx_queue c" os k p ofs] q assms(3) n by (auto simp: queue_at_def p_def)
  have "tcp_rx_enqueue seq flags iobuf c = c \<or> tcp_rx_enqueue seq flags iobuf c = c\<lparr>rx_queue := rx_insert p (rx_queue c)\<rparr>"
    unfolding tcp_rx_enqueue_def Let_def p_def by simp
  then consider "tcp_rx_enqueue seq flags iobuf c = c" | "tcp_rx_enqueue seq flags iobuf c = c\<lparr>rx_queue := rx_insert p (rx_queue c)\<rparr>"
    by blast
  then show ?thesis
  proof cases
    case 1
    then show ?thesis using at q by auto
  next
    case 2
    moreover have "queue_at S base k (rx_insert p (rx_queue c)) os1" using os1 q n by (auto simp: queue_at_def)
    ultimately show ?thesis using at os1 by (intro exI [of _ os1]) (auto simp: rx_at_def p_def)
  qed
qed

lemma length_rx_insert [simp]: "length (rx_insert p q) = Suc (length q)"
  by (induction q) auto

lemma enqueue_dropped:
  assumes at: "rx_at S base k c" and p: "piece S base \<lparr>qseq = seq, qflags = flags AND TCP_FIN, qdata = iobuf\<rparr> ofs" and "near k ofs"
    and w: "ofs \<le> k" "k \<le> ofs + length iobuf" "0 < rcv_win c" "unat (rcv_win c) \<le> 2 ^ 29"
    and same: "tcp_rx_enqueue seq flags iobuf c = c"
  shows "length iobuf = 0"
proof (rule ccontr)
  assume ne: "length iobuf \<noteq> 0"
  define e where "e = (if flags AND TCP_FIN \<noteq> 0 then 1 else 0 :: nat)"
  have len: "length iobuf \<le> 2 ^ 16" and seq: "seq = base + of_nat ofs" using p by (simp_all add: piece_def)
  have ack: "rcv_ack c = base + of_nat k" and syn: "tstate c AND TCP_STATE_RCVD TCP_SYN \<noteq> 0" using at by (simp_all add: rx_at_def)
  have sl: "of_nat (length iobuf) + (if flags AND TCP_FIN \<noteq> 0 then 1 else 0) = (of_nat (length iobuf + e) :: u32)"
    by (simp add: e_def)
  have "unat (of_nat (length iobuf + e) :: u32) = length iobuf + e"
    using len by (subst unat_of_nat) (simp add: take_bit_eq_mod e_def)
  then have nz: "(of_nat (length iobuf + e) :: u32) \<noteq> 0" using ne by (metis add_is_0 unsigned_0)
  have win: "rcv_ack c + rcv_win c = base + of_nat (k + unat (rcv_win c))" by (simp add: ack)
  have "0 < unat (rcv_win c)" using w(3) by (simp add: word_less_nat_alt)
  moreover have "tcp_cmp seq (rcv_ack c + rcv_win c) = int ofs - int (k + unat (rcv_win c))"
  proof -
    have "\<bar>int ofs - int (k + u)\<bar> < 2 ^ 31" if "u \<le> 2 ^ 29" for u using that w(1) assms(3) by (auto simp: near_def)
    then show ?thesis unfolding win seq using w(4) by (intro cmp_offsets) blast
  qed
  ultimately have c1: "\<not> tcp_cmp seq (rcv_ack c + rcv_win c) \<ge> 0" using w(1) by linarith
  have "seq + of_nat (length iobuf + e) = base + of_nat (ofs + length iobuf + e)" by (simp add: seq)
  moreover have "tcp_cmp (base + of_nat (ofs + length iobuf + e)) (rcv_ack c) = int (ofs + length iobuf + e) - int k"
    unfolding ack using w(1,2) len by (intro cmp_offsets) (auto simp: e_def)
  ultimately have "tcp_cmp (seq + of_nat (length iobuf + e)) (rcv_ack c) = int (ofs + length iobuf + e) - int k" by (simp only:)
  then have c2: "\<not> tcp_cmp (seq + of_nat (length iobuf + e)) (rcv_ack c) < 0" using w(2) by linarith
  have "tcp_rx_enqueue seq flags iobuf c =
      c\<lparr>rx_queue := rx_insert \<lparr>qseq = seq, qflags = flags AND TCP_FIN, qdata = iobuf\<rparr> (rx_queue c)\<rparr>"
    unfolding tcp_rx_enqueue_def Let_def sl using syn c1 c2 nz by simp
  then have "rx_queue (tcp_rx_enqueue seq flags iobuf c) =
      rx_insert \<lparr>qseq = seq, qflags = flags AND TCP_FIN, qdata = iobuf\<rparr> (rx_queue c)" by simp
  then have "length (rx_queue c) = length (rx_insert \<lparr>qseq = seq, qflags = flags AND TCP_FIN, qdata = iobuf\<rparr> (rx_queue c))"
    unfolding same by (rule arg_cong)
  then show False by simp
qed

lemma segment_wire:
  fixes c :: "'a tcp_conn_scheme"
  assumes "b = build_segment env flags len payload c"
  shows "rx_valid TCPIP_EMPTY_CSUM b" "drop (header_len b) b = payload"
    "parse_header b = \<lparr>hsrc = htons (ucast (local_port c)), hdest = st_port (peer c), hseq = snd_seq c, hack = rcv_ack c,
       hflags = ucast (ucast (if len \<noteq> 0 then flags OR TCP_PSH else flags) :: byte),
       hwin = ucast (drop_bit (unat (rcv_win_scale c)) (rcv_win c))\<rparr>"
    "header_len b = 20 + length (seg_opts env flags c)"
    "\<exists>h. length h = 20 \<and> b = h @ seg_opts env flags c @ payload"
proof -
  define h where "h csum = tcp_header_bytes (htons (ucast (local_port c))) (st_port (peer c)) (snd_seq c) (rcv_ack c)
       (push_bit 2 (of_nat (20 + length (seg_opts env flags c)))) (ucast (if len \<noteq> 0 then flags OR TCP_PSH else flags))
       (ucast (drop_bit (unat (rcv_win_scale c)) (rcv_win c))) csum" for csum
  obtain csum where b: "b = h csum @ seg_opts env flags c @ payload" and ck: "tcpip_continue_chksum TCPIP_EMPTY_CSUM b = 0"
    using build_segment_eq [of env flags len payload c] assms by (auto simp: h_def)
  have lh: "length (h csum) = 20" by (simp add: h_def)
  show hl: "header_len b = 20 + length (seg_opts env flags c)"
    unfolding b h_def header_len_bytes by (rule seg_hlen [OF seg_opts_len])
  show "rx_valid TCPIP_EMPTY_CSUM b" using ck hl lh b by (simp add: rx_valid_def)
  show "drop (header_len b) b = payload" unfolding hl using lh b by simp
  show "parse_header b = \<lparr>hsrc = htons (ucast (local_port c)), hdest = st_port (peer c), hseq = snd_seq c, hack = rcv_ack c,
       hflags = ucast (ucast (if len \<noteq> 0 then flags OR TCP_PSH else flags) :: byte),
       hwin = ucast (drop_bit (unat (rcv_win_scale c)) (rcv_win c))\<rparr>"
    unfolding b h_def by (rule parse_header_bytes)
  show "\<exists>h. length h = 20 \<and> b = h @ seg_opts env flags c @ payload" using lh b by blast
qed

lemma psh_masked:
  "ucast (ucast (f OR TCP_PSH) :: byte) AND NOT TCP_PSH = (ucast (ucast f :: byte) :: u32) AND NOT TCP_PSH"
proof -
  have "TCP_PSH = push_bit 3 1" by (simp add: TCP_PSH_def)
  then show ?thesis by (auto simp: bit_simps intro!: bit_word_eqI)
qed

lemma armed_sent: "unat (snd_sent (armed env c)) = length (tx_payload c) + seq_flags c"
proof -
  have "length (tx_payload c) + seq_flags c < 2 ^ 32" using tx_payload_bound [of c] by (simp add: seq_flags_def)
  then have "unat (of_nat (length (tx_payload c) + seq_flags c) :: u32) = length (tx_payload c) + seq_flags c"
    by (simp only: unat_of_nat take_bit_eq_mod) simp
  moreover have "snd_sent (armed env c) = of_nat (length (tx_payload c) + seq_flags c)" unfolding armed_def Let_def by simp
  ultimately show ?thesis by metis
qed

section \<open>Properties\<close>

text \<open>C2: the receiver delivers the byte stream in order, without loss or duplication, across wrap-around
  of the sequence numbers.  The peer sends the stream \<open>S\<close> from sequence number \<open>base\<close> on and then a FIN; a
  receiver that has acknowledged \<open>k\<close> positions has delivered exactly the first \<open>k\<close> bytes to the
  application and queues only pieces beyond \<open>k\<close>.  Whatever piece arrives (in or out of order, repeated,
  overlapping, within half a gigabyte of the current position), the receiver is again in such a state for
  some \<open>k' \<ge> k\<close>; and a piece that starts at or before \<open>k\<close> and fits the window is acknowledged to its end.\<close>

theorem rx_in_order_delivery:
  assumes "rx_stream S base k c"
    and "piece S base \<lparr>qseq = seq, qflags = flags AND TCP_FIN, qdata = iobuf\<rparr> ofs" "near k ofs"
  shows "\<exists>k' \<ge> k. rx_stream S base k' (tcp_process_rx_queue env (tcp_rx_enqueue seq flags iobuf c)) \<and>
    (ofs \<le> k \<and> k \<le> ofs + length iobuf \<and> 0 < rcv_win c \<and> unat (rcv_win c) \<le> 2 ^ 29 \<longrightarrow> ofs + length iobuf \<le> k')"
proof -
  define p where "p = \<lparr>qseq = seq, qflags = flags AND TCP_FIN, qdata = iobuf\<rparr>"
  define d where "d = tcp_rx_enqueue seq flags iobuf c"
  obtain os where at: "rx_at S base k c" and q: "queue_at S base k (rx_queue c) os" and gap: "\<forall>x \<in> set os. k < x"
    using assms(1) by (auto simp: rx_stream_def)
  obtain os1 where d: "rx_at S base k d" "queue_at S base k (rx_queue d) os1"
    and queued: "d = c \<or> (p, ofs) \<in> set (zip (rx_queue d) os1)"
    using enqueue_at [OF at q assms(2,3)] by (auto simp: d_def p_def)
  obtain k' os' where k': "rx_at S base k' (tcp_process_rx_queue env d)" "k \<le> k'"
      "queue_at S base k' (rx_queue (tcp_process_rx_queue env d)) os'" "\<forall>x \<in> set os'. k' < x"
      "\<forall>(p, ofs) \<in> set (zip (rx_queue d) os1). ofs \<le> k' \<longrightarrow> ofs + length (qdata p) \<le> k'"
    using process_rx_stream [OF d, of env] by auto
  have "ofs + length iobuf \<le> k'" if w: "ofs \<le> k" "k \<le> ofs + length iobuf" "0 < rcv_win c" "unat (rcv_win c) \<le> 2 ^ 29"
  proof (cases "d = c")
    case True
    then have "length iobuf = 0" using enqueue_dropped [OF at assms(2,3) w] by (simp add: d_def)
    then show ?thesis using w(1) k'(2) by simp
  next
    case False
    then have "(p, ofs) \<in> set (zip (rx_queue d) os1)" using queued by simp
    then show ?thesis using k'(2,5) w(1) by (auto simp: p_def)
  qed
  then show ?thesis using k' by (intro exI [of _ k']) (auto simp: rx_stream_def d_def)
qed

theorem rx_in_order_delivery_witness:
  "\<exists>k'. 2 \<le> k' \<and> rx_stream [1, 2, 3] 0xFFFFFFFF k' (tcp_process_rx_queue demo_env
     (tcp_rx_enqueue 0xFFFFFFFF TCP_ACK [1, 2] (demo_rx 0xFFFFFFFF)))"
proof -
  have "rx_stream [1, 2, 3] 0xFFFFFFFF 0 (demo_rx 0xFFFFFFFF)"
    by (simp add: rx_stream_def rx_at_def queue_at_def demo_rx_def zero_conn_def enter_def tcp_conn.defs tcp_ctx.defs
        TCP_ESTABLISHED_def TCP_STATE_SENT_def TCP_STATE_ACKED_def TCP_STATE_RCVD_def TCP_SYN_def TCP_ACK_def)
  moreover have "piece [1, 2, 3] 0xFFFFFFFF \<lparr>qseq = 0xFFFFFFFF, qflags = TCP_ACK AND TCP_FIN, qdata = [1, 2]\<rparr> 0"
    by (simp add: piece_def TCP_ACK_def TCP_FIN_def)
  ultimately have "\<exists>k' \<ge> 0. rx_stream [1, 2, 3] 0xFFFFFFFF k' (tcp_process_rx_queue demo_env
      (tcp_rx_enqueue 0xFFFFFFFF TCP_ACK [1, 2] (demo_rx 0xFFFFFFFF))) \<and>
    (0 \<le> (0 :: nat) \<and> 0 \<le> 0 + length [1, 2 :: byte] \<and> 0 < rcv_win (demo_rx 0xFFFFFFFF) \<and> unat (rcv_win (demo_rx 0xFFFFFFFF)) \<le> 2 ^ 29 \<longrightarrow>
      0 + length [1, 2 :: byte] \<le> k')"
    by (rule rx_in_order_delivery) (simp add: near_def)
  moreover have "rcv_win (demo_rx 0xFFFFFFFF) = 1000" by (simp add: demo_rx_def enter_def tcp_conn.defs)
  ultimately obtain k' where "Suc (Suc 0) \<le> k'" "rx_stream [1, 2, 3] 0xFFFFFFFF k' (tcp_process_rx_queue demo_env
      (tcp_rx_enqueue 0xFFFFFFFF TCP_ACK [1, 2] (demo_rx 0xFFFFFFFF)))" by auto
  then show ?thesis by (intro exI [of _ k']) simp
qed

text \<open>C6: transmission.  With the timer stopped and buffers available, \<open>tcp_xmit()\<close> sends nothing when there
  is neither sequence space to send nor an acknowledgement pending; otherwise it sends exactly one segment,
  whose payload is as much of the unacknowledged data as the peer's window and the path MTU of 1460 bytes
  admit, from the first unacknowledged byte on, with the sequence and acknowledgement numbers of the
  connection and the flags in flight; the transmit queue keeps the data, \<open>snd_sent\<close> counts the sequence
  space used, and the retransmission timer runs if it is not zero.\<close>

theorem tcp_xmit_segment:
  assumes "conn_ok c" "\<not> running (timer c)" "alloc_ok env"
  shows "if tx_payload c = [] \<and> seq_flags c = 0 \<and> cflags c AND TCP_ACK_PENDING = 0
     then tcp_xmit env c = (None, c\<lparr>snd_sent := 0\<rparr>)
     else \<exists>seg. log (snd (tcp_xmit env c)) = log c @ [Xmit (peer c) seg] \<and> fst (tcp_xmit env c) = tx_rc env \<and>
       rx_valid TCPIP_EMPTY_CSUM seg \<and> drop (header_len seg) seg = tx_payload c \<and> length (tx_payload c) \<le> 1460 \<and>
       hseq (parse_header seg) = snd_seq c \<and> hack (parse_header seg) = rcv_ack c \<and>
       hflags (parse_header seg) AND NOT TCP_PSH = TCP_FLAGS_SENDING (tstate c) AND NOT TCP_PSH \<and>
       tx_queue (snd (tcp_xmit env c)) = tx_queue c \<and>
       unat (snd_sent (snd (tcp_xmit env c))) = length (tx_payload c) + seq_flags c \<and>
       (snd_sent (snd (tcp_xmit env c)) \<noteq> 0 \<longrightarrow> running (timer (snd (tcp_xmit env c))))"
proof -
  have len: "length (concat (tx_queue c)) < 2 ^ 32" using assms(1) by (simp add: conn_ok_def base_ok_def)
  define F where "F = TCP_FLAGS_SENDING (tstate c)"
  define n where "n = (of_nat (length (tx_payload c)) :: u32)"
  obtain w where w: "expand_rcv_win env (armed env c) = (armed env c)\<lparr>rcv_win := w\<rparr>" using expand_rcv_win_eq by blast
  define d where "d = (armed env c)\<lparr>rcv_win := w\<rparr>"
  define seg where "seg = build_segment env F n (tx_payload c) d"
  note x = tcp_xmit_eq [OF len, of env, unfolded Let_def w, folded F_def n_def d_def, folded seg_def]
  note wire = segment_wire [OF seg_def]
  have F: "ucast (ucast F :: byte) = F" by (simp add: F_def sending_byte)
  have fl: "hflags (parse_header seg) AND NOT TCP_PSH = F AND NOT TCP_PSH"
    using wire F by (auto simp: psh_masked)
  have dd: "snd_seq d = snd_seq c" "rcv_ack d = rcv_ack c" "tx_queue d = tx_queue c" "log d = log c"
    "unat (snd_sent d) = length (tx_payload c) + seq_flags c" "snd_sent d \<noteq> 0 \<longrightarrow> running (timer d)"
    using armed_running [of env c] armed_sent [of env c] by (simp_all add: d_def armed_def Let_def)
  show ?thesis
  proof (cases "tx_payload c = [] \<and> seq_flags c = 0 \<and> cflags c AND TCP_ACK_PENDING = 0")
    case True
    then show ?thesis using x assms(2) by simp
  next
    case False
    then have "tcp_xmit env c = (tx_rc env, if tx_rc env = None
        then (emit (Xmit (peer c) seg) d)\<lparr>cflags := cflags (emit (Xmit (peer c) seg) d) AND NOT TCP_ACK_PENDING\<rparr>
        else emit (Xmit (peer c) seg) d)" using x assms(2,3) by auto
    then show ?thesis using False wire dd fl tx_payload_bound [of c]
      by (intro if_not_P [THEN iffD2] exI [of _ seg]) (auto simp: emit_def F_def)
  qed
qed

lemma demo_rx_fields:
  "conn_ok (demo_rx ack)" "tx_payload (demo_rx ack) = [5, 6]" "seq_flags (demo_rx ack) = 0" "\<not> running (timer (demo_rx ack))"
  by (simp_all add: demo_rx_def enter_def tcp_conn.defs tcp_ctx.defs conn_ok_def base_ok_def flags_ok_def zero_conn_def
      zero_timer_def tx_payload_def seq_flags_def tcp_xmit_win_def TCP_CAN_SEND_DATA_def TCP_FLAGS_SENDING_def
      TCP_FLAGS_SENT_def TCP_FLAGS_ACKED_def TCP_ESTABLISHED_def TCP_LISTEN_def TCP_STATE_SENT_def TCP_STATE_ACKED_def
      TCP_STATE_RCVD_def TCP_SYN_def TCP_ACK_def TCP_FIN_def TCP_PATH_MTU_def Let_def)

theorem tcp_xmit_segment_witness:
  "\<exists>seg. log (snd (tcp_xmit demo_env (demo_rx 9))) = [Xmit \<lparr>st_addr = 1, st_port = 0x5000\<rparr> seg] \<and>
     drop (header_len seg) seg = [5, 6] \<and> hseq (parse_header seg) = 40 \<and> hack (parse_header seg) = 9"
proof -
  have "peer (demo_rx 9) = \<lparr>st_addr = 1, st_port = 0x5000\<rparr>" "log (demo_rx 9) = []" "snd_seq (demo_rx 9) = 40" "rcv_ack (demo_rx 9) = 9"
    by (simp_all add: demo_rx_def enter_def tcp_conn.defs tcp_ctx.defs)
  moreover have "alloc_ok demo_env" by (simp add: demo_env_def)
  ultimately show ?thesis
    using tcp_xmit_segment [OF demo_rx_fields(1) demo_rx_fields(4), of demo_env 9] by (auto simp: demo_rx_fields)
qed

text \<open>C7: acknowledgement.  An acknowledgement beyond what is in flight changes nothing and is an error only
  before the connection is established; a repeated one changes nothing; any other removes exactly the
  acknowledged bytes from the front of the data waiting to be acknowledged (a SYN or FIN in flight counts one
  position), advances the send sequence, takes over the new window, marks the flags in flight as
  acknowledged and leaves nothing in flight.\<close>

theorem tcp_rx_ack_stream:
  assumes "conn_ok c"
  shows "if ack - snd_seq c > snd_sent c
     then tcp_rx_ack env ack win c = (if TCP_HAS_BEEN_ESTABLISHED (tstate c) then None else Some EINVAL, c)
     else if ack = snd_seq c then tcp_rx_ack env ack win c = (None, c)
     else \<exists>c'. tcp_rx_ack env ack win c = (None, c') \<and>
       concat (tx_queue c') = drop (unat (ack - snd_seq c) - seq_flags c) (concat (tx_queue c)) \<and>
       snd_seq c' = ack \<and> snd_sent c' = 0 \<and> snd_win c' = win \<and>
       TCP_FLAGS_ACKED (tstate c') = TCP_FLAGS_ACKED (tstate c) OR (TCP_FLAGS_SENDING (tstate c) AND (TCP_SYN OR TCP_FIN))"
proof -
  consider "ack - snd_seq c > snd_sent c" | "\<not> ack - snd_seq c > snd_sent c" "ack = snd_seq c"
    | "\<not> ack - snd_seq c > snd_sent c" "ack \<noteq> snd_seq c" by blast
  then show ?thesis
  proof cases
    case 1
    then show ?thesis by (simp add: tcp_rx_ack_def Let_def)
  next
    case 2
    then show ?thesis by (simp add: tcp_rx_ack_def Let_def)
  next
    case 3
    then have n: "ack - snd_seq c \<noteq> 0" "ack - snd_seq c \<le> snd_sent c" by auto
    note r = rx_ack_accept [OF assms n refl, of env win]
    have "tcp_rx_ack env ack win c = (None, snd (tcp_rx_ack env ack win c))" using r(1) by (metis prod.collapse)
    then show ?thesis using 3 r(2-) by auto
  qed
qed

theorem tcp_rx_ack_stream_witness:
  "concat (tx_queue (snd (tcp_rx_ack demo_env 41 100 (snd (tcp_xmit demo_env (demo_rx 9)))))) = [6, 7]"
proof -
  define c where "c = snd (tcp_xmit demo_env (demo_rx 9))"
  have len: "length (concat (tx_queue (demo_rx 9))) < 2 ^ 32" using demo_rx_fields(1) by (simp add: conn_ok_def base_ok_def)
  have "conn_ok c" unfolding c_def using demo_rx_fields(1) by (rule xmit_conn_ok)
  obtain w where w: "expand_rcv_win demo_env (armed demo_env (demo_rx 9)) = (armed demo_env (demo_rx 9))\<lparr>rcv_win := w\<rparr>"
    using expand_rcv_win_eq by blast
  have "snd_seq c = 40" "snd_sent c = 2" "concat (tx_queue c) = [5, 6, 7]" "seq_flags c = 0"
    unfolding c_def tcp_xmit_eq [OF len] Let_def w
    by (simp_all add: demo_rx_fields demo_env_def emit_def armed_def Let_def seq_flags_def)
      (simp_all add: demo_rx_def enter_def tcp_conn.defs TCP_FLAGS_SENDING_def TCP_FLAGS_SENT_def TCP_FLAGS_ACKED_def
        TCP_ESTABLISHED_def TCP_STATE_SENT_def TCP_STATE_ACKED_def TCP_STATE_RCVD_def TCP_SYN_def TCP_ACK_def TCP_FIN_def)
  then show ?thesis using tcp_rx_ack_stream [OF \<open>conn_ok c\<close>, of 41 demo_env 100] unfolding c_def by auto
qed

text \<open>C16: a segment built for transmission is accepted by the receive path, which recovers the payload, the
  ports, the sequence and acknowledgement numbers, flags and window, finds the options where the sender put
  them (maximum segment size, window scale and time stamp with a SYN, a time stamp otherwise when enabled)
  and reads back the window scale and the time stamp.\<close>

theorem segment_roundtrip:
  "let b = build_segment env flags len payload c;
       syn = flags AND TCP_SYN \<noteq> 0; ts = (if syn then True else cflags c AND TCP_TS_ENABLED \<noteq> 0)
   in rx_valid TCPIP_EMPTY_CSUM b \<and> drop (header_len b) b = payload \<and>
      parse_header b = \<lparr>hsrc = htons (ucast (local_port c)), hdest = st_port (peer c), hseq = snd_seq c, hack = rcv_ack c,
        hflags = (if len \<noteq> 0 then flags OR TCP_PSH else flags) AND 0xff,
        hwin = ucast (drop_bit (unat (rcv_win_scale c)) (rcv_win c))\<rparr> \<and>
      (\<exists>options. tcp_rx_opts (opt_memory env' b) (header_len b - 20) = Some options \<and>
         mssopt options = (if syn then Some 16 else None) \<and>
         map_option (\<lambda>pos. opt_memory env' b (pos + 2)) (wsopt options) = (if syn then Some TCP_RX_WINDOW_SCALE else None) \<and>
         map_option (\<lambda>pos. ntohl (field32 (opt_memory env' b) (pos + 2))) (tsopt options) = (if ts then Some (now env) else None))"
proof -
  define b where "b = build_segment env flags len payload c"
  note wire = segment_wire [OF b_def]
  obtain h where h: "length h = 20" "b = h @ seg_opts env flags c @ payload" using wire(5) by blast
  have m: "opt_memory env' b i = seg_opts env flags c ! i" if "i < length (seg_opts env flags c)" for i
    using that h by (simp add: opt_memory_append nth_append)
  have byte: "ucast (ucast x :: byte) = x AND (0xff :: u32)" for x
    by (auto simp: ff_mask bit_simps intro!: bit_word_eqI)
  have scale: "opt_memory env' b 15 = TCP_RX_WINDOW_SCALE" if "flags AND TCP_SYN \<noteq> 0"
    using that by (subst m) (simp_all add: seg_opts_def ts_option_bytes_def ws_option_bytes_def mss_option_bytes_def nth_append stored32_def)
  have stamp: "field32 (opt_memory env' b) 4 = htonl (now env)" if ts: "flags AND TCP_SYN \<noteq> 0 \<or> cflags c AND TCP_TS_ENABLED \<noteq> 0"
  proof -
    obtain r where "seg_opts env flags c = ts_option_bytes (now env) (ts_recent c) @ r"
      using ts by (auto simp: seg_opts_def Let_def)
    then obtain rest where o: "seg_opts env flags c = [1, 1, 8, 10] @ stored32 (htonl (now env)) @ rest"
      by (simp add: ts_option_bytes_def option_codes)
    then have "field32 (opt_memory env' b) 4 = field32 ((!) (seg_opts env flags c)) 4" by (simp add: field32_def m)
    also have "\<dots> = htonl (now env)" using load32_stored [of "htonl (now env)" rest] unfolding o field32_def by (simp flip: numeral_2_eq_2)
    finally show ?thesis .
  qed
  have opts: "tcp_rx_opts (opt_memory env' b) (header_len b - 20) =
      Some (if flags AND TCP_SYN \<noteq> 0 then \<lparr>mssopt = Some 16, wsopt = Some 13, tsopt = Some 2\<rparr>
          else if cflags c AND TCP_TS_ENABLED \<noteq> 0 then \<lparr>mssopt = None, wsopt = None, tsopt = Some 2\<rparr>
          else \<lparr>mssopt = None, wsopt = None, tsopt = None\<rparr>)"
  proof -
    have "header_len b - 20 = length (seg_opts env flags c)" using wire(4) by simp
    then show ?thesis using seg_opts_parse [OF h(1), of env' env flags c payload] unfolding h(2) by metis
  qed
  show ?thesis unfolding b_def [symmetric] Let_def using wire opts scale stamp by (simp add: byte)
qed

text \<open>C29: a reset is accepted only with a sequence number inside the receive window (or, before the peer's SYN
  has been seen, once our SYN is acknowledged); any other leaves the connection untouched.  An accepted reset
  reports exactly one close with \<open>-ECONNRESET\<close> to the application, empties both queues, stops both timers,
  releases all pending operations and removes the connection.\<close>

theorem tcp_rx_rst_window:
  assumes "conn_ok c"
  shows "if (if tstate c AND TCP_STATE_RCVD TCP_SYN \<noteq> 0 then unat (seq - rcv_ack c) < unat (rcv_win c)
             else tstate c AND TCP_STATE_ACKED TCP_SYN \<noteq> 0)
     then \<exists>c'. tcp_rx_rst env seq c = (Some ECONNRESET, c') \<and> log c' = log c @ [XferClose (Some ECONNRESET)] \<and>
       tx_queue c' = [] \<and> rx_queue c' = [] \<and> \<not> running (timer c') \<and> \<not> running (wait c') \<and>
       deleted c' \<and> pending_flags c' = 0 \<and> pending_data c' = 0
     else tcp_rx_rst env seq c = (None, c)"
proof -
  define c' where "c' = tcp_close env (Some ECONNRESET) (tcp_dump_state (c\<lparr>tstate := TCP_CLOSED\<rparr>))"
  have "gone c'" unfolding c'_def using assms by (intro reset_gone) (simp add: conn_ok_def)
  then show ?thesis using close_reset_effect [OF c'_def]
    by (auto simp: tcp_rx_rst_def tcp_in_window_def word_less_nat_alt gone_def Let_def simp flip: c'_def)
qed

theorem tcp_rx_rst_window_witness:
  "fst (tcp_rx_rst demo_env 500 (demo_rx 9)) = Some ECONNRESET \<and> fst (tcp_rx_rst demo_env 5000 (demo_rx 9)) = None"
proof -
  have f: "tstate (demo_rx 9) AND TCP_STATE_RCVD TCP_SYN \<noteq> 0" "rcv_ack (demo_rx 9) = 9" "rcv_win (demo_rx 9) = 1000"
    by (simp_all add: demo_rx_def enter_def tcp_conn.defs TCP_ESTABLISHED_def TCP_STATE_SENT_def TCP_STATE_ACKED_def
        TCP_STATE_RCVD_def TCP_SYN_def TCP_ACK_def)
  show ?thesis
    using tcp_rx_rst_window [OF demo_rx_fields(1) [of 9], of 500 demo_env] tcp_rx_rst_window [OF demo_rx_fields(1) [of 9], of 5000 demo_env] f
    by auto
qed





text \<open>C28: the connection a segment belongs to is the first one with its two ports; otherwise the last one in
  the LISTEN state, if it listens on the port; and when no connection is in the LISTEN state, the search
  follows a NULL pointer.\<close>

theorem tcp_demux_reference:
  "tcp_demux lport pport cs =
     (case find (demux_match lport pport) cs of
        Some pc \<Rightarrow> Some (Some (fst pc))
      | None \<Rightarrow> (case filter (\<lambda>pc. tstate (snd pc) = TCP_LISTEN) cs of
                   [] \<Rightarrow> None
                 | ls \<Rightarrow> Some (if local_port (snd (last ls)) = lport then Some (fst (last ls)) else None)))"
  by (simp add: tcp_demux_def demux_loop_eq split_beta split: option.split list.split)

end
