(* ===== verification/Bitmap.thy ===== *)
theory Bitmap
  imports Prelude
begin

text \<open>
  Bitmaps (\<open>src/src/core/bitmap.c\<close>, \<open>src/src/include/ipxe/bitmap.h\<close>).  The blocks are a list of 32-bit
  words, empty for the NULL pointer; an access outside the blocks is the result \<open>None\<close>.  Whether
  \<open>realloc()\<close> succeeds and what new memory holds are arguments; \<open>realloc()\<close> keeps the blocks that fit and
  does not fail for the size zero (theory \<open>Malloc\<close>).  A bitmap is abstracted to the set of its bits; the
  locale \<open>bit_set\<close> is what the users of a bitmap rely on.
\<close>

section \<open>Definitions\<close>

definition BITMAP_BLKSIZE :: u32 where "BITMAP_BLKSIZE = 4 * 8"

definition BITMAP_INDEX :: "u32 \<Rightarrow> u32" where
  "BITMAP_INDEX bitno = bitno div BITMAP_BLKSIZE"

definition BITMAP_MASK :: "u32 \<Rightarrow> u32" where
  "BITMAP_MASK bitno = push_bit (unat (bitno mod BITMAP_BLKSIZE)) 1"

record bitmap =
  blocks :: "u32 list"
  blength :: u32
  first_gap :: u32

definition zero_bitmap :: bitmap where
  "zero_bitmap = \<lparr>blocks = [], blength = 0, first_gap = 0\<rparr>"

fun clear_blocks :: "nat \<Rightarrow> nat \<Rightarrow> u32 list \<Rightarrow> u32 list" where
  "clear_blocks old 0 bs = bs"
| "clear_blocks old (Suc n) bs = clear_blocks (old + 1) n (bs[old := 0])"

definition bitmap_resize :: "bool \<Rightarrow> (nat \<Rightarrow> u32) \<Rightarrow> u32 \<Rightarrow> bitmap \<Rightarrow> rc \<times> bitmap" where
  "bitmap_resize realloc_ok fill new_length bitmap =
     (let old_num_blocks = BITMAP_INDEX (blength bitmap + BITMAP_BLKSIZE - 1);
          new_num_blocks = BITMAP_INDEX (new_length + BITMAP_BLKSIZE - 1)
      in if old_num_blocks \<noteq> new_num_blocks \<and> \<not> realloc_ok then (Some ENOMEM, bitmap)
         else let
           new_blocks = (if old_num_blocks \<noteq> new_num_blocks
                         then take (unat new_num_blocks) (blocks bitmap) @
                              map fill [unat old_num_blocks ..< unat new_num_blocks]
                         else blocks bitmap);
           bitmap = bitmap\<lparr>blocks := new_blocks, blength := new_length\<rparr>
         in (None, bitmap\<lparr>blocks := clear_blocks (unat old_num_blocks) (unat new_num_blocks - unat old_num_blocks)
                                       (blocks bitmap)\<rparr>))"

definition bitmap_test :: "bitmap \<Rightarrow> u32 \<Rightarrow> bool option" where
  "bitmap_test bitmap bitno =
     (let index = unat (BITMAP_INDEX bitno); mask = BITMAP_MASK bitno
      in if bitno \<ge> blength bitmap then Some False
         else if index < length (blocks bitmap) then Some ((blocks bitmap ! index) AND mask \<noteq> 0)
         else None)"

partial_function (option) gap_loop :: "bitmap \<Rightarrow> bitmap option" where
  "gap_loop bitmap =
     (case bitmap_test bitmap (first_gap bitmap) of
        None \<Rightarrow> None
      | Some is_set \<Rightarrow> if is_set then gap_loop (bitmap\<lparr>first_gap := first_gap bitmap + 1\<rparr>) else Some bitmap)"

definition bitmap_set :: "bitmap \<Rightarrow> u32 \<Rightarrow> bitmap option" where
  "bitmap_set bitmap bitno =
     (let index = unat (BITMAP_INDEX bitno); mask = BITMAP_MASK bitno
      in if index < length (blocks bitmap)
         then gap_loop (bitmap\<lparr>blocks := (blocks bitmap)[index := (blocks bitmap ! index) OR mask]\<rparr>)
         else None)"

definition bitmap_free :: "bitmap \<Rightarrow> bitmap" where
  "bitmap_free bitmap = bitmap\<lparr>blocks := []\<rparr>"

definition bitmap_first_gap :: "bitmap \<Rightarrow> u32" where
  "bitmap_first_gap bitmap = first_gap bitmap"

definition bitmap_full :: "bitmap \<Rightarrow> bool" where
  "bitmap_full bitmap \<longleftrightarrow> first_gap bitmap = blength bitmap"

section \<open>Abstraction\<close>

definition bits :: "bitmap \<Rightarrow> nat set" where
  "bits b = {i. i < unat (blength b) \<and> i div 32 < length (blocks b) \<and> bit (blocks b ! (i div 32)) (i mod 32)}"

text \<open>The first gap is exact; a bitmap being changed may be behind.\<close>

definition bitmap_shape :: "bitmap \<Rightarrow> bool" where
  "bitmap_shape b \<longleftrightarrow> length (blocks b) = (unat (blength b) + 31) div 32 \<and> unat (blength b) + 31 < 2 ^ 32 \<and>
     unat (first_gap b) \<le> unat (blength b) \<and> {..< unat (first_gap b)} \<subseteq> bits b"

definition bitmap_ok :: "bitmap \<Rightarrow> bool" where
  "bitmap_ok b \<longleftrightarrow> bitmap_shape b \<and> unat (first_gap b) \<notin> bits b"

section \<open>Lemmas\<close>

lemma unat_index: "unat (BITMAP_INDEX i) = unat i div 32"
  by (simp add: BITMAP_INDEX_def BITMAP_BLKSIZE_def unat_div_distrib)

lemma mask_bit: "x AND BITMAP_MASK i \<noteq> 0 \<longleftrightarrow> bit x (unat i mod 32)" for x :: u32
proof -
  define k where "k = unat i mod 32"
  have k: "k < 32" "BITMAP_MASK i = push_bit k 1"
    by (simp_all add: k_def BITMAP_MASK_def BITMAP_BLKSIZE_def unat_mod_distrib)
  have "bit (x AND push_bit k 1) n \<longleftrightarrow> n = k \<and> bit x k" for n using k(1) by (auto simp: bit_simps)
  then show ?thesis unfolding k(2) k_def [symmetric]
    by (metis bit_0_eq bit_word_eqI bot_apply bot_bool_def)
qed

lemma bits_less: "i \<in> bits b \<Longrightarrow> i < unat (blength b)"
  by (simp add: bits_def)

lemma bitmap_test_bits: "bitmap_shape b \<Longrightarrow> bitmap_test b i = Some (unat i \<in> bits b)"
  by (auto simp: bitmap_test_def Let_def bits_def unat_index mask_bit word_le_nat_alt bitmap_shape_def)

lemma gap_loop_spec:
  "bitmap_shape b \<Longrightarrow> \<exists>g. gap_loop b = Some (b\<lparr>first_gap := g\<rparr>) \<and> bitmap_ok (b\<lparr>first_gap := g\<rparr>)"
proof (induction "unat (blength b) - unat (first_gap b)" arbitrary: b rule: less_induct)
  case less
  show ?case
  proof (cases "unat (first_gap b) \<in> bits b")
    case False
    then show ?thesis using less.prems
      by (intro exI [of _ "first_gap b"]) (subst gap_loop.simps, simp add: bitmap_test_bits bitmap_ok_def)
  next
    case True
    define c where "c = b\<lparr>first_gap := first_gap b + 1\<rparr>"
    have lt: "unat (first_gap b) < unat (blength b)" using True by (rule bits_less)
    then have u: "unat (first_gap b + 1) = unat (first_gap b) + 1"
      using unsigned_less [of "blength b", where 'a = nat] by (intro unat_plus1) simp
    have "bits c = bits b" by (simp add: c_def bits_def)
    then have "bitmap_shape c" using less.prems True lt u by (auto simp: bitmap_shape_def c_def lessThan_Suc)
    moreover have "unat (blength c) - unat (first_gap c) < unat (blength b) - unat (first_gap b)"
      using lt u by (simp add: c_def)
    ultimately obtain g where "gap_loop c = Some (c\<lparr>first_gap := g\<rparr>)" "bitmap_ok (c\<lparr>first_gap := g\<rparr>)"
      using less.hyps [of c] by blast
    moreover have "gap_loop b = gap_loop c" using True less.prems
      by (subst gap_loop.simps) (simp add: bitmap_test_bits c_def)
    ultimately show ?thesis by (auto simp: c_def)
  qed
qed

lemma block_update:
  "j < length bs \<Longrightarrow> k < length bs \<Longrightarrow> n < 32 \<Longrightarrow>
     bit ((bs[k := (bs ! k) OR BITMAP_MASK i]) ! j) n \<longleftrightarrow> bit (bs ! j) n \<or> (j = k \<and> n = unat i mod 32)" for bs :: "u32 list"
  by (auto simp: nth_list_update BITMAP_MASK_def BITMAP_BLKSIZE_def unat_mod_distrib bit_simps)

lemma bitmap_set_spec:
  assumes "bitmap_shape b" "unat i < unat (blength b)"
  shows "\<exists>b'. bitmap_set b i = Some b' \<and> bitmap_ok b' \<and> bits b' = insert (unat i) (bits b) \<and> blength b' = blength b"
proof -
  define k where "k = unat i div 32"
  define c where "c = b\<lparr>blocks := (blocks b)[k := (blocks b ! k) OR BITMAP_MASK i]\<rparr>"
  have k: "k < length (blocks b)" using assms by (auto simp: bitmap_shape_def k_def)
  have "j \<in> bits c \<longleftrightarrow> j = unat i \<or> j \<in> bits b" for j
  proof -
    have "j = unat i \<longleftrightarrow> j div 32 = k \<and> j mod 32 = unat i mod 32" unfolding k_def by (metis div_mult_mod_eq)
    then show ?thesis using assms k block_update [of "j div 32" "blocks b" k "j mod 32" i]
      by (auto simp: bits_def c_def)
  qed
  then have bits: "bits c = insert (unat i) (bits b)" by blast
  then have "bitmap_shape c" using assms(1) by (auto simp: bitmap_shape_def c_def)
  then obtain g where g: "gap_loop c = Some (c\<lparr>first_gap := g\<rparr>)" "bitmap_ok (c\<lparr>first_gap := g\<rparr>)"
    using gap_loop_spec by blast
  have "bits (c\<lparr>first_gap := g\<rparr>) = bits c" by (simp add: bits_def)
  then show ?thesis using g k bits by (auto simp: bitmap_set_def unat_index Let_def simp flip: k_def c_def) (simp add: c_def)
qed

lemma bitmap_full_bits: "bitmap_ok b \<Longrightarrow> bitmap_full b \<longleftrightarrow> bits b = {..< unat (blength b)}"
proof
  assume ok: "bitmap_ok b" and "bitmap_full b"
  then show "bits b = {..< unat (blength b)}"
    using bits_less [of _ b] by (auto simp: bitmap_full_def bitmap_ok_def bitmap_shape_def)
next
  assume ok: "bitmap_ok b" and full: "bits b = {..< unat (blength b)}"
  then have "\<not> unat (first_gap b) < unat (blength b)" by (auto simp: bitmap_ok_def)
  then show "bitmap_full b" using ok by (simp add: bitmap_full_def bitmap_ok_def bitmap_shape_def word_unat_eq_iff)
qed

lemma first_gap_least: "bitmap_ok b \<Longrightarrow> unat (bitmap_first_gap b) = (LEAST n. n \<notin> bits b)"
proof -
  assume ok: "bitmap_ok b"
  have "(LEAST n. n \<notin> bits b) = unat (first_gap b)"
  proof (rule Least_equality)
    show "unat (first_gap b) \<notin> bits b" using ok by (simp add: bitmap_ok_def)
  next
    fix n
    assume "n \<notin> bits b"
    then show "unat (first_gap b) \<le> n" using ok by (auto simp: bitmap_ok_def bitmap_shape_def simp flip: not_less)
  qed
  then show ?thesis by (simp add: bitmap_first_gap_def)
qed

lemma clear_blocks_spec:
  "clear_blocks old n bs = take old bs @ replicate (min n (length bs - old)) 0 @ drop (old + n) bs" if "old + n \<le> length bs"
  using that
proof (induction n arbitrary: old bs)
  case (Suc n)
  then have "clear_blocks old (Suc n) bs = take (old + 1) (bs[old := 0]) @ replicate n 0 @ drop (old + Suc n) bs"
    by simp
  also have "take (old + 1) (bs[old := 0]) = take old bs @ [0]"
    using Suc.prems by (simp add: take_Suc_conv_app_nth)
  finally show ?case using Suc.prems by simp
qed simp

lemma bitmap_new_spec:
  assumes "unat n + 31 < 2 ^ 32"
  shows "fst (bitmap_resize True fill n zero_bitmap) = None"
    "bitmap_ok (snd (bitmap_resize True fill n zero_bitmap))" "bits (snd (bitmap_resize True fill n zero_bitmap)) = {}"
    "blength (snd (bitmap_resize True fill n zero_bitmap)) = n"
proof -
  define m where "m = (unat n + 31) div 32"
  have "unat (n + BITMAP_BLKSIZE - 1) = unat n + 31"
  proof -
    have "n + BITMAP_BLKSIZE - 1 = n + 31" by (simp add: BITMAP_BLKSIZE_def)
    moreover have "unat (n + 31) = unat n + 31" using assms by (subst unat_add_nowrap) simp_all
    ultimately show ?thesis by metis
  qed
  then have nm: "unat (BITMAP_INDEX (n + BITMAP_BLKSIZE - 1)) = m" by (simp add: unat_index m_def)
  have z: "unat (BITMAP_INDEX (0 + BITMAP_BLKSIZE - 1)) = 0" by (simp add: unat_index BITMAP_BLKSIZE_def)
  have "clear_blocks 0 m (map fill [0 ..< m]) = replicate m 0" by (subst clear_blocks_spec) simp_all
  moreover have "m = 0 \<longleftrightarrow> BITMAP_INDEX (0 + BITMAP_BLKSIZE - 1) = BITMAP_INDEX (n + BITMAP_BLKSIZE - 1)"
    using nm z by (metis word_unat_eq_iff)
  ultimately have r: "bitmap_resize True fill n zero_bitmap = (None, \<lparr>blocks = replicate m 0, blength = n, first_gap = 0\<rparr>)"
    using nm z by (auto simp: bitmap_resize_def zero_bitmap_def Let_def)
  show "fst (bitmap_resize True fill n zero_bitmap) = None" "blength (snd (bitmap_resize True fill n zero_bitmap)) = n"
    by (simp_all add: r)
  show "bits (snd (bitmap_resize True fill n zero_bitmap)) = {}" by (auto simp: r bits_def)
  then show "bitmap_ok (snd (bitmap_resize True fill n zero_bitmap))"
    using assms by (simp add: r bitmap_ok_def bitmap_shape_def m_def)
qed

section \<open>The interface\<close>

locale bit_set =
  fixes ok :: "'b \<Rightarrow> bool" and abs :: "'b \<Rightarrow> nat set" and size_of :: "'b \<Rightarrow> nat"
    and set_bit :: "'b \<Rightarrow> u32 \<Rightarrow> 'b option" and full :: "'b \<Rightarrow> bool"
  assumes set_ok: "ok b \<Longrightarrow> unat i < size_of b \<Longrightarrow>
      \<exists>b'. set_bit b i = Some b' \<and> ok b' \<and> abs b' = insert (unat i) (abs b) \<and> size_of b' = size_of b"
    and full_iff: "ok b \<Longrightarrow> full b \<longleftrightarrow> abs b = {..< size_of b}"
begin

primrec set_all :: "u32 list \<Rightarrow> 'b \<Rightarrow> 'b option" where
  "set_all [] b = Some b"
| "set_all (i # is) b = Option.bind (set_bit b i) (set_all is)"

lemma set_all_spec:
  "ok b \<Longrightarrow> \<forall>i \<in> set is. unat i < size_of b \<Longrightarrow>
     \<exists>b'. set_all is b = Some b' \<and> ok b' \<and> abs b' = abs b \<union> unat ` set is \<and> size_of b' = size_of b"
proof (induction "is" arbitrary: b)
  case (Cons i "is")
  then obtain b1 where b1: "set_bit b i = Some b1" "ok b1" "abs b1 = insert (unat i) (abs b)" "size_of b1 = size_of b"
    using set_ok [of b i] by auto
  then show ?case using Cons.IH [of b1] Cons.prems by auto
qed simp

lemma set_all_full:
  assumes "ok b" "\<forall>i \<in> set is. unat i < size_of b"
  shows "\<exists>b'. set_all is b = Some b' \<and> (full b' \<longleftrightarrow> abs b \<union> unat ` set is = {..< size_of b})"
  using set_all_spec [OF assms] full_iff by fastforce

end

interpretation ipxe_bitmap: bit_set bitmap_ok bits "\<lambda>b. unat (blength b)" bitmap_set bitmap_full
proof unfold_locales
  fix b and i :: u32
  assume "bitmap_ok b" "unat i < unat (blength b)"
  then show "\<exists>b'. bitmap_set b i = Some b' \<and> bitmap_ok b' \<and> bits b' = insert (unat i) (bits b) \<and> unat (blength b') = unat (blength b)"
    using bitmap_set_spec [of b i] by (auto simp: bitmap_ok_def)
qed (rule bitmap_full_bits)

section \<open>Properties\<close>

text \<open>C19: a bitmap is the set of its bits.  Setting a bit inside the bitmap succeeds, adds exactly this bit and
  moves the first gap to the least bit that is not set; testing reads the set; the bitmap is full exactly when
  every bit is set.  Setting a bit beyond the allocated blocks accesses memory outside them.\<close>

theorem bitmap_refines_set:
  assumes "bitmap_ok b"
  shows "if unat i < unat (blength b)
     then \<exists>b'. bitmap_set b i = Some b' \<and> bitmap_ok b' \<and> bits b' = insert (unat i) (bits b) \<and>
       (\<forall>j. bitmap_test b' j = Some (j = i \<or> bitmap_test b j = Some True)) \<and>
       unat (bitmap_first_gap b') = (LEAST n. n \<notin> bits b') \<and> (bitmap_full b' \<longleftrightarrow> bits b' = {..< unat (blength b)})
     else 32 * length (blocks b) \<le> unat i \<longrightarrow> bitmap_set b i = None"
proof (cases "unat i < unat (blength b)")
  case True
  have sh: "bitmap_shape b" using assms by (simp add: bitmap_ok_def)
  obtain b' where b': "bitmap_set b i = Some b'" "bitmap_ok b'" "bits b' = insert (unat i) (bits b)" "blength b' = blength b"
    using bitmap_set_spec [OF sh True] by blast
  moreover have "bitmap_test b' j = Some (j = i \<or> bitmap_test b j = Some True)" for j
    using b' sh by (auto simp: bitmap_test_bits bitmap_ok_def word_unat_eq_iff)
  ultimately show ?thesis using True first_gap_least [of b'] bitmap_full_bits [of b'] by auto
next
  case False
  then show ?thesis by (auto simp: bitmap_set_def unat_index Let_def)
qed

theorem bitmap_refines_set_witness:
  "\<exists>b'. bitmap_set (snd (bitmap_resize True (\<lambda>_. 0) 40 zero_bitmap)) 33 = Some b' \<and> bits b' = {33}"
proof -
  define b where "b = snd (bitmap_resize True (\<lambda>_. 0) 40 zero_bitmap)"
  have b: "bitmap_ok b" "bits b = {}" "blength b = 40" unfolding b_def by (rule bitmap_new_spec, simp)+
  have "\<exists>b'. bitmap_set b 33 = Some b' \<and> bits b' = insert (unat (33 :: u32)) (bits b)"
    using bitmap_refines_set [OF b(1), of 33] b(3) by auto
  then show ?thesis using b(2) by (simp flip: b_def)
qed

end
