(* ===== verification/Vsprintf.thy ===== *)
theory Vsprintf
  imports Prelude
begin

text \<open>
  Formatted output (\<open>src/src/core/vsprintf.c\<close>, \<open>src/src/core/asprintf.c\<close>) and the parsing of numbers
  (\<open>src/src/core/misc.c\<close>, \<open>src/src/core/strtoull.c\<close>, \<open>src/src/include/stdlib.h\<close>, \<open>src/src/core/ctype.c\<close>).  A
  C string is the list of its characters without the terminating NUL; a pointer into a string is the rest of
  the list from there on.  \<open>None\<close> is the outcome of a call that leaves a buffer, a string or its arguments.
\<close>

unbundle bit_operations_syntax

section \<open>Character types\<close>

definition isspace :: "int \<Rightarrow> bool" where
  "isspace c = (c = 0x20 \<or> c = 0x0c \<or> c = 0x0a \<or> c = 0x0d \<or> c = 0x09 \<or> c = 0x0b)"

definition isdigit :: "byte \<Rightarrow> bool" where "isdigit c = (0x30 \<le> c \<and> c \<le> 0x39)"
definition islower :: "byte \<Rightarrow> bool" where "islower c = (0x61 \<le> c \<and> c \<le> 0x7a)"
definition isupper :: "byte \<Rightarrow> bool" where "isupper c = (0x41 \<le> c \<and> c \<le> 0x5a)"

section \<open>Parsing of numbers\<close>

text \<open>The character at a position: NUL at the end of the string.\<close>

definition char_at :: "byte list \<Rightarrow> byte" where
  "char_at p = (case p of [] \<Rightarrow> 0 | c # _ \<Rightarrow> c)"

definition strtoul_base :: "byte list \<Rightarrow> u32 \<Rightarrow> byte list \<times> u32" where
  "strtoul_base p base =
     (if base = 0
      then if char_at p = 0x30
           then (let p = tl p
                 in if char_at p OR 0x20 = 0x78 then (tl p, 16) else (p, 8))
           else (p, 10)
      else (p, base))"

definition strtoul_charval :: "u32 \<Rightarrow> u32" where
  "strtoul_charval charval =
     (if 0x61 \<le> charval then charval - 0x61 + 10
      else if 0x41 \<le> charval then charval - 0x41 + 10
      else if charval \<le> 0x39 then charval - 0x30
      else charval)"

fun strtoul_loop :: "'a::len word \<Rightarrow> u32 \<Rightarrow> byte list \<Rightarrow> 'a word \<times> byte list" where
  "strtoul_loop ret base [] = (ret, [])"
| "strtoul_loop ret base (c # p) =
     (let charval = strtoul_charval (scast c)
      in if base \<le> charval then (ret, c # p)
         else strtoul_loop (ret * ucast base + ucast charval) base p)"

definition strtoul :: "byte list \<Rightarrow> u32 \<Rightarrow> u32 \<times> byte list" where
  "strtoul p base =
     (let p = dropWhile (\<lambda>c. isspace (sint c)) p;
          negative = (char_at p = 0x2d);
          p = (if negative then tl p else p);
          (p, base) = strtoul_base p base;
          (ret, p) = strtoul_loop 0 base p
      in (if negative then - ret else ret, p))"

definition strtoull :: "byte list \<Rightarrow> u32 \<Rightarrow> 64 word \<times> byte list" where
  "strtoull p base =
     (let p = dropWhile (\<lambda>c. isspace (sint c)) p;
          negative = (char_at p = 0x2d);
          p = (if negative then tl p else p);
          (p, base) = strtoul_base p base;
          (ret, p) = strtoul_loop 0 base p
      in (if negative then - ret else ret, p))"

section \<open>Formatted output\<close>

definition LCASE :: byte where "LCASE = 0x20"
definition ALT_FORM :: byte where "ALT_FORM = 0x02"
definition ZPAD :: byte where "ZPAD = 0x10"

definition hex_char :: "64 word \<Rightarrow> byte" where
  "hex_char d = (if d < 10 then 0x30 + ucast d else 0x37 + ucast d)"

function hex_loop :: "byte \<Rightarrow> 64 word \<Rightarrow> byte list \<Rightarrow> byte list" where
  "hex_loop case_mod num ptr =
     (let ptr = (hex_char (num AND 0xf) OR case_mod) # ptr;
          num = drop_bit 4 num
      in if num \<noteq> 0 then hex_loop case_mod num ptr else ptr)"
  by pat_completeness auto

lemma unat_drop_less: "drop_bit 4 (n :: 64 word) \<noteq> 0 \<Longrightarrow> unat (drop_bit 4 n) < unat n"
proof -
  assume "drop_bit 4 n \<noteq> 0"
  then have "n \<noteq> 0" by auto
  then show ?thesis by (simp add: drop_bit_eq_div unat_div unat_gt_0)
qed

termination hex_loop
  by (relation "measure (\<lambda>(_, num, _). unat num)") (auto intro: unat_drop_less)

definition pad_to :: "nat \<Rightarrow> byte \<Rightarrow> byte list \<Rightarrow> byte list" where
  "pad_to width pad ptr = replicate (width - length ptr) pad @ ptr"

definition format_hex :: "64 word \<Rightarrow> nat \<Rightarrow> byte \<Rightarrow> byte list" where
  "format_hex num width flags =
     (let case_mod = flags AND LCASE;
          pad = (flags AND ZPAD) OR 0x20;
          ptr = pad_to width pad (hex_loop case_mod num [])
      in if flags AND ALT_FORM \<noteq> 0 then 0x30 # (0x58 OR case_mod) # ptr else ptr)"

function dec_loop :: "nat \<Rightarrow> byte list \<Rightarrow> byte list" where
  "dec_loop num ptr =
     (let ptr = (0x30 + of_nat (num mod 10)) # ptr;
          num = num div 10
      in if num \<noteq> 0 then dec_loop num ptr else ptr)"
  by pat_completeness auto

termination dec_loop
  by (relation "measure fst") auto

text \<open>Negating the least \<open>long\<close> overflows.\<close>

definition format_decimal :: "int \<Rightarrow> nat \<Rightarrow> byte \<Rightarrow> byte list option" where
  "format_decimal num width flags =
     (let zpad = flags AND ZPAD;
          pad = zpad OR 0x20;
          negative = num < 0;
          ptr = dec_loop (nat \<bar>num\<bar>) [];
          ptr = (if negative \<and> zpad = 0 then 0x2d # ptr else ptr);
          ptr = pad_to width pad ptr;
          ptr = (if negative \<and> zpad \<noteq> 0 then ptr[0 := 0x2d] else ptr)
      in if num = - (2 ^ 31) then None else Some ptr)"

datatype va_arg = Int32 u32 | Int64 "64 word" | Str "byte list option" | Wstr "u32 list option"

definition wcrtomb :: "u32 \<Rightarrow> byte list" where
  "wcrtomb wc = [ucast wc]"

fun fmt_flags :: "byte \<Rightarrow> byte list \<Rightarrow> byte \<times> byte list" where
  "fmt_flags flags [] = (flags, [])"
| "fmt_flags flags (c # fmt) =
     (if c = 0x23 then fmt_flags (flags OR ALT_FORM) fmt
      else if c = 0x30 then fmt_flags (flags OR ZPAD) fmt
      else (flags, c # fmt))"

fun fmt_width :: "nat \<Rightarrow> byte list \<Rightarrow> nat \<times> byte list" where
  "fmt_width width [] = (width, [])"
| "fmt_width width (c # fmt) =
     (if c - 0x30 < 10 then fmt_width (width * 10 + unat (c - 0x30)) fmt else (width, c # fmt))"

text \<open>The length modifier is an index into \<open>type_sizes\<close>: 2 is \<open>INT_LEN\<close>, 3 \<open>LONG_LEN\<close>, 5 \<open>SIZE_T_LEN\<close>.\<close>

fun fmt_length :: "int \<Rightarrow> byte list \<Rightarrow> int \<times> byte list" where
  "fmt_length len [] = (len, [])"
| "fmt_length len (c # fmt) =
     (if c = 0x68 then fmt_length (len - 1) fmt
      else if c = 0x6c then fmt_length (len + 1) fmt
      else if c = 0x7a then fmt_length 5 fmt
      else (len, c # fmt))"

definition type_size :: "int \<Rightarrow> nat option" where
  "type_size len = (if 0 \<le> len \<and> len < 6 then Some ([1, 2, 4, 4, 8, 4] ! nat len) else None)"

definition c_string :: "byte list \<Rightarrow> byte list" where
  "c_string s = takeWhile (\<lambda>c. c \<noteq> 0) s"

text \<open>A conversion result has to fit in front of the terminator of \<open>tmp_buf\<close>.\<close>

definition in_tmp_buf :: "byte list \<Rightarrow> byte list option" where
  "in_tmp_buf s = (if length s \<le> 31 then Some s else None)"

definition convert :: "byte \<Rightarrow> nat \<Rightarrow> int \<Rightarrow> byte \<Rightarrow> va_arg list \<Rightarrow> (byte list \<times> va_arg list) option" where
  "convert flags width len c args =
     (if c = 0x63 then
        (case args of
           Int32 v # args \<Rightarrow> Some (if len < 3 then [ucast v] else c_string (wcrtomb v), args)
         | _ \<Rightarrow> None)
      else if c = 0x73 then
        (case args of
           Str s # args \<Rightarrow>
             if len < 3
             then Some (case s of Some s \<Rightarrow> c_string s | None \<Rightarrow> [0x3c, 0x4e, 0x55, 0x4c, 0x4c, 0x3e], args)
             else None
         | Wstr s # args \<Rightarrow>
             if len < 3 then None
             else Some (case s of Some s \<Rightarrow> concat (map wcrtomb (takeWhile (\<lambda>w. w \<noteq> 0) s)) | None \<Rightarrow> [], args)
         | _ \<Rightarrow> None)
      else if c = 0x70 then
        (case args of
           Int32 v # args \<Rightarrow> map_option (\<lambda>s. (s, args)) (in_tmp_buf (format_hex (ucast v) width (ALT_FORM OR LCASE)))
         | _ \<Rightarrow> None)
      else if c AND NOT 0x20 = 0x58 then
        (let flags = flags OR (c AND 0x20)
         in case (type_size len, args) of
              (Some n, Int64 v # args) \<Rightarrow>
                if n \<ge> 8 then map_option (\<lambda>s. (s, args)) (in_tmp_buf (format_hex v width flags)) else None
            | (Some n, Int32 v # args) \<Rightarrow>
                if n \<ge> 8 then None else map_option (\<lambda>s. (s, args)) (in_tmp_buf (format_hex (ucast v) width flags))
            | _ \<Rightarrow> None)
      else if c = 0x64 \<or> c = 0x69 then
        (case (type_size len, args) of
           (Some n, Int32 v # args) \<Rightarrow>
             (case format_decimal (sint v) width flags of
                Some s \<Rightarrow> map_option (\<lambda>s. (s, args)) (in_tmp_buf s)
              | None \<Rightarrow> None)
         | _ \<Rightarrow> None)
      else Some ([c], args))"

definition parse_spec :: "byte list \<Rightarrow> byte \<times> nat \<times> int \<times> byte list" where
  "parse_spec fmt =
     (let (flags, fmt) = fmt_flags 0 fmt;
          (width, fmt) = fmt_width 0 fmt;
          (len, fmt) = fmt_length 2 fmt
      in (flags, width, len, fmt))"

lemma fmt_flags_length: "fmt_flags flags fmt = (f, fmt') \<Longrightarrow> length fmt' \<le> length fmt"
  by (induction flags fmt rule: fmt_flags.induct) (auto split: if_splits)

lemma fmt_width_length: "fmt_width width fmt = (w, fmt') \<Longrightarrow> length fmt' \<le> length fmt"
  by (induction width fmt rule: fmt_width.induct) (auto split: if_splits)

lemma fmt_length_length: "fmt_length len fmt = (l, fmt') \<Longrightarrow> length fmt' \<le> length fmt"
  by (induction len fmt rule: fmt_length.induct) (auto split: if_splits)

lemma parse_spec_length: "parse_spec fmt = (f, w, l, fmt') \<Longrightarrow> length fmt' \<le> length fmt"
  by (fastforce simp: parse_spec_def split: prod.splits
      dest: fmt_flags_length fmt_width_length fmt_length_length)

text \<open>The characters given to the handler of the context.  A format that ends inside a conversion makes the
  loop step over the terminator of the format.\<close>

function vcprintf :: "byte list \<Rightarrow> va_arg list \<Rightarrow> byte list option" where
  "vcprintf fmt args =
     (case fmt of
        [] \<Rightarrow> Some []
      | c # fmt \<Rightarrow>
          if c \<noteq> 0x25 then map_option ((#) c) (vcprintf fmt args)
          else case parse_spec fmt of
            (flags, width, len, []) \<Rightarrow> None
          | (flags, width, len, c # fmt) \<Rightarrow>
              (case convert flags width len c args of
                 None \<Rightarrow> None
               | Some (out, args) \<Rightarrow> map_option (append out) (vcprintf fmt args)))"
  by pat_completeness auto

termination vcprintf
  by (relation "measure (length \<circ> fst)") (auto dest!: parse_spec_length [OF sym])

definition printf_sputc :: "nat \<Rightarrow> byte \<Rightarrow> byte list \<times> nat \<Rightarrow> byte list \<times> nat" where
  "printf_sputc max_len c ctx = (case ctx of (buf, len) \<Rightarrow> (if len < max_len then buf[len := c] else buf, len + 1))"

definition vsnprintf :: "byte list \<Rightarrow> nat \<Rightarrow> byte list \<Rightarrow> va_arg list \<Rightarrow> (byte list \<times> nat) option" where
  "vsnprintf buf size' fmt args =
     (case vcprintf fmt args of
        None \<Rightarrow> None
      | Some out \<Rightarrow>
          let (buf, len) = fold (printf_sputc size') out (buf, 0)
          in Some (if size' \<noteq> 0 then buf[(if len < size' - 1 then len else size' - 1) := 0] else buf, len))"

definition vssnprintf :: "byte list \<Rightarrow> int \<Rightarrow> byte list \<Rightarrow> va_arg list \<Rightarrow> (byte list \<times> nat) option" where
  "vssnprintf buf ssize fmt args = vsnprintf buf (nat (if ssize < 0 then 0 else ssize)) fmt args"

text \<open>The memory \<open>malloc()\<close> returns is a parameter, as large as asked for.\<close>

definition vasprintf :: "(nat \<Rightarrow> byte list option) \<Rightarrow> byte list \<Rightarrow> va_arg list \<Rightarrow> (errno + byte list \<times> nat) option" where
  "vasprintf malloc fmt args =
     (case vsnprintf [] 0 fmt args of
        None \<Rightarrow> None
      | Some (_, len) \<Rightarrow>
          (case malloc (len + 1) of
             None \<Rightarrow> Some (Inl ENOMEM)
           | Some strp \<Rightarrow> map_option Inr (vsnprintf strp (len + 1) fmt args)))"

declare hex_loop.simps [simp del]
declare dec_loop.simps [simp del]
declare vcprintf.simps [simp del]

section \<open>Numbers are read back\<close>

lemma and_exp: "x AND 2 ^ k = (if bit x k then 2 ^ k else 0)" for x :: "'a::len word"
  by (intro bit_word_eqI) (auto simp: bit_and_iff bit_exp_iff)

lemma case_mod_cases: "flags AND LCASE = 0 \<or> flags AND LCASE = 0x20"
  using and_exp [of flags 5] by (simp add: LCASE_def split: if_splits)

lemma upt16: "[0 ..< 16] = [0, 1, 2, 3, 4, 5, 6, 7, 8, 9, 10, 11, 12, 13, 14, 15]" by code_simp

lemma upt10: "[0 ..< 10] = [0, 1, 2, 3, 4, 5, 6, 7, 8, 9]" by code_simp

lemma hex_char_table:
  "list_all (\<lambda>i. \<forall>cm \<in> {0, 0x20}. strtoul_charval (scast (hex_char (of_nat i) OR cm)) = of_nat i \<and>
     \<not> isspace (sint (hex_char (of_nat i) OR cm)) \<and> hex_char (of_nat i) OR cm \<noteq> 0x2d \<and>
     hex_char (of_nat i) OR cm \<noteq> 0) [0 ..< 16]"
  unfolding upt16 by (simp add: hex_char_def strtoul_charval_def isspace_def)

lemma hex_char_val:
  assumes "d < 16" and "cm = 0 \<or> cm = 0x20"
  shows "strtoul_charval (scast (hex_char d OR cm)) = ucast d"
    and "\<not> isspace (sint (hex_char d OR cm))" and "hex_char d OR cm \<noteq> 0x2d" and "hex_char d OR cm \<noteq> 0"
proof -
  have "unat d < 16" using assms(1) by (simp add: word_less_nat_alt)
  then have "\<forall>cm \<in> {0, 0x20}. strtoul_charval (scast (hex_char (of_nat (unat d)) OR cm)) = of_nat (unat d) \<and>
     \<not> isspace (sint (hex_char (of_nat (unat d)) OR cm)) \<and> hex_char (of_nat (unat d)) OR cm \<noteq> 0x2d \<and> hex_char (of_nat (unat d)) OR cm \<noteq> 0"
    by (intro hex_char_table [unfolded list_all_iff, THEN bspec]) simp
  then show "strtoul_charval (scast (hex_char d OR cm)) = ucast d"
    "\<not> isspace (sint (hex_char d OR cm))" "hex_char d OR cm \<noteq> 0x2d" "hex_char d OR cm \<noteq> 0"
    using assms(2) by auto
qed

lemma dec_digit_table:
  "list_all (\<lambda>i. strtoul_charval (scast (0x30 + of_nat i :: byte)) = of_nat i \<and>
     \<not> isspace (sint (0x30 + of_nat i :: byte)) \<and> (0x30 + of_nat i :: byte) \<noteq> 0x2d) [0 ..< 10]"
  unfolding upt10 by (simp add: strtoul_charval_def isspace_def)

lemma dec_digit:
  "strtoul_charval (scast (0x30 + of_nat (n mod 10) :: byte)) = of_nat (n mod 10)"
  "\<not> isspace (sint (0x30 + of_nat (n mod 10) :: byte))" "(0x30 + of_nat (n mod 10) :: byte) \<noteq> 0x2d"
  using dec_digit_table by (simp_all only: list_all_iff set_upt atLeastLessThan_iff) simp_all

lemma unat_nibble: "unat (num AND 0xf :: 64 word) = unat num mod 16"
  using unat_and_mask [of num 4] by (simp add: mask_eq_decr_exp)

lemma hex_step: "ucast (drop_bit 4 num) * 16 + ucast (num AND 0xf) = (ucast (num :: 64 word) :: 'a::len word)"
proof -
  have e: "ucast x = (of_nat (unat x) :: 'a word)" for x :: "64 word" by simp
  have "unat (drop_bit 4 num) = unat num div 16" by (simp add: drop_bit_eq_div unat_div)
  then have "ucast (drop_bit 4 num) * 16 + ucast (num AND 0xf) = (of_nat (unat num div 16 * 16 + unat num mod 16) :: 'a word)"
    by (simp only: e unat_nibble of_nat_add of_nat_mult of_nat_numeral)
  then show ?thesis by simp
qed

lemma hex_loop_strtoul:
  assumes "cm = 0 \<or> cm = 0x20"
  shows "strtoul_loop 0 16 (hex_loop cm num ptr) = strtoul_loop (ucast num :: 'a::len word) 16 ptr"
  using assms
proof (induction cm num ptr rule: hex_loop.induct)
  case (1 cm num ptr)
  let ?d = "num AND 0xf"
  have d16: "?d < 16" by (simp add: word_less_nat_alt unat_nibble)
  note d = hex_char_val(1) [OF this 1(2)]
  have "\<not> 16 \<le> (ucast ?d :: u32)"
    by (simp add: word_le_nat_alt not_le unsigned_ucast_eq take_bit_eq_mod unat_nibble)
  moreover have "unat (ucast ?d :: u32) = unat ?d"
    by (simp add: unsigned_ucast_eq take_bit_eq_mod unat_nibble)
  then have "ucast (ucast ?d :: u32) = (ucast ?d :: 'a word)" by (metis of_nat_unat)
  ultimately have step: "strtoul_loop r 16 ((hex_char ?d OR cm) # ptr) = strtoul_loop (r * 16 + ucast ?d) 16 ptr" for r :: "'a word"
    by (simp add: d Let_def)
  show ?case
  proof (cases "drop_bit 4 num = 0")
    case True
    then show ?thesis using step [of 0] hex_step [where num = num and ?'a = 'a]
      by (simp add: hex_loop.simps [of cm num])
  next
    case False
    then show ?thesis using step [of "ucast (drop_bit 4 num)"] hex_step [where num = num and ?'a = 'a] 1
      by (simp add: hex_loop.simps [of cm num])
  qed
qed

lemma dec_loop_strtoul: "strtoul_loop 0 10 (dec_loop num ptr) = strtoul_loop (of_nat num :: 'a::len word) 10 ptr"
proof (induction num ptr rule: dec_loop.induct)
  case (1 num ptr)
  have less: "\<not> 10 \<le> (of_nat (num mod 10) :: u32)" by (simp add: word_le_nat_alt unat_of_nat take_bit_eq_mod)
  have "ucast (of_nat (num mod 10) :: u32) = (of_nat (num mod 10) :: 'a word)"
    by (simp add: unsigned_of_nat take_bit_eq_mod)
  then have step: "strtoul_loop r 10 ((0x30 + of_nat (num mod 10)) # ptr) = strtoul_loop (r * 10 + of_nat (num mod 10)) 10 ptr" for r :: "'a word"
    using less by (simp only: strtoul_loop.simps dec_digit Let_def if_False) simp
  have sum: "of_nat (num div 10) * 10 + of_nat (num mod 10) = (of_nat num :: 'a word)"
    by (metis div_mult_mod_eq of_nat_add of_nat_mult of_nat_numeral)
  show ?case
  proof (cases "num div 10 = 0")
    case True
    then show ?thesis using step [of 0] sum by (simp add: dec_loop.simps [of num])
  next
    case False
    then show ?thesis using step [of "of_nat (num div 10)"] sum 1 by (simp add: dec_loop.simps [of num])
  qed
qed

lemma zeros_strtoul: "0 < b \<Longrightarrow> strtoul_loop 0 b (replicate k 0x30 @ p) = strtoul_loop 0 b p"
  by (induction k) (auto simp: strtoul_charval_def Let_def not_le)

definition starts_plain :: "byte list \<Rightarrow> bool" where
  "starts_plain p = (\<exists>c q. p = c # q \<and> \<not> isspace (sint c) \<and> c \<noteq> 0x2d)"

lemma hex_loop_plain: "cm = 0 \<or> cm = 0x20 \<Longrightarrow> starts_plain (hex_loop cm num ptr)"
proof (induction cm num ptr rule: hex_loop.induct)
  case (1 cm num ptr)
  have "num AND 0xf < 16" by (simp add: word_less_nat_alt unat_nibble)
  note d = hex_char_val [OF this 1(2)]
  show ?case
  proof (cases "drop_bit 4 num = 0")
    case True
    then show ?thesis using d by (simp add: hex_loop.simps [of cm num] starts_plain_def)
  next
    case False
    then show ?thesis using 1 by (simp add: hex_loop.simps [of cm num])
  qed
qed

lemma dec_loop_plain: "starts_plain (dec_loop num ptr)"
proof (induction num ptr rule: dec_loop.induct)
  case (1 num ptr)
  show ?case
  proof (cases "num div 10 = 0")
    case True
    then show ?thesis using dec_digit(2,3) [of num] by (simp add: dec_loop.simps [of num] starts_plain_def)
  next
    case False
    then show ?thesis using 1 by (simp add: dec_loop.simps [of num])
  qed
qed

lemma zeros_plain: "starts_plain p \<Longrightarrow> starts_plain (replicate k 0x30 @ p)"
  by (cases k) (auto simp: starts_plain_def isspace_def)

lemma strtoul_plain: "starts_plain p \<Longrightarrow> b \<noteq> 0 \<Longrightarrow> strtoul p b = strtoul_loop 0 b p"
  by (auto simp: starts_plain_def strtoul_def strtoul_base_def char_at_def split: prod.splits)

lemma strtoul_spaces: "strtoul (replicate k 0x20 @ p) b = strtoul p b"
proof -
  have "dropWhile (\<lambda>c. isspace (sint c)) (replicate k 0x20 @ p) = dropWhile (\<lambda>c. isspace (sint c)) p"
    by (induction k) (simp_all add: isspace_def)
  then show ?thesis by (simp add: strtoul_def)
qed

lemma strtoul_minus:
  assumes "b \<noteq> 0"
  shows "strtoul (0x2d # p) b = (case strtoul_loop 0 b p of (ret, q) \<Rightarrow> (- ret, q))"
  using assms by (simp add: strtoul_def strtoul_base_def char_at_def isspace_def split: prod.splits)

lemma pad_cases: "(flags AND ZPAD) OR 0x20 = (if flags AND ZPAD = 0 then 0x20 else 0x30 :: byte)"
  using and_exp [of flags 4] by (simp add: ZPAD_def split: if_splits)

lemma strtoul_padded:
  assumes "starts_plain p" and "b \<noteq> 0" and "pad = 0x20 \<or> pad = 0x30"
  shows "strtoul (pad_to w pad p) b = strtoul_loop 0 b p"
  using assms(3)
proof
  assume "pad = 0x20"
  then show ?thesis using assms by (simp add: pad_to_def strtoul_spaces strtoul_plain)
next
  assume "pad = 0x30"
  then show ?thesis using assms by (simp add: pad_to_def strtoul_plain zeros_plain zeros_strtoul word_neq_0_conv)
qed

lemma format_hex_16:
  assumes "flags AND ALT_FORM = 0"
  shows "strtoul (format_hex num w flags) 16 = (ucast num, [])"
  using case_mod_cases [of flags] assms
  by (simp add: format_hex_def strtoul_padded hex_loop_plain pad_cases hex_loop_strtoul)

lemma format_hex_0:
  assumes "flags AND ALT_FORM \<noteq> 0" and "flags AND ZPAD \<noteq> 0"
  shows "strtoul (format_hex num w flags) 0 = (ucast num, [])"
proof -
  let ?p = "pad_to w 0x30 (hex_loop (flags AND LCASE) num [])"
  have "format_hex num w flags = 0x30 # (0x58 OR flags AND LCASE) # ?p"
    using assms by (simp add: format_hex_def pad_cases Let_def)
  moreover have "(0x58 OR flags AND LCASE) OR 0x20 = (0x78 :: byte)" using case_mod_cases [of flags] by auto
  moreover have "strtoul_loop 0 16 ?p = (ucast num :: u32, [])"
    using case_mod_cases [of flags] by (simp add: pad_to_def zeros_strtoul hex_loop_strtoul)
  ultimately show ?thesis
    by (simp add: strtoul_def isspace_def char_at_def strtoul_base_def)
qed

lemma format_decimal_10:
  assumes "flags AND ZPAD = 0"
  shows "map_option (\<lambda>s. strtoul s 10) (format_decimal (sint n) w flags) = (if n = 0x80000000 then None else Some (n, []))"
proof (cases "n = 0x80000000")
  case True
  then show ?thesis by (simp add: format_decimal_def Let_def)
next
  case False
  then have "sint n \<noteq> - (2 ^ 31)"
  proof (rule contrapos_nn)
    assume "sint n = - (2 ^ 31)"
    then have "of_int (sint n) = (of_int (- (2 ^ 31)) :: u32)" by (rule arg_cong)
    then show "n = 0x80000000" by simp
  qed
  moreover have "strtoul (pad_to w 0x20 (if sint n < 0 then 0x2d # dec_loop (nat \<bar>sint n\<bar>) [] else dec_loop (nat \<bar>sint n\<bar>) [])) 10 = (n, [])"
  proof (cases "sint n < 0")
    case True
    have "- of_nat (nat (- sint n)) = (of_int (sint n) :: u32)" using True by simp
    then show ?thesis using True by (simp add: pad_to_def strtoul_spaces strtoul_minus dec_loop_strtoul)
  next
    case False
    then have "of_nat (nat (sint n)) = (of_int (sint n) :: u32)" by simp
    then show ?thesis using False by (simp add: pad_to_def strtoul_spaces strtoul_plain dec_loop_plain dec_loop_strtoul)
  qed
  ultimately show ?thesis using False assms by (simp add: format_decimal_def pad_cases Let_def)
qed


section \<open>Buffers\<close>

lemma sputc_past: "n \<le> len \<Longrightarrow> fold (printf_sputc n) out (buf, len) = (buf, len + length out)"
  by (induction out arbitrary: len) (auto simp: printf_sputc_def)

lemma sputc_fold:
  "length buf = n \<Longrightarrow> len \<le> n \<Longrightarrow> fold (printf_sputc n) out (buf, len) =
     (take len buf @ take (n - len) out @ drop (len + length out) buf, len + length out)"
proof (induction out arbitrary: buf len)
  case (Cons c out)
  show ?case
  proof (cases "len < n")
    case True
    then have t: "take (Suc len) (buf[len := c]) = take len buf @ [c]" using Cons.prems
      by (simp add: take_Suc_conv_app_nth)
    have "fold (printf_sputc n) (c # out) (buf, len) = fold (printf_sputc n) out (buf[len := c], Suc len)"
      using True by (simp add: printf_sputc_def)
    also have "\<dots> = (take (Suc len) (buf[len := c]) @ take (n - Suc len) out @ drop (Suc len + length out) (buf[len := c]), Suc len + length out)"
      using Cons.IH [of "buf[len := c]" "Suc len"] Cons.prems True by simp
    finally show ?thesis using True t by (simp add: take_Cons')
  next
    case False
    then show ?thesis using Cons.prems sputc_past [of n len "c # out" buf] by simp
  qed
qed simp

lemma vsnprintf_eq:
  assumes "vcprintf fmt args = Some out" and "length buf = n" and "0 < n"
  shows "vsnprintf buf n fmt args = Some (take (n - 1) out @ [0] @ drop (Suc (length out)) buf, length out)"
proof -
  let ?b = "take n out @ drop (length out) buf"
  have f: "fold (printf_sputc n) out (buf, 0) = (?b, length out)" using sputc_fold [OF assms(2), of 0 out] by simp
  have "?b[(if length out < n - 1 then length out else n - 1) := 0] = take (n - 1) out @ [0] @ drop (Suc (length out)) buf"
  proof (cases "length out < n - 1")
    case True
    then have "drop (length out) buf = buf ! length out # drop (Suc (length out)) buf"
      using assms(2) by (simp add: Cons_nth_drop_Suc)
    then show ?thesis using True by (simp add: list_update_append)
  next
    case False
    obtain m where n: "n = Suc m" using assms(3) by (cases n) auto
    show ?thesis
    proof (cases "length out = m")
      case True
      then have "drop (length out) buf = [buf ! m]" using assms(2) n by (simp add: Cons_nth_drop_Suc [symmetric])
      then show ?thesis using True n assms(2) by (simp add: list_update_append)
    next
      case False
      then show ?thesis using \<open>\<not> length out < n - 1\<close> n assms(2)
        by (simp add: take_Suc_conv_app_nth list_update_append)
    qed
  qed
  then show ?thesis using assms f by (simp add: vsnprintf_def)
qed

lemma hex_byte:
  assumes "flags AND ZPAD \<noteq> 0" and "flags AND ALT_FORM = 0"
  shows "format_hex (ucast (b :: byte)) 2 flags =
    [hex_char (drop_bit 4 (ucast b)) OR (flags AND LCASE), hex_char (ucast b AND 0xf) OR (flags AND LCASE)]"
proof -
  let ?n = "ucast b :: 64 word" and ?cm = "flags AND LCASE"
  have u: "unat ?n = unat b" by (simp add: unsigned_ucast_eq take_bit_eq_mod unsigned_less [THEN order_less_le_trans])
  have lt: "unat b < 256" using unsigned_less [of b] by simp
  let ?h = "drop_bit 4 ?n"
  have h: "unat ?h = unat b div 16" by (simp add: drop_bit_eq_div unat_div u)
  have hh: "drop_bit 4 ?h = 0" using lt by (simp add: drop_bit_eq_div unat_div word_unat_eq_iff u)
  have "?h AND 0xf = ?h" using lt h by (simp add: word_unat_eq_iff unat_nibble)
  then have "hex_loop ?cm ?n [] = (if ?h = 0 then [hex_char (?n AND 0xf) OR ?cm]
      else [hex_char ?h OR ?cm, hex_char (?n AND 0xf) OR ?cm])"
    using hh by (simp add: hex_loop.simps [of ?cm ?n] hex_loop.simps [of ?cm ?h] Let_def)
  moreover have "hex_char 0 OR ?cm = 0x30" using case_mod_cases [of flags] by (auto simp: hex_char_def)
  ultimately show ?thesis using assms by (auto simp: format_hex_def pad_to_def pad_cases Let_def)
qed

lemma printf_hex_byte:
  "vcprintf [0x25, 0x30, 0x32, 0x78] [Int32 (ucast (b :: byte))] =
     Some [hex_char (drop_bit 4 (ucast b)) OR 0x20, hex_char (ucast b AND 0xf) OR 0x20]"
  "vcprintf [0x25, 0x25, 0x25, 0x30, 0x32, 0x58] [Int32 (ucast b)] =
     Some [0x25, hex_char (drop_bit 4 (ucast b)), hex_char (ucast b AND 0xf)]"
proof -
  have uu: "ucast (ucast b :: u32) = (ucast b :: 64 word)"
    by (intro bit_word_eqI) (auto simp: bit_simps dest: bit_imp_le_length)
  have f: "(ZPAD OR 0x20) AND ZPAD \<noteq> 0" "(ZPAD OR 0x20) AND ALT_FORM = 0" "(ZPAD OR 0x20) AND LCASE = 0x20"
    "ZPAD AND ZPAD \<noteq> 0" "ZPAD AND ALT_FORM = 0" "ZPAD AND LCASE = 0"
    by (simp_all add: ZPAD_def ALT_FORM_def LCASE_def)
  note hb = hex_byte [OF f(1,2), of b, unfolded f(3) numeral_2_eq_2] hex_byte [OF f(4,5), of b, unfolded f(6) numeral_2_eq_2]
  show "vcprintf [0x25, 0x30, 0x32, 0x78] [Int32 (ucast (b :: byte))] =
     Some [hex_char (drop_bit 4 (ucast b)) OR 0x20, hex_char (ucast b AND 0xf) OR 0x20]"
    by (simp add: vcprintf.simps parse_spec_def convert_def in_tmp_buf_def type_size_def uu hb Let_def)
  show "vcprintf [0x25, 0x25, 0x25, 0x30, 0x32, 0x58] [Int32 (ucast b)] =
     Some [0x25, hex_char (drop_bit 4 (ucast b)), hex_char (ucast b AND 0xf)]"
    by (simp add: vcprintf.simps parse_spec_def convert_def in_tmp_buf_def type_size_def uu hb Let_def)
qed

lemma printf_char: "vcprintf [0x25, 0x63] [Int32 (ucast (c :: byte))] = Some [c]"
proof -
  have "ucast (ucast c :: u32) = c" by (intro bit_word_eqI) (auto simp: bit_simps dest: bit_imp_le_length)
  then show ?thesis by (simp add: vcprintf.simps parse_spec_def convert_def)
qed

section \<open>Properties\<close>


text \<open>C36: vsnprintf() never writes beyond its buffer and always terminates it: the buffer receives the formatted
  string cut to one character less than its size and then NUL, a buffer of size zero is left alone, and the
  returned length is that of the complete string.  vasprintf() therefore returns the complete string in memory
  of exactly the size it asked for.\<close>

theorem vsnprintf_bounded:
  assumes "vcprintf fmt args = Some out" and "\<And>n s. malloc n = Some s \<Longrightarrow> length s = n"
  shows "(buf \<noteq> [] \<longrightarrow> vsnprintf buf (length buf) fmt args =
            Some (take (length buf - 1) out @ [0] @ drop (Suc (length out)) buf, length out)) \<and>
         vsnprintf buf 0 fmt args = Some (buf, length out) \<and>
         vasprintf malloc fmt args =
           Some (if malloc (Suc (length out)) = None then Inl ENOMEM else Inr (out @ [0], length out))"
proof (intro conjI impI)
  assume "buf \<noteq> []"
  then show "vsnprintf buf (length buf) fmt args =
      Some (take (length buf - 1) out @ [0] @ drop (Suc (length out)) buf, length out)"
    using vsnprintf_eq [OF assms(1), of buf "length buf"] by simp
next
  show z: "vsnprintf buf 0 fmt args = Some (buf, length out)" for buf
    using assms(1) by (simp add: vsnprintf_def sputc_past)
  show "vasprintf malloc fmt args =
      Some (if malloc (Suc (length out)) = None then Inl ENOMEM else Inr (out @ [0], length out))"
    using z [of "[]"] vsnprintf_eq [OF assms(1), of _ "Suc (length out)"] assms(2)
    by (auto simp: vasprintf_def split: option.splits)
qed

text \<open>The format is "%d" and the argument -12; the buffer has three bytes.\<close>

theorem vsnprintf_bounded_witness:
  "vcprintf [0x25, 0x64] [Int32 (-12)] = Some [0x2d, 0x31, 0x32] \<and>
   vsnprintf [1, 1, 1] 3 [0x25, 0x64] [Int32 (-12)] = Some ([0x2d, 0x31, 0], 3) \<and>
   vasprintf (\<lambda>n. Some (replicate n 0)) [0x25, 0x64] [Int32 (-12)] = Some (Inr ([0x2d, 0x31, 0x32, 0], 3))"
proof -
  have v: "vcprintf [0x25, 0x64] [Int32 (-12)] = Some [0x2d, 0x31, 0x32]"
    by (simp add: vcprintf.simps parse_spec_def convert_def in_tmp_buf_def type_size_def format_decimal_def
        dec_loop.simps pad_to_def Let_def)
  show ?thesis
    using v vsnprintf_bounded [OF v, of "\<lambda>n. Some (replicate n 0)" "[1, 1, 1]"] by (simp add: numeral_eq_Suc)
qed

text \<open>A negative number whose digits fill its zero-padded field loses the leading digit: "%02d" prints -12 as "-2".\<close>

lemma zero_pad_drops_digit: "vcprintf [0x25, 0x30, 0x32, 0x64] [Int32 (-12)] = Some [0x2d, 0x32]"
  by (simp add: vcprintf.simps parse_spec_def convert_def in_tmp_buf_def type_size_def format_decimal_def
      dec_loop.simps pad_to_def Let_def ZPAD_def)

end
