(* ===== verification/Encoding.thy ===== *)
theory Encoding
  imports Vsprintf
begin

text \<open>
  Base16 and Base64 (\<open>src/src/core/base16.c\<close>, \<open>src/src/core/base64.c\<close>).  Strings are lists of characters
  without the terminating NUL.  Raw data is shorter than 2^29 bytes, so that the counters of bits do not wrap
  when encoding; the decoder keeps its counter as the 32-bit word of the code.
\<close>

section \<open>Base16\<close>

definition base16_encoded_len :: "nat \<Rightarrow> nat" where
  "base16_encoded_len raw_len = 2 * raw_len"

definition base16_decoded_max_len :: "byte list \<Rightarrow> nat" where
  "base16_decoded_max_len encoded = (length encoded + 1) div 2"

text \<open>The format is \<open>%02x\<close>.\<close>

fun base16_encode :: "byte list \<Rightarrow> byte list option" where
  "base16_encode [] = Some []"
| "base16_encode (b # raw) =
     (case vcprintf [0x25, 0x30, 0x32, 0x78] [Int32 (ucast b)] of
        None \<Rightarrow> None
      | Some s \<Rightarrow> map_option (append s) (base16_encode raw))"

fun base16_decode :: "byte list \<Rightarrow> errno + byte list" where
  "base16_decode [] = Inr []"
| "base16_decode [c] = Inl EINVAL"
| "base16_decode (c # d # encoded) =
     (case strtoul [c, d] 16 of
        (v, endp) \<Rightarrow>
          if endp \<noteq> [] then Inl EINVAL
          else case base16_decode encoded of Inl rc \<Rightarrow> Inl rc | Inr raw \<Rightarrow> Inr (ucast v # raw))"

section \<open>Base64\<close>

definition base64 :: "byte list" where
  "base64 = map of_nat ([65 ..< 91] @ [97 ..< 123] @ [48 ..< 58] @ [43, 47])"

definition base64_encoded_len :: "nat \<Rightarrow> nat" where
  "base64_encoded_len raw_len = (raw_len + 3 - 1) div 3 * 4"

definition base64_decoded_max_len :: "byte list \<Rightarrow> nat" where
  "base64_decoded_max_len encoded = (length encoded + 4 - 1) div 4 * 3"

definition base64_digit :: "byte list \<Rightarrow> nat \<Rightarrow> byte" where
  "base64_digit raw n =
     (let byte = n div 8;
          shift = n mod 8;
          tmp = push_bit shift (ucast (raw ! byte) :: u32);
          tmp = (if byte + 1 < length raw then tmp OR drop_bit (8 - shift) (ucast (raw ! (byte + 1))) else tmp);
          tmp = drop_bit 2 tmp AND 0x3f
      in base64 ! unat tmp)"

text \<open>The counter \<open>bit\<close> is six times the number \<open>k\<close> of characters written.\<close>

function base64_pad :: "nat \<Rightarrow> byte list" where
  "base64_pad k = (if 6 * k mod 8 \<noteq> 0 then 0x3d # base64_pad (k + 1) else [])"
  by pat_completeness auto

lemma pad_mod: "6 * k mod 8 = [0, 6, 4, 2] ! (k mod 4)" for k :: nat
proof -
  have "6 * k = 8 * (3 * (k div 4)) + 6 * (k mod 4)" using mult_div_mod_eq [of 4 k] by linarith
  then have e: "6 * k mod 8 = 6 * (k mod 4) mod 8" by (simp only: mod_mult_self4)
  consider "k mod 4 = 0" | "k mod 4 = 1" | "k mod 4 = 2" | "k mod 4 = 3"
    using mod_less_divisor [of 4 k] by linarith
  then show ?thesis by cases (simp_all add: e)
qed

lemma mod4_Suc: "Suc k mod 4 = [1, 2, 3, 0] ! (k mod 4)"
proof -
  consider "k mod 4 = 0" | "k mod 4 = 1" | "k mod 4 = 2" | "k mod 4 = 3"
    using mod_less_divisor [of 4 k] by linarith
  then show ?thesis by cases (simp_all add: mod_Suc)
qed

lemma pad_less: "6 * k mod 8 \<noteq> 0 \<Longrightarrow> 6 * Suc k mod 8 < 6 * k mod 8" for k :: nat
proof -
  consider "k mod 4 = 0" | "k mod 4 = 1" | "k mod 4 = 2" | "k mod 4 = 3"
    using mod_less_divisor [of 4 k] by linarith
  then show "6 * k mod 8 \<noteq> 0 \<Longrightarrow> ?thesis" by cases (simp_all only: pad_mod mod4_Suc, simp_all)
qed

termination base64_pad
  by (relation "measure (\<lambda>k. 6 * k mod 8)") (simp, simp only: in_measure Suc_eq_plus1 [symmetric], erule pad_less)

function base64_loop :: "byte list \<Rightarrow> nat \<Rightarrow> byte list" where
  "base64_loop raw k =
     (if 6 * k < 8 * length raw then base64_digit raw (6 * k) # base64_loop raw (k + 1) else base64_pad k)"
  by pat_completeness auto

termination base64_loop
  by (relation "measure (\<lambda>(raw, k). 8 * length raw - 6 * k)") auto

definition base64_encode :: "byte list \<Rightarrow> byte list" where
  "base64_encode raw = base64_loop raw 0"

declare base64_pad.simps [simp del]
declare base64_loop.simps [simp del]

fun strchr_index :: "byte list \<Rightarrow> byte \<Rightarrow> nat option" where
  "strchr_index [] c = None"
| "strchr_index (x # s) c = (if x = c then Some 0 else if x = 0 then None else map_option Suc (strchr_index s c))"

definition or_byte :: "nat \<Rightarrow> u32 \<Rightarrow> byte list \<Rightarrow> byte list option" where
  "or_byte i v raw = (if i < length raw then Some (raw[i := raw ! i OR ucast v]) else None)"

text \<open>\<open>raw\<close> is the memory from the buffer on that may be written; \<open>after\<close> is what lies behind the table
  \<open>base64\<close>, which has no terminator.\<close>

fun base64_decode_loop :: "byte list \<Rightarrow> byte list \<Rightarrow> byte list \<Rightarrow> u32 \<Rightarrow> nat \<Rightarrow> (errno + nat \<times> byte list) option" where
  "base64_decode_loop after [] raw n pad_count =
     (if n mod 8 \<noteq> 0 then Some (Inl EINVAL) else Some (Inr (unat (n div 8), raw)))"
| "base64_decode_loop after (c # encoded) raw n pad_count =
     (if isspace (uint c) then base64_decode_loop after encoded raw n pad_count
      else if c = 0x3d then
        if pad_count \<ge> 2 then Some (Inl EINVAL)
        else base64_decode_loop after encoded raw (n - 2) (pad_count + 1)
      else if pad_count \<noteq> 0 then Some (Inl EINVAL)
      else case strchr_index (base64 @ after) c of
        None \<Rightarrow> Some (Inl EINVAL)
      | Some match \<Rightarrow>
          (let decoded = push_bit 2 (of_nat match :: u32)
           in case or_byte (unat (n div 8)) (drop_bit (unat (n mod 8)) decoded) raw of
                None \<Rightarrow> None
              | Some raw \<Rightarrow>
                  (case or_byte (unat (n div 8 + 1)) (push_bit (8 - unat (n mod 8)) decoded) raw of
                     None \<Rightarrow> None
                   | Some raw \<Rightarrow> base64_decode_loop after encoded raw (n + 6) pad_count)))"

definition base64_decode :: "byte list \<Rightarrow> byte list \<Rightarrow> byte list \<Rightarrow> (errno + nat \<times> byte list) option" where
  "base64_decode after encoded raw =
     (let len = base64_decoded_max_len encoded
      in if length raw < len then None
         else base64_decode_loop after encoded (replicate len 0 @ drop len raw) 0 0)"

section \<open>Lemmas\<close>

lemma base16_digits:
  "strtoul [hex_char (drop_bit 4 (ucast (b :: byte))) OR 0x20, hex_char (ucast b AND 0xf) OR 0x20] 16 = (ucast b, [])"
proof -
  have "(ZPAD OR LCASE) AND ZPAD \<noteq> 0" "(ZPAD OR LCASE) AND ALT_FORM = 0" "(ZPAD OR LCASE) AND LCASE = 0x20"
    by (simp_all add: ZPAD_def ALT_FORM_def LCASE_def)
  moreover have "ucast (ucast b :: 64 word) = (ucast b :: u32)"
    by (intro bit_word_eqI) (auto simp: bit_simps dest: bit_imp_le_length)
  ultimately show ?thesis
    using hex_byte [of "ZPAD OR LCASE" b] format_hex_16 [of "ZPAD OR LCASE" "ucast b" 2] by simp
qed

definition bit_at :: "byte list \<Rightarrow> nat \<Rightarrow> bool" where
  "bit_at raw k = (k div 8 < length raw \<and> bit (raw ! (k div 8)) (7 - k mod 8))"

lemma bit_at_eqI:
  assumes "length xs = length ys" and "\<And>k. bit_at xs k = bit_at ys k"
  shows "xs = ys"
proof (rule nth_equalityI [OF assms(1)], rule bit_word_eqI)
  fix i n assume i: "i < length xs" and n: "n < LENGTH(8)"
  have "(8 * i + m) div 8 = i \<and> (8 * i + m) mod 8 = m" if "m < 8" for m using that by simp
  from this [of "7 - n"] have "(8 * i + (7 - n)) div 8 = i" "(8 * i + (7 - n)) mod 8 = 7 - n" by simp_all
  then show "bit (xs ! i) n = bit (ys ! i) n"
    using assms(2) [of "8 * i + (7 - n)"] i assms(1) n by (simp add: bit_at_def)
qed

lemma base64_length: "length base64 = 64" by (simp add: base64_def)

lemma bit_small:
  fixes v :: nat
  assumes "v < 2 ^ m" and "bit v n"
  shows "n < m"
proof -
  have "v = take_bit m v" using assms(1) by (simp add: take_bit_nat_eq_self)
  then show ?thesis using assms(2) by (metis bit_take_bit_iff)
qed

lemma nat_split8:
  obtains q r where "k = 8 * q + r" and "r < (8 :: nat)" and "k div 8 = q" and "k mod 8 = r"
  using that [of "k div 8" "k mod 8"] by simp

definition add_sextet :: "nat \<Rightarrow> nat \<Rightarrow> byte list \<Rightarrow> byte list" where
  "add_sextet v b raw =
     (let decoded = push_bit 2 (of_nat v :: u32);
          raw = raw[b div 8 := raw ! (b div 8) OR ucast (drop_bit (b mod 8) decoded)]
      in raw[b div 8 + 1 := raw ! (b div 8 + 1) OR ucast (push_bit (8 - b mod 8) decoded)])"

lemma add_sextet_bits:
  assumes "v < 64" and "b div 8 + 1 < length raw"
  shows "bit_at (add_sextet v b raw) k \<longleftrightarrow> bit_at raw k \<or> b \<le> k \<and> k < b + 6 \<and> bit v (5 - (k - b))"
proof -
  obtain q s where b: "b = 8 * q + s" "s < 8" "b div 8 = q" "b mod 8 = s" by (rule nat_split8)
  obtain p r where k: "k = 8 * p + r" "r < 8" "k div 8 = p" "k mod 8 = r" by (rule nat_split8)
  have small: "\<not> bit v n" if "6 \<le> n" for n using bit_small [of v 6 n] assms(1) that by auto
  define d where "d = push_bit 2 (of_nat v :: u32)"
  have d: "bit d n \<longleftrightarrow> 2 \<le> n \<and> n < 32 \<and> bit v (n - 2)" for n by (auto simp: d_def bit_simps)
  have low: "bit (ucast (drop_bit s d) :: byte) (7 - r) \<longleftrightarrow> r < s + 6 \<and> bit v (s + 5 - r)"
    using b(2) k(2) by (auto simp: bit_simps d add.commute)
  have "7 - r - (8 - s) - 2 = s - (3 + r)" using b(2) k(2) by simp
  then have high: "bit (ucast (push_bit (8 - s) d) :: byte) (7 - r) \<longleftrightarrow> r + 3 \<le> s \<and> bit v (s - (3 + r))"
    using b(2) k(2) by (auto simp: bit_simps d)
  consider "p = q" | "p = q + 1" | "p \<noteq> q" "p \<noteq> q + 1" by blast
  then show ?thesis
  proof cases
    case 1
    have "r < s + 6 \<and> bit v (s + 5 - r) \<longleftrightarrow> s \<le> r \<and> r < s + 6 \<and> bit v (5 - (r - s))"
      using small [of "s + 5 - r"] by (cases "s \<le> r") (auto simp: not_le add.commute)
    then show ?thesis using 1 assms(2) low b k by (auto simp: add_sextet_def Let_def d_def [symmetric] bit_at_def bit_or_iff)
  next
    case 2
    then show ?thesis using assms(2) high b k by (auto simp: add_sextet_def Let_def d_def [symmetric] bit_at_def bit_or_iff)
  next
    case 3
    then show ?thesis using assms(2) b k by (auto simp: add_sextet_def Let_def d_def [symmetric] bit_at_def)
  qed
qed

definition sextet :: "byte list \<Rightarrow> nat \<Rightarrow> nat" where
  "sextet raw b =
     (let tmp = push_bit (b mod 8) (ucast (raw ! (b div 8)) :: u32);
          tmp = (if b div 8 + 1 < length raw then tmp OR drop_bit (8 - b mod 8) (ucast (raw ! (b div 8 + 1))) else tmp)
      in unat (drop_bit 2 tmp AND 0x3f))"

lemma base64_digit_sextet: "base64_digit raw b = base64 ! sextet raw b"
  by (simp add: base64_digit_def sextet_def Let_def)

lemma unat_and_63: "unat (x AND 0x3f :: u32) = unat x mod 64"
  using unat_and_mask [of x 6] by (simp add: mask_eq_decr_exp)

lemma sextet_less: "sextet raw b < 64"
  by (simp add: sextet_def Let_def unat_and_63)

lemma sextet_bits:
  assumes "j < 6" and "b < 8 * length raw"
  shows "bit (sextet raw b) j \<longleftrightarrow> bit_at raw (b + 5 - j)"
proof -
  obtain q s where b: "b = 8 * q + s" "s < 8" "b div 8 = q" "b mod 8 = s" by (rule nat_split8)
  have q: "q < length raw" using assms(2) b by linarith
  have m: "bit (0x3f :: u32) j"
    using assms(1) bit_mask_iff [where ?'a = u32, of 6 j] by (simp add: mask_eq_decr_exp)
  have "bit (sextet raw b) j \<longleftrightarrow> s \<le> j + 2 \<and> bit (raw ! q) (j + 2 - s) \<or>
      q + 1 < length raw \<and> bit (raw ! (q + 1)) (8 - s + (2 + j))"
    using assms(1) b m by (simp only: sextet_def Let_def b(3,4)) (auto simp: bit_simps)
  moreover have "\<not> bit (raw ! (q + 1)) (8 - s + (2 + j))" if "s \<le> j + 2"
    using bit_imp_le_length [of "raw ! (q + 1)" "8 - s + (2 + j)"] that b(2) by auto
  moreover have "(8 * p + r) div 8 = p \<and> (8 * p + r) mod 8 = r" if "r < 8" for p r :: nat using that by simp
  note at = this
  have "bit_at raw (b + 5 - j) \<longleftrightarrow> (if s \<le> j + 2 then bit (raw ! q) (j + 2 - s)
      else q + 1 < length raw \<and> bit (raw ! (q + 1)) (8 - s + (2 + j)))"
  proof (cases "s \<le> j + 2")
    case True
    then have "b + 5 - j = 8 * q + (s + 5 - j)" "s + 5 - j < 8" "7 - (s + 5 - j) = j + 2 - s" using b assms(1) by linarith+
    then show ?thesis using at [of "s + 5 - j" q] True q by (simp add: bit_at_def)
  next
    case False
    then have "b + 5 - j = 8 * (q + 1) + (s - (3 + j))" "s - (3 + j) < 8" "7 - (s - (3 + j)) = 8 - s + (2 + j)"
      using b(1,2) by arith+
    then show ?thesis using at [of "s - (3 + j)" "q + 1"] False by (simp only: bit_at_def) simp
  qed
  ultimately show ?thesis by auto
qed

lemma base64_chars:
  "distinct base64" "0 \<notin> set base64" "list_all (\<lambda>c. \<not> isspace (uint c) \<and> c \<noteq> 0x3d) base64"
  by code_simp+

lemma strchr_index_nth:
  "distinct s \<Longrightarrow> 0 \<notin> set s \<Longrightarrow> i < length s \<Longrightarrow> strchr_index (s @ t) (s ! i) = Some i"
proof (induction s arbitrary: i)
  case (Cons x s)
  then show ?case by (cases i) auto
qed simp

lemma base64_pad_eq: "base64_pad k = replicate ([0, 3, 2, 1] ! (k mod 4)) 0x3d"
proof (induction k rule: base64_pad.induct)
  case (1 k)
  consider "k mod 4 = 0" | "k mod 4 = 1" | "k mod 4 = 2" | "k mod 4 = 3"
    using mod_less_divisor [of 4 k] by linarith
  then show ?case using 1 by cases (simp_all add: base64_pad.simps [of k] pad_mod mod4_Suc numeral_2_eq_2 numeral_3_eq_3)
qed

lemma last_char:
  assumes "k = 0 \<or> 6 * (k - 1) < 8 * len" and "8 * len \<le> 6 * k"
  shows "[0, 3, 2, 1] ! (k mod 4) \<le> (2 :: nat)" "6 * k = 8 * len + 2 * [0, 3, 2, 1] ! (k mod 4)"
    "k + [0, 3, 2, 1] ! (k mod 4) = 4 * ((len + 2) div 3)"
proof -
  define m where "m = k div 4"
  have k: "k = 4 * m + k mod 4" by (simp add: m_def)
  consider "k mod 4 = 0" | "k mod 4 = 1" | "k mod 4 = 2" | "k mod 4 = 3"
    using mod_less_divisor [of 4 k] by linarith
  then have "[0, 3, 2, 1] ! (k mod 4) \<le> (2 :: nat) \<and> 6 * k = 8 * len + 2 * [0, 3, 2, 1] ! (k mod 4) \<and>
    k + [0, 3, 2, 1] ! (k mod 4) = 4 * ((len + 2) div 3)"
  proof cases
    case 1
    then have "len = 3 * m" using assms k by arith
    then show ?thesis using 1 k by simp
  next
    case 2
    then have "0 < k" by (cases k) auto
    then have "6 * (k - 1) < 8 * len" using assms(1) by simp
    then have "3 * m < len" using k 2 by simp
    then have False using assms(2) k 2 by linarith
    then show ?thesis ..
  next
    case 3
    then have "len = 3 * m + 1" using assms k by linarith
    then show ?thesis using 3 k by simp
  next
    case 4
    then have "len = 3 * m + 2" using assms k by linarith
    then show ?thesis using 4 k by simp
  qed
  then show "[0, 3, 2, 1] ! (k mod 4) \<le> (2 :: nat)" "6 * k = 8 * len + 2 * [0, 3, 2, 1] ! (k mod 4)"
    "k + [0, 3, 2, 1] ! (k mod 4) = 4 * ((len + 2) div 3)" by auto
qed

lemma base64_nth: "d < 64 \<Longrightarrow> \<not> isspace (uint (base64 ! d)) \<and> base64 ! d \<noteq> 0x3d"
  using base64_chars(3) by (simp add: list_all_length base64_length)

lemma base64_loop_length:
  "k = 0 \<or> 6 * (k - 1) < 8 * length raw \<Longrightarrow> k + length (base64_loop raw k) = 4 * ((length raw + 2) div 3)"
proof (induction raw k rule: base64_loop.induct)
  case (1 raw k)
  show ?case
  proof (cases "6 * k < 8 * length raw")
    case True
    then show ?thesis using 1 by (simp add: base64_loop.simps [of raw k])
  next
    case False
    then show ?thesis using last_char(3) [OF 1(2)] by (simp add: base64_loop.simps [of raw k] base64_pad_eq)
  qed
qed

lemma decode_sextet:
  assumes "d < 64" and "b div 8 + 1 < length raw" and "b < 2 ^ 32 - 8"
  shows "base64_decode_loop after (base64 ! d # encoded) raw (of_nat b) 0 =
    base64_decode_loop after encoded (add_sextet d b raw) (of_nat (b + 6)) 0"
proof -
  have "unat (of_nat b :: u32) = b" using assms(3) by (simp add: unat_of_nat take_bit_eq_mod)
  then have n: "unat (of_nat b div 8 :: u32) = b div 8" "unat (of_nat b mod 8 :: u32) = b mod 8"
    by (simp_all add: unat_div unat_mod)
  moreover have "unat (of_nat b div 8 + 1 :: u32) = b div 8 + 1"
    using unat_plus1 [of "of_nat b div 8"] n assms(3) by simp
  moreover have "strchr_index (base64 @ after) (base64 ! d) = Some d"
    using strchr_index_nth base64_chars assms(1) by (simp add: base64_length)
  ultimately show ?thesis
    using assms base64_nth [OF assms(1)] by (simp add: or_byte_def add_sextet_def Let_def)
qed

lemma decode_pads:
  assumes "p \<le> 2"
  shows "base64_decode_loop after (replicate p 0x3d) raw n 0 = base64_decode_loop after [] raw (n - of_nat (2 * p)) p"
proof -
  have e: "\<not> isspace (uint (0x3d :: byte))" "replicate 2 (0x3d :: byte) = [0x3d, 0x3d]"
    by (simp add: isspace_def) (simp add: numeral_2_eq_2)
  consider "p = 0" | "p = 1" | "p = 2" using assms by linarith
  then show ?thesis using e by cases simp_all
qed

lemma add_sextet_length: "length (add_sextet v b raw) = length raw"
  by (simp add: add_sextet_def Let_def)

lemma decode_encode_loop:
  assumes "k = 0 \<or> 6 * (k - 1) < 8 * length raw"
    and "\<And>i. i < 8 * length raw \<Longrightarrow> bit_at buf i \<longleftrightarrow> i < 6 * k \<and> bit_at raw i"
    and "length raw < length buf" and "length raw < 2 ^ 28"
  shows "\<exists>buf'. base64_decode_loop after (base64_loop raw k) buf (of_nat (6 * k)) 0 = Some (Inr (length raw, buf')) \<and>
    length buf' = length buf \<and> take (length raw) buf' = raw"
  using assms
proof (induction raw k arbitrary: buf rule: base64_loop.induct)
  case (1 raw k buf)
  show ?case
  proof (cases "6 * k < 8 * length raw")
    case True
    let ?d = "sextet raw (6 * k)" and ?b = "add_sextet (sextet raw (6 * k)) (6 * k) buf"
    have room: "6 * k div 8 + 1 < length buf" using True 1(4) by linarith
    have "bit_at ?b i \<longleftrightarrow> i < 6 * (k + 1) \<and> bit_at raw i" if i: "i < 8 * length raw" for i
      using add_sextet_bits [OF sextet_less room, of raw "6 * k" i] 1(3) [OF i] sextet_bits [OF _ True, of "5 - (i - 6 * k)"]
      by (cases "6 * k \<le> i") auto
    then have "\<exists>buf'. base64_decode_loop after (base64_loop raw (k + 1)) ?b (of_nat (6 * (k + 1))) 0 = Some (Inr (length raw, buf')) \<and>
        length buf' = length ?b \<and> take (length raw) buf' = raw"
      using 1(4,5) True by (intro 1(1)) (auto simp: add_sextet_length)
    moreover have "base64_decode_loop after (base64_loop raw k) buf (of_nat (6 * k)) 0 =
        base64_decode_loop after (base64_loop raw (k + 1)) ?b (of_nat (6 * (k + 1))) 0"
      using decode_sextet [OF sextet_less room, where after = after and encoded = "base64_loop raw (k + 1)"] True 1(5)
      by (simp add: base64_loop.simps [of raw k] base64_digit_sextet algebra_simps)
    ultimately show ?thesis by (simp add: add_sextet_length)
  next
    case False
    let ?p = "[0, 3, 2, 1] ! (k mod 4) :: nat"
    have last: "?p \<le> 2" "6 * k = 8 * length raw + 2 * ?p" using last_char [OF 1(2)] False by auto
    have n: "of_nat (6 * k) - of_nat (2 * ?p) = (of_nat (8 * length raw) :: u32)" unfolding last(2) of_nat_add by simp
    have u: "unat (of_nat (8 * length raw) :: u32) = 8 * length raw"
      using 1(5) by (simp add: unat_of_nat take_bit_eq_mod del: of_nat_mult)
    then have "(of_nat (8 * length raw) :: u32) mod 8 = 0" "unat ((of_nat (8 * length raw) :: u32) div 8) = length raw"
      by (simp_all add: word_unat_eq_iff unat_mod unat_div)
    then have "base64_decode_loop after (base64_loop raw k) buf (of_nat (6 * k)) 0 = Some (Inr (length raw, buf))"
      using False last(1) by (simp add: base64_loop.simps [of raw k] base64_pad_eq decode_pads n del: of_nat_mult One_nat_def)
    moreover have "take (length raw) buf = raw"
    proof (rule bit_at_eqI)
      show "bit_at (take (length raw) buf) i = bit_at raw i" for i
        using 1(3) [of i] False 1(4) by (cases "i div 8 < length raw") (auto simp: bit_at_def)
    qed (use 1(4) in simp)
    ultimately show ?thesis by blast
  qed
qed

section \<open>Properties\<close>

text \<open>C18: Base64 is inverted by its decoder.  The encoded string has the announced length; decoding it returns the
  original length and leaves the original bytes at the start of the buffer, whatever the memory behind the table
  of digits holds.  The buffer must have one byte more than the announced maximum, because the last digit also
  updates the following byte.\<close>

theorem base64_roundtrip:
  assumes "length raw < 2 ^ 28" and "base64_decoded_max_len (base64_encode raw) < length buf"
  shows "length (base64_encode raw) = base64_encoded_len (length raw) \<and>
    (\<exists>buf'. base64_decode after (base64_encode raw) buf = Some (Inr (length raw, buf')) \<and>
       take (length raw) buf' = raw \<and> length buf' = length buf)"
proof -
  let ?m = "base64_decoded_max_len (base64_encode raw)"
  have len: "length (base64_encode raw) = 4 * ((length raw + 2) div 3)"
    using base64_loop_length [of 0 raw] by (simp add: base64_encode_def)
  then have m: "?m = 3 * ((length raw + 2) div 3)" by (simp add: base64_decoded_max_len_def)
  then have "length raw \<le> ?m" by linarith
  then have "bit_at (replicate ?m 0 @ drop ?m buf) i \<longleftrightarrow> i < 6 * 0 \<and> bit_at raw i" if "i < 8 * length raw" for i
    using that by (auto simp: bit_at_def nth_append less_mult_imp_div_less)
  then show ?thesis
    using decode_encode_loop [of 0 raw "replicate ?m 0 @ drop ?m buf" after] assms len m \<open>length raw \<le> ?m\<close>
    by (auto simp: base64_decode_def base64_encode_def base64_encoded_len_def)
qed

text \<open>The data is "Man" and one more byte.\<close>

theorem base64_roundtrip_witness:
  "base64_encode [0x4d, 0x61, 0x6e, 0xff] = [0x54, 0x57, 0x46, 0x75, 0x2f, 0x77, 0x3d, 0x3d] \<and>
   (\<exists>buf'. base64_decode [] (base64_encode [0x4d, 0x61, 0x6e, 0xff]) (replicate 7 1) = Some (Inr (4, buf')) \<and>
      take 4 buf' = [0x4d, 0x61, 0x6e, 0xff])"
proof -
  have e: "base64_encode [0x4d, 0x61, 0x6e, 0xff] = [0x54, 0x57, 0x46, 0x75, 0x2f, 0x77, 0x3d, 0x3d]" by code_simp
  then have "base64_decoded_max_len (base64_encode [0x4d, 0x61, 0x6e, 0xff]) < length (replicate 7 (1 :: byte))"
    by (simp add: base64_decoded_max_len_def)
  moreover have "take (Suc (Suc (Suc (Suc 0)))) xs = take 4 xs" for xs :: "byte list" by (simp add: eval_nat_numeral)
  ultimately show ?thesis using e base64_roundtrip [of "[0x4d, 0x61, 0x6e, 0xff]" "replicate 7 1" "[]"] by auto
qed

text \<open>Base16 is inverted by its decoder: every sequence of bytes is encoded to two digits per byte, and the
  decoder returns the original bytes.\<close>

theorem base16_roundtrip:
  "\<exists>encoded. base16_encode raw = Some encoded \<and> length encoded = base16_encoded_len (length raw) \<and>
     base16_decode encoded = Inr raw"
proof (induction raw)
  case (Cons b raw)
  then obtain e where "base16_encode raw = Some e" "length e = 2 * length raw" "base16_decode e = Inr raw"
    by (auto simp: base16_encoded_len_def)
  moreover have "ucast (ucast b :: u32) = b" by (intro bit_word_eqI) (auto simp: bit_simps dest: bit_imp_le_length)
  ultimately show ?case by (simp add: printf_hex_byte base16_digits base16_encoded_len_def)
qed (simp add: base16_encoded_len_def)

text \<open>The decoder accepts a sign in front of a single digit, and a buffer of the announced size is overrun.\<close>

lemma base16_decode_sign: "base16_decode [0x2d, 0x31] = Inr [0xff]"
  by code_simp

lemma base64_decode_overrun:
  "base64_encode [0, 0, 0] = [0x41, 0x41, 0x41, 0x41] \<and> base64_decoded_max_len (base64_encode [0, 0, 0]) = 3 \<and>
   base64_decode [] (base64_encode [0, 0, 0]) [1, 1, 1] = None"
  by code_simp

end
