(* ===== verification/Uri.thy ===== *)
theory Uri
  imports Encoding
begin

text \<open>
  Uniform resource identifiers (\<open>src/src/core/uri.c\<close>, \<open>src/src/include/ipxe/uri.h\<close>,
  \<open>src/src/core/basename.c\<close>, \<open>src/src/core/cwuri.c\<close>).  A field is the string its pointer refers to, or \<open>None\<close>
  for a NULL pointer.  \<open>parse_uri()\<close> cuts one copy of the string into fields by writing terminators, so each
  field is what \<open>chop\<close> leaves of it.  Whether an allocation succeeds is a parameter.
\<close>

section \<open>Model\<close>

record uri =
  scheme :: "byte list option"
  opaque :: "byte list option"
  user :: "byte list option"
  password :: "byte list option"
  host :: "byte list option"
  port :: "byte list option"
  path :: "byte list option"
  query :: "byte list option"
  fragment :: "byte list option"

definition uri_get_field :: "uri \<Rightarrow> nat \<Rightarrow> byte list option" where
  "uri_get_field uri field =
     [scheme uri, opaque uri, user uri, password uri, host uri, port uri, path uri, query uri, fragment uri] ! field"

definition URI_SCHEME_BIT :: u32 where "URI_SCHEME_BIT = 1"
definition URI_ALL :: u32 where "URI_ALL = 0x1ff"
definition URI_ENCODED :: u32 where "URI_ENCODED = 0x1dc"

definition uri_is_absolute :: "uri \<Rightarrow> bool" where
  "uri_is_absolute uri = (scheme uri \<noteq> None)"

definition uri_has_path :: "uri \<Rightarrow> bool" where
  "uri_has_path uri = (case path uri of None \<Rightarrow> False | Some p \<Rightarrow> p \<noteq> [])"

definition uri_has_absolute_path :: "uri \<Rightarrow> bool" where
  "uri_has_absolute_path uri = (case path uri of None \<Rightarrow> False | Some p \<Rightarrow> char_at p = 0x2f)"

definition uri_has_relative_path :: "uri \<Rightarrow> bool" where
  "uri_has_relative_path uri = (case path uri of None \<Rightarrow> False | Some p \<Rightarrow> char_at p \<noteq> 0x2f)"

definition is_unreserved_uri_char :: "byte \<Rightarrow> nat \<Rightarrow> bool" where
  "is_unreserved_uri_char c field =
     (let ok = isupper c \<or> islower c \<or> isdigit c \<or> c = 0x2d \<or> c = 0x5f \<or> c = 0x2e \<or> c = 0x7e;
          ok = (if field = 7 then ok \<or> c = 0x3b \<or> c = 0x26 \<or> c = 0x3d else ok);
          ok = (if field = 6 then ok \<or> c = 0x2f else ok)
      in if field = 1 then True else ok)"

text \<open>The string written to a buffer that is large enough; its length is what \<open>uri_encode()\<close> returns for any
  buffer.  The formats are \<open>%c\<close> and \<open>%%%02X\<close>.\<close>

fun uri_encode :: "byte list \<Rightarrow> nat \<Rightarrow> byte list option" where
  "uri_encode [] field = Some []"
| "uri_encode (c # raw_string) field =
     (case (if is_unreserved_uri_char c field then vcprintf [0x25, 0x63] [Int32 (ucast c)]
            else vcprintf [0x25, 0x25, 0x25, 0x30, 0x32, 0x58] [Int32 (ucast c)]) of
        None \<Rightarrow> None
      | Some s \<Rightarrow> map_option (append s) (uri_encode raw_string field))"

text \<open>After \<open>%\<close>, \<open>strtoul()\<close> reads at most two characters; what it does not consume follows.\<close>

function decode_chars :: "byte list \<Rightarrow> byte list" where
  "decode_chars [] = []"
| "decode_chars (c # s) =
     (if c = 0x25
      then case strtoul (take 2 s) 16 of
             (v, hexbuf_end) \<Rightarrow> ucast v # decode_chars (drop (length (take 2 s) - length hexbuf_end) s)
      else c # decode_chars s)"
  by pat_completeness auto

termination decode_chars
  by (relation "measure length") auto

text \<open>The result is the contents of the buffer in front of the terminator, and the returned length.\<close>

definition uri_decode :: "byte list \<Rightarrow> nat \<Rightarrow> byte list \<times> nat" where
  "uri_decode encoded_string len =
     (let out = decode_chars encoded_string in (take (len - 1) out, length out))"

definition decode_field :: "byte list option \<Rightarrow> byte list option" where
  "decode_field field = map_option (\<lambda>s. c_string (fst (uri_decode s (length s + 1)))) field"

definition chop :: "byte \<Rightarrow> byte list \<Rightarrow> byte list \<times> byte list option" where
  "chop c s =
     (let a = takeWhile (\<lambda>x. x \<noteq> c) s in (a, if a = s then None else Some (drop (Suc (length a)) s)))"

definition no_uri :: uri where
  "no_uri = \<lparr>scheme = None, opaque = None, user = None, password = None, host = None, port = None,
     path = None, query = None, fragment = None\<rparr>"

definition split_authority :: "byte list \<Rightarrow> uri \<Rightarrow> uri" where
  "split_authority authority uri =
     (let (hostport, uri) =
            (case chop 0x40 authority of
               (a, Some h) \<Rightarrow> (let (usr, pw) = chop 0x3a a in (h, uri\<lparr>user := Some usr, password := pw\<rparr>))
             | (a, None) \<Rightarrow> (a, uri));
          (hst, prt) = chop 0x3a hostport
      in uri\<lparr>host := Some hst, port := prt\<rparr>)"

definition decode_fields :: "uri \<Rightarrow> uri" where
  "decode_fields uri =
     uri\<lparr>user := decode_field (user uri), password := decode_field (password uri), host := decode_field (host uri),
         path := decode_field (path uri), query := decode_field (query uri), fragment := decode_field (fragment uri)\<rparr>"

definition split_uri :: "byte list \<Rightarrow> uri" where
  "split_uri uri_string =
     (let (raw, frag) = chop 0x23 uri_string;
          uri = no_uri\<lparr>fragment := frag\<rparr>;
          (uri, pth) =
            (case chop 0x3a raw of
               (sch, Some rest) \<Rightarrow>
                 if length sch > 1
                 then if char_at rest = 0x2f then (uri\<lparr>scheme := Some sch\<rparr>, Some rest)
                      else (uri\<lparr>scheme := Some sch, opaque := Some rest\<rparr>, None)
                 else (uri, Some raw)
             | (_, None) \<Rightarrow> (uri, Some raw))
      in case pth of
           None \<Rightarrow> uri
         | Some pth \<Rightarrow>
             (let (pth, qry) = chop 0x3f pth;
                  uri = uri\<lparr>query := qry\<rparr>
              in if take 2 pth = [0x2f, 0x2f]
                 then let (authority, rest) = chop 0x2f (drop 2 pth)
                      in decode_fields (split_authority authority (uri\<lparr>path := map_option ((#) 0x2f) rest\<rparr>))
                 else uri\<lparr>path := Some pth\<rparr>))"

definition parse_uri :: "bool \<Rightarrow> byte list \<Rightarrow> uri option" where
  "parse_uri mem_ok uri_string = (if mem_ok then Some (split_uri uri_string) else None)"

definition uri_port :: "uri option \<Rightarrow> u32 \<Rightarrow> u32" where
  "uri_port uri default_port =
     (case uri of
        None \<Rightarrow> default_port
      | Some uri \<Rightarrow> (case port uri of None \<Rightarrow> default_port | Some p \<Rightarrow> fst (strtoul p 0)))"

definition separators :: "byte list" where
  "separators = [0, 0x3a, 0, 0x3a, 0x40, 0x3a, 0, 0x3f, 0x23]"

text \<open>One round of the loop of \<open>unparse_uri()\<close>; the state is the string so far and the mask of fields.\<close>

definition unparse_field :: "uri \<Rightarrow> nat \<Rightarrow> byte list \<times> u32 \<Rightarrow> (byte list \<times> u32) option" where
  "unparse_field uri i st =
     (case st of (buf, flds) \<Rightarrow>
        (case uri_get_field uri i of
           None \<Rightarrow> Some (buf, flds AND NOT (push_bit i 1))
         | Some field \<Rightarrow>
             if flds AND push_bit i 1 = 0 then Some (buf, flds)
             else
               let (buf, flds) =
                     (if flds AND URI_SCHEME_BIT \<noteq> 0 \<and> i > 1
                      then (buf @ [0x3a, 0x2f, 0x2f], flds AND NOT URI_SCHEME_BIT) else (buf, flds));
                   sep = separators ! i;
                   buf = (if sep \<noteq> 0 \<and> flds AND (push_bit i 1 - 1) \<noteq> 0 then buf @ [sep] else buf)
               in if URI_ENCODED AND push_bit i 1 \<noteq> 0
                  then map_option (\<lambda>s. (buf @ s, flds)) (uri_encode field i)
                  else Some (buf @ c_string field, flds)))"

fun unparse_loop :: "uri \<Rightarrow> nat list \<Rightarrow> byte list \<times> u32 \<Rightarrow> byte list option" where
  "unparse_loop uri [] st = Some (fst st)"
| "unparse_loop uri (i # is) st =
     (case unparse_field uri i st of None \<Rightarrow> None | Some st \<Rightarrow> unparse_loop uri is st)"

definition unparse_uri :: "uri option \<Rightarrow> u32 \<Rightarrow> byte list option" where
  "unparse_uri uri flds =
     (case uri of
        None \<Rightarrow> Some []
      | Some uri \<Rightarrow> unparse_loop uri [0, 1, 2, 3, 4, 5, 6, 7, 8] ([], flds))"

definition uri_dup :: "bool \<Rightarrow> uri \<Rightarrow> uri option" where
  "uri_dup mem_ok uri =
     (case unparse_uri (Some uri) URI_ALL of None \<Rightarrow> None | Some buf \<Rightarrow> parse_uri mem_ok buf)"

definition basename :: "byte list \<Rightarrow> byte list" where
  "basename pth = rev (takeWhile (\<lambda>c. c \<noteq> 0x2f) (rev pth))"

definition dirname :: "byte list \<Rightarrow> byte list" where
  "dirname pth =
     (case dropWhile (\<lambda>c. c \<noteq> 0x2f) (rev pth) of
        [] \<Rightarrow> [0x2e]
      | _ # front \<Rightarrow> if front = [] then [0x2f] else rev front)"

fun skip_dots :: "byte list \<Rightarrow> byte list \<Rightarrow> byte list \<times> byte list" where
  "skip_dots base [] = (base, [])"
| "skip_dots base (c # r) =
     (if c \<noteq> 0x2e then (base, c # r)
      else case r of
        [] \<Rightarrow> (base, [])
      | d # r' \<Rightarrow>
          if d = 0x2f then skip_dots base r'
          else if d = 0x2e then
            (case r' of
               [] \<Rightarrow> (dirname base, [])
             | e # r'' \<Rightarrow> if e = 0x2f then skip_dots (dirname base) r'' else (base, c # r))
          else (base, c # r))"

definition resolve_path :: "bool \<Rightarrow> byte list \<Rightarrow> byte list \<Rightarrow> byte list option" where
  "resolve_path mem_ok base_path relative_path =
     (if \<not> mem_ok then None
      else if char_at relative_path = 0x2f then Some relative_path
      else let (base_tmp, relative_path) = skip_dots (dirname base_path) relative_path
           in Some (base_tmp @ (if last base_tmp = 0x2f then [] else [0x2f]) @ relative_path))"

definition resolve_uri :: "bool \<Rightarrow> uri option \<Rightarrow> uri \<Rightarrow> uri option" where
  "resolve_uri mem_ok base_uri relative_uri =
     (case base_uri of
        None \<Rightarrow> Some relative_uri
      | Some base_uri \<Rightarrow>
          if uri_is_absolute relative_uri then Some relative_uri
          else
            let tmp_uri =
                  (case path relative_uri of
                     Some p \<Rightarrow>
                       base_uri\<lparr>path := resolve_path mem_ok (case path base_uri of Some b \<Rightarrow> b | None \<Rightarrow> [0x2f]) p,
                         query := query relative_uri, fragment := fragment relative_uri\<rparr>
                   | None \<Rightarrow>
                       if query relative_uri \<noteq> None
                       then base_uri\<lparr>query := query relative_uri, fragment := fragment relative_uri\<rparr>
                       else if fragment relative_uri \<noteq> None then base_uri\<lparr>fragment := fragment relative_uri\<rparr>
                       else base_uri)
            in uri_dup mem_ok tmp_uri)"

definition churi :: "bool \<Rightarrow> uri option \<Rightarrow> uri option \<Rightarrow> uri option" where
  "churi mem_ok cwuri uri = (case uri of None \<Rightarrow> None | Some uri \<Rightarrow> resolve_uri mem_ok cwuri uri)"

section \<open>Lemmas\<close>

lemma chop_append [simp]: "c \<notin> set a \<Longrightarrow> chop c (a @ c # b) = (a, Some b)"
  by (simp add: chop_def takeWhile_append)

lemma chop_absent [simp]: "c \<notin> set a \<Longrightarrow> chop c a = (a, None)"
proof -
  assume "c \<notin> set a"
  then have "takeWhile (\<lambda>x. x \<noteq> c) a = a" by (auto simp: takeWhile_eq_all_conv)
  then show ?thesis by (simp add: chop_def)
qed

definition opt_str :: "byte list \<Rightarrow> byte list option \<Rightarrow> byte list" where
  "opt_str pre f = (case f of None \<Rightarrow> [] | Some s \<Rightarrow> pre @ s)"

lemma opt_str_simps [simp]: "opt_str pre None = []" "opt_str pre (Some s) = pre @ s"
  by (simp_all add: opt_str_def)

lemma chop_opt: "c \<notin> set a \<Longrightarrow> chop c (a @ opt_str [c] f) = (a, f)"
  by (cases f) auto

lemma chop_eq: "chop c s = (a, f) \<Longrightarrow> s = a @ opt_str [c] f \<and> c \<notin> set a"
proof -
  assume h: "chop c s = (a, f)"
  show ?thesis
  proof (cases "c \<in> set s")
    case True
    then obtain x y where "s = x @ c # y" "c \<notin> set x" by (meson split_list_first)
    then show ?thesis using h by auto
  qed (use h in auto)
qed

text \<open>A percent-encoded character is read back.\<close>

definition enc_char :: "nat \<Rightarrow> byte \<Rightarrow> byte list" where
  "enc_char field c = (if is_unreserved_uri_char c field then [c]
     else [0x25, hex_char (drop_bit 4 (ucast c)), hex_char (ucast c AND 0xf)])"

lemma uri_encode_eq: "uri_encode s field = Some (concat (map (enc_char field) s))"
  by (induction s) (auto simp: enc_char_def printf_char printf_hex_byte)

lemma hex_digits_upper: "strtoul [hex_char (drop_bit 4 (ucast (b :: byte))), hex_char (ucast b AND 0xf)] 16 = (ucast b, [])"
proof -
  have "ZPAD AND ZPAD \<noteq> 0" "ZPAD AND ALT_FORM = 0" "ZPAD AND LCASE = 0"
    by (simp_all add: ZPAD_def ALT_FORM_def LCASE_def)
  moreover have "ucast (ucast b :: 64 word) = (ucast b :: u32)"
    by (intro bit_word_eqI) (auto simp: bit_simps dest: bit_imp_le_length)
  ultimately show ?thesis using hex_byte [of ZPAD b] format_hex_16 [of ZPAD "ucast b" 2] by simp
qed

lemma percent_reserved: "field \<noteq> 1 \<Longrightarrow> \<not> is_unreserved_uri_char 0x25 field"
  by (simp add: is_unreserved_uri_char_def isupper_def islower_def isdigit_def)

lemma decode_encode: "field \<noteq> 1 \<Longrightarrow> decode_chars (concat (map (enc_char field) s)) = s"
proof (induction s)
  case (Cons c s)
  have "ucast (ucast c :: u32) = c" by (intro bit_word_eqI) (auto simp: bit_simps dest: bit_imp_le_length)
  then show ?case using Cons percent_reserved [of field] by (auto simp: enc_char_def hex_digits_upper)
qed simp

lemma decode_length: "length (decode_chars s) \<le> length s"
proof (induction s rule: decode_chars.induct)
  case (2 c s)
  show ?case
  proof (cases "c = 0x25")
    case True
    obtain v e where v: "strtoul (take 2 s) 16 = (v, e)" by fastforce
    have "length (decode_chars (drop (length (take 2 s) - length e) s)) \<le> length s"
      using 2(1) [OF True v [symmetric]] by (auto intro: order_trans)
    then show ?thesis using True v by simp
  qed (use 2 in simp)
qed simp

text \<open>The characters that may separate fields never occur in an encoded field, except the slash of a path.\<close>

lemma hex_char_not:
  assumes "d < 16" and "c \<in> {0x23, 0x2f, 0x3a, 0x3f, 0x40}"
  shows "hex_char d \<noteq> c"
proof -
  have "list_all (\<lambda>i. hex_char (of_nat i) \<notin> {0x23, 0x2f, 0x3a, 0x3f, 0x40}) [0 ..< 16]"
    unfolding upt16 by (simp add: hex_char_def)
  moreover have "unat d \<in> set [0 ..< 16]" using assms(1) by (simp add: word_less_nat_alt)
  ultimately have "hex_char (of_nat (unat d)) \<notin> {0x23, 0x2f, 0x3a, 0x3f, 0x40}" unfolding list_all_iff by (rule bspec)
  then show ?thesis using assms(2) by auto
qed

lemma enc_char_plain:
  assumes "c \<in> {0x23, 0x2f, 0x3a, 0x3f, 0x40}" and "field \<noteq> 1" and "field = 6 \<longrightarrow> c \<noteq> 0x2f"
  shows "c \<notin> set (enc_char field x)"
proof -
  have lo: "(ucast x AND 0xf :: 64 word) < 16" by (simp add: word_less_nat_alt unat_nibble)
  have hi: "drop_bit 4 (ucast x :: 64 word) < 16"
  proof -
    have "unat (ucast x :: 64 word) < 256"
      using unsigned_less [where ?'a = nat, of x] by (simp add: unsigned_ucast_eq take_bit_eq_mod)
    then show ?thesis by (simp add: word_less_nat_alt drop_bit_eq_div unat_div)
  qed
  note hex_char_not [OF lo assms(1)] hex_char_not [OF hi assms(1)]
  moreover have "c \<noteq> 0x25" using assms(1) by auto
  moreover have "\<not> is_unreserved_uri_char c field"
    using assms by (auto simp: is_unreserved_uri_char_def isupper_def islower_def isdigit_def)
  ultimately show ?thesis by (auto simp: enc_char_def)
qed

definition enc :: "nat \<Rightarrow> byte list \<Rightarrow> byte list" where
  "enc field s = concat (map (enc_char field) s)"

lemma enc_plain:
  "c \<in> {0x23, 0x2f, 0x3a, 0x3f, 0x40} \<Longrightarrow> field \<noteq> 1 \<Longrightarrow> field = 6 \<longrightarrow> c \<noteq> 0x2f \<Longrightarrow> c \<notin> set (enc field s)"
  using enc_char_plain by (auto simp: enc_def)

lemma enc_slash: "enc 6 (0x2f # s) = 0x2f # enc 6 s"
  by (simp add: enc_def enc_char_def is_unreserved_uri_char_def Let_def)

lemma decode_enc:
  assumes "field \<noteq> 1" and "0 \<notin> set s"
  shows "c_string (fst (uri_decode (enc field s) (length (enc field s) + 1))) = s"
proof -
  have "c_string s = s" using assms(2) by (auto simp: c_string_def takeWhile_eq_all_conv)
  then show ?thesis
    using decode_encode [OF assms(1), of s] decode_length [of "enc field s"] by (simp add: uri_decode_def enc_def Let_def)
qed

section \<open>Unparsing and parsing again\<close>

text \<open>What the parser produces for a string with a scheme and an authority.\<close>

definition no_nul :: "byte list option \<Rightarrow> bool" where
  "no_nul f = (case f of None \<Rightarrow> True | Some s \<Rightarrow> 0 \<notin> set s)"

lemma decode_field_enc: "field \<noteq> 1 \<Longrightarrow> no_nul f \<Longrightarrow> decode_field (map_option (enc field) f) = f"
  by (cases f) (simp_all add: decode_field_def no_nul_def decode_enc [simplified])

definition uri_wf :: "uri \<Rightarrow> bool" where
  "uri_wf u \<longleftrightarrow>
     (\<exists>sch. scheme u = Some sch \<and> length sch > 1 \<and> 0x3a \<notin> set sch \<and> 0x23 \<notin> set sch \<and> 0 \<notin> set sch) \<and>
     opaque u = None \<and> host u \<noteq> None \<and> (user u = None \<longrightarrow> password u = None) \<and>
     (\<forall>p. path u = Some p \<longrightarrow> (\<exists>q. p = 0x2f # q)) \<and>
     (\<forall>p. port u = Some p \<longrightarrow> set p \<inter> {0, 0x2f, 0x3f, 0x23} = {} \<and> (user u = None \<longrightarrow> 0x40 \<notin> set p)) \<and>
     no_nul (user u) \<and> no_nul (password u) \<and> no_nul (host u) \<and> no_nul (path u) \<and> no_nul (query u) \<and> no_nul (fragment u)"

definition userinfo :: "uri \<Rightarrow> byte list option" where
  "userinfo u = map_option (\<lambda>usr. enc 2 usr @ opt_str [0x3a] (map_option (enc 3) (password u))) (user u)"

definition hostport :: "uri \<Rightarrow> byte list" where
  "hostport u = enc 4 (the (host u)) @ opt_str [0x3a] (port u)"

definition authority :: "uri \<Rightarrow> byte list" where
  "authority u = (case userinfo u of None \<Rightarrow> hostport u | Some i \<Rightarrow> i @ 0x40 # hostport u)"

definition uri_text :: "uri \<Rightarrow> byte list" where
  "uri_text u = (the (scheme u) @ 0x3a # ([0x2f, 0x2f] @ authority u @ opt_str [] (map_option (enc 6) (path u))) @
     opt_str [0x3f] (map_option (enc 7) (query u))) @ opt_str [0x23] (map_option (enc 8) (fragment u))"

lemma c_string_id: "0 \<notin> set s \<Longrightarrow> c_string s = s"
  by (auto simp: c_string_def takeWhile_eq_all_conv)

lemma unparse_wf:
  assumes "uri_wf u"
  shows "unparse_uri (Some u) URI_ALL = Some (uri_text u)"
proof -
  obtain sch h where s: "scheme u = Some sch" "0 \<notin> set sch" "opaque u = None" "host u = Some h"
    using assms by (auto simp: uri_wf_def)
  have pw: "password u = None" if "user u = None" using assms that by (simp add: uri_wf_def)
  have prt: "c_string p = p" if "port u = Some p" for p
    using assms that by (intro c_string_id) (auto simp: uri_wf_def)
  show ?thesis
    using s pw prt
    by (cases "user u"; cases "password u"; cases "port u"; cases "path u"; cases "query u"; cases "fragment u")
      (simp_all add: unparse_uri_def unparse_field_def uri_get_field_def URI_ALL_def URI_ENCODED_def URI_SCHEME_BIT_def
        separators_def uri_encode_eq c_string_id uri_text_def authority_def userinfo_def hostport_def enc_def)
qed

lemma split_uri_text:
  assumes "uri_wf u"
  shows "split_uri (uri_text u) = u"
proof -
  obtain sch h where s: "scheme u = Some sch" "length sch > 1" "0x3a \<notin> set sch" "0x23 \<notin> set sch" "opaque u = None" "host u = Some h"
    using assms by (auto simp: uri_wf_def)
  have prt: "0x23 \<notin> set (opt_str [0x3a] (port u))" "0x3f \<notin> set (opt_str [0x3a] (port u))" "0x2f \<notin> set (opt_str [0x3a] (port u))"
    using assms by (cases "port u"; auto simp: uri_wf_def)+
  have hp: "0x23 \<notin> set (hostport u)" "0x3f \<notin> set (hostport u)" "0x2f \<notin> set (hostport u)"
    using prt by (auto simp: hostport_def enc_plain)
  have ui: "c \<notin> set i" if "userinfo u = Some i" "c \<in> {0x23, 0x2f, 0x3f, 0x40}" for i c
    using that by (cases "password u") (auto simp: userinfo_def enc_plain)
  have au: "0x23 \<notin> set (authority u)" "0x3f \<notin> set (authority u)" "0x2f \<notin> set (authority u)"
    using hp ui by (cases "userinfo u"; auto simp: authority_def)+
  obtain pth where pth: "opt_str [] (map_option (enc 6) (path u)) = opt_str [0x2f] pth"
    "map_option ((#) 0x2f) pth = map_option (enc 6) (path u)"
  proof (cases "path u")
    case None
    then show ?thesis using that [of None] by simp
  next
    case (Some p)
    then obtain q where "p = 0x2f # q" using assms by (auto simp: uri_wf_def)
    then show ?thesis using that [of "Some (enc 6 q)"] Some by (simp add: enc_slash)
  qed
  have q: "0x23 \<notin> set (opt_str [] (map_option (enc 6) (path u)))" "0x3f \<notin> set (opt_str [] (map_option (enc 6) (path u)))"
    "0x23 \<notin> set (opt_str [0x3f] (map_option (enc 7) (query u)))"
    by (cases "path u"; cases "query u"; simp add: enc_plain)+
  have frag: "chop 0x23 (uri_text u) = (sch @ 0x3a # ([0x2f, 0x2f] @ authority u @ opt_str [] (map_option (enc 6) (path u))) @
      opt_str [0x3f] (map_option (enc 7) (query u)), map_option (enc 8) (fragment u))"
    using s q au unfolding uri_text_def by (intro chop_opt [THEN trans]) auto
  have qry: "chop 0x3f (0x2f # 0x2f # authority u @ opt_str [] (map_option (enc 6) (path u)) @ opt_str [0x3f] (map_option (enc 7) (query u))) =
      (0x2f # 0x2f # authority u @ opt_str [] (map_option (enc 6) (path u)), map_option (enc 7) (query u))"
    using chop_opt [where c = "0x3f" and a = "0x2f # 0x2f # authority u @ opt_str [] (map_option (enc 6) (path u))"] q au by simp
  have slash: "chop 0x2f (authority u @ opt_str [] (map_option (enc 6) (path u))) = (authority u, pth)"
    using chop_opt [where c = "0x2f" and a = "authority u" and f = pth] au by (simp add: pth)
  have auth: "split_authority (authority u) w = w\<lparr>user := map_option (enc 2) (user u), password := map_option (enc 3) (password u),
      host := Some (enc 4 h), port := port u\<rparr>" if "user w = None" "password w = None" for w
  proof -
    have "chop 0x3a (hostport u) = (enc 4 h, port u)"
      using s by (simp add: hostport_def chop_opt enc_plain)
    moreover have "chop 0x40 (authority u) = (hostport u, None)" if "user u = None"
      using assms that by (cases "port u") (auto simp: authority_def userinfo_def hostport_def uri_wf_def enc_plain intro!: chop_absent)
    moreover have "password u = None" if "user u = None" using assms that by (simp add: uri_wf_def)
    moreover have "chop 0x40 (authority u) = (i, Some (hostport u))" if "userinfo u = Some i" for i
      using ui [OF that, of "0x40"] that by (simp add: authority_def)
    moreover have "chop 0x3a i = (enc 2 usr, map_option (enc 3) (password u))" if "userinfo u = Some i" "user u = Some usr" for i usr
      using that by (auto simp: userinfo_def chop_opt enc_plain)
    ultimately show ?thesis using that
      by (cases "user u") (auto simp: split_authority_def userinfo_def)
  qed
  have sl: "char_at (0x2f # x) = 0x2f" "take 2 (0x2f # 0x2f # x) = [0x2f, 0x2f]" "drop 2 (0x2f # 0x2f # x) = x" for x
    by (simp_all add: char_at_def)
  have dec: "decode_field (map_option (enc 2) (user u)) = user u" "decode_field (map_option (enc 3) (password u)) = password u"
    "decode_field (Some (enc 4 h)) = host u" "decode_field (map_option (enc 6) (path u)) = path u"
    "decode_field (map_option (enc 7) (query u)) = query u" "decode_field (map_option (enc 8) (fragment u)) = fragment u"
    using assms s(6) decode_field_enc [of 4 "host u"] by (simp_all add: uri_wf_def decode_field_enc)
  show ?thesis
    using s by (simp add: split_uri_def frag qry slash sl auth decode_fields_def dec pth(2) no_uri_def)
qed

lemma c_string_no_nul: "0 \<notin> set (c_string s)"
  by (auto simp: c_string_def dest: set_takeWhileD)

lemma no_nul_decode [simp]: "no_nul (decode_field f)"
  by (cases f) (simp_all add: no_nul_def decode_field_def c_string_no_nul)

lemma decode_field_None [simp]: "decode_field f = None \<longleftrightarrow> f = None" "decode_field None = None"
  by (simp_all add: decode_field_def)

lemma decode_field_slash: "decode_field (Some (0x2f # x)) = Some p \<Longrightarrow> \<exists>q. p = 0x2f # q"
  by (auto simp: decode_field_def uri_decode_def c_string_def Let_def)

lemma split_authority_frame [simp]:
  "scheme (split_authority a u) = scheme u" "opaque (split_authority a u) = opaque u" "path (split_authority a u) = path u"
  "query (split_authority a u) = query u" "fragment (split_authority a u) = fragment u"
  by (simp_all add: split_authority_def split: prod.splits option.splits)

lemma decode_fields_frame [simp]: "scheme (decode_fields u) = scheme u" "opaque (decode_fields u) = opaque u"
  "port (decode_fields u) = port u" "(user (decode_fields u) = None) = (user u = None)"
  "(password (decode_fields u) = None) = (password u = None)" "(host (decode_fields u) = None) = (host u = None)"
  by (simp_all add: decode_fields_def)

lemma split_authority_fields:
  assumes "split_authority auth u = w" and "user u = None" and "password u = None"
  shows "host w \<noteq> None"
    "user w = None \<longrightarrow> password w = None" "port w = Some p \<Longrightarrow> set p \<subseteq> set auth"
    "port w = Some p \<Longrightarrow> user w = None \<Longrightarrow> 0x40 \<notin> set p"
proof -
  obtain a f where a: "chop 0x40 auth = (a, f)" by fastforce
  note A = chop_eq [OF a]
  obtain x y where x: "chop 0x3a a = (x, y)" by fastforce
  obtain h q where h: "chop 0x3a (case f of None \<Rightarrow> a | Some h \<Rightarrow> h) = (h, q)" by fastforce
  note H = chop_eq [OF h]
  have w: "w = (case f of None \<Rightarrow> u | Some _ \<Rightarrow> u\<lparr>user := Some x, password := y\<rparr>)\<lparr>host := Some h, port := q\<rparr>"
    using a x h assms(1) by (cases f) (auto simp: split_authority_def)
  show "host w \<noteq> None" "user w = None \<longrightarrow> password w = None"
    using w assms(2,3) by (cases f; simp)+
  show "port w = Some p \<Longrightarrow> set p \<subseteq> set auth"
    using w A H by (cases f) auto
  show "port w = Some p \<Longrightarrow> user w = None \<Longrightarrow> 0x40 \<notin> set p"
    using w A H assms(2) by (cases f) auto
qed

lemma split_uri_wf:
  assumes "0 \<notin> set s" and "scheme (split_uri s) \<noteq> None" and "host (split_uri s) \<noteq> None"
  shows "uri_wf (split_uri s)"
proof -
  obtain raw frag where r: "chop 0x23 s = (raw, frag)" by fastforce
  note R = chop_eq [OF r]
  obtain sch rest where c: "chop 0x3a raw = (sch, rest)" by fastforce
  note C = chop_eq [OF c]
  obtain rst where rst: "rest = Some rst" "length sch > 1" "char_at rst = 0x2f"
    using assms(2,3) r c by (cases rest) (auto simp: split_uri_def no_uri_def Let_def split: if_splits prod.splits)
  obtain pth qry where q: "chop 0x3f rst = (pth, qry)" by fastforce
  note Q = chop_eq [OF q]
  have two: "take 2 pth = [0x2f, 0x2f]"
    using assms(3) r c rst q by (auto simp: split_uri_def no_uri_def Let_def split: if_splits)
  obtain auth tail where t: "chop 0x2f (drop 2 pth) = (auth, tail)" by fastforce
  note T = chop_eq [OF t]
  define v where "v = no_uri\<lparr>fragment := frag, scheme := Some sch, query := qry, path := map_option ((#) 0x2f) tail\<rparr>"
  define w where "w = split_authority auth v"
  have u: "split_uri s = decode_fields w"
    using r c rst q two t by (simp add: split_uri_def w_def v_def)
  have v: "user v = None" "password v = None" by (simp_all add: v_def no_uri_def)
  note W = split_authority_fields [OF w_def [symmetric] v]
  have au: "set auth \<inter> {0, 0x2f, 0x3f, 0x23} = {}"
  proof -
    have "set auth \<subseteq> set pth" using T set_drop_subset [of 2 pth] by (metis Un_subset_iff set_append)
    moreover have "set pth \<subseteq> set raw" using Q C rst by auto
    ultimately show ?thesis using T Q R assms(1) by auto
  qed
  have f: "scheme w = Some sch" "opaque w = None" "path w = map_option ((#) 0x2f) tail"
    by (simp_all add: w_def v_def no_uri_def)
  show ?thesis
  proof -
    have "\<exists>q. p = 0x2f # q" if "path (decode_fields w) = Some p" for p
      using that f(3) decode_field_slash by (cases tail) (auto simp: decode_fields_def)
    moreover have "no_nul (user (decode_fields w))" "no_nul (password (decode_fields w))" "no_nul (host (decode_fields w))"
      "no_nul (path (decode_fields w))" "no_nul (query (decode_fields w))" "no_nul (fragment (decode_fields w))"
      by (simp_all add: decode_fields_def)
    moreover have "0x3a \<notin> set sch" "0x23 \<notin> set sch" "0 \<notin> set sch" using C R assms(1) by auto
    moreover have "set p \<inter> {0, 0x2f, 0x3f, 0x23} = {}" if "port w = Some p" for p using W(3) [OF that] au by blast
    ultimately show ?thesis unfolding u uri_wf_def using W f rst(2) by auto
  qed
qed

section \<open>Resolving relative paths\<close>

definition path_of :: "byte list list \<Rightarrow> byte list" where
  "path_of segs = concat (map ((#) 0x2f) segs)"

definition plain_segs :: "byte list list \<Rightarrow> bool" where
  "plain_segs segs = list_all (\<lambda>s. s \<noteq> [] \<and> 0x2f \<notin> set s) segs"

text \<open>\<open>k\<close> times "../".\<close>

definition ups :: "nat \<Rightarrow> byte list" where
  "ups k = concat (replicate k [0x2e, 0x2e, 0x2f])"

lemma dirname_snoc:
  assumes "0x2f \<notin> set f"
  shows "dirname (path_of (segs @ [f])) = (if path_of segs = [] then [0x2f] else path_of segs)"
proof -
  have "dropWhile (\<lambda>c. c \<noteq> 0x2f) (rev (path_of (segs @ [f]))) = 0x2f # rev (path_of segs)"
    using assms by (simp add: path_of_def dropWhile_append3 dropWhile_append) 
  then show ?thesis by (simp add: dirname_def)
qed

definition base_dir :: "byte list list \<Rightarrow> byte list" where
  "base_dir segs = (if segs = [] then [0x2f] else path_of segs)"

lemma path_of_Nil [simp]: "path_of segs = [] \<longleftrightarrow> segs = []"
  by (cases segs) (auto simp: path_of_def)

lemma dirname_base_dir:
  assumes "plain_segs segs"
  shows "dirname (base_dir segs) = base_dir (butlast segs)"
proof (cases segs rule: rev_cases)
  case Nil
  then show ?thesis by (simp add: base_dir_def dirname_def)
next
  case (snoc ss f)
  then show ?thesis using assms dirname_snoc [of f ss] by (simp add: base_dir_def plain_segs_def)
qed

lemma skip_ups:
  assumes "plain_segs segs" and "char_at name \<noteq> 0x2e"
  shows "skip_dots (base_dir segs) (ups k @ name) = (base_dir (take (length segs - k) segs), name)"
  using assms(1)
proof (induction k arbitrary: segs)
  case 0
  then show ?case using assms(2) by (cases name) (simp_all add: ups_def char_at_def)
next
  case (Suc k)
  have "ups (Suc k) @ name = 0x2e # 0x2e # 0x2f # (ups k @ name)" by (simp add: ups_def)
  moreover have "plain_segs (butlast segs)" using Suc.prems by (auto simp: plain_segs_def list_all_iff dest: in_set_butlastD)
  moreover have "take (length segs - 1 - k) (butlast segs) = take (length segs - Suc k) segs"
    by (cases segs rule: rev_cases) simp_all
  ultimately show ?case using Suc.IH [of "butlast segs"] dirname_base_dir [OF Suc.prems] by simp
qed

lemma resolve_path_segs:
  assumes "plain_segs segs" and "0x2f \<notin> set f" and "char_at name \<noteq> 0x2e" and "char_at name \<noteq> 0x2f"
  shows "resolve_path True (path_of (segs @ [f])) (ups k @ name) = Some (path_of (take (length segs - k) segs @ [name]))"
proof -
  let ?b = "base_dir (take (length segs - k) segs)"
  have "dirname (path_of (segs @ [f])) = base_dir segs"
    using assms(2) by (simp add: dirname_snoc base_dir_def)
  moreover have "char_at (ups k @ name) \<noteq> 0x2f" using assms(4) by (cases k) (simp_all add: ups_def char_at_def)
  moreover have "?b @ (if last ?b = 0x2f then [] else [0x2f]) @ name = path_of (take (length segs - k) segs @ [name])"
  proof (cases "take (length segs - k) segs" rule: rev_cases)
    case Nil
    then show ?thesis by (simp add: base_dir_def path_of_def)
  next
    case (snoc ss t)
    then have "t \<in> set segs" by (metis in_set_conv_decomp in_set_takeD)
    then have "t \<noteq> []" "0x2f \<notin> set t" using assms(1) by (auto simp: plain_segs_def list_all_iff)
    then have "last ?b \<noteq> 0x2f" using snoc by (auto simp: base_dir_def path_of_def) (metis last_in_set)
    then show ?thesis using snoc by (simp add: base_dir_def path_of_def)
  qed
  ultimately show ?thesis
    using skip_ups [of segs name k] assms by (simp add: resolve_path_def)
qed

section \<open>Properties\<close>

text \<open>C17: parsing and unparsing of URIs are inverse.  Whenever a string is parsed to a URI with a scheme and a host,
  unparsing this URI succeeds and parsing the result gives the same URI again, so that uri_dup() makes an exact
  copy: characters that separate fields are escaped wherever they occur inside a field.\<close>

theorem uri_dup_exact:
  assumes "0 \<notin> set s" and "scheme (split_uri s) \<noteq> None" and "host (split_uri s) \<noteq> None"
  shows "\<exists>t. unparse_uri (Some (split_uri s)) URI_ALL = Some t \<and> split_uri t = split_uri s \<and>
    uri_dup True (split_uri s) = Some (split_uri s)"
  using unparse_wf [OF split_uri_wf [OF assms]] split_uri_text [OF split_uri_wf [OF assms]]
  by (simp add: uri_dup_def parse_uri_def)

text \<open>The string is "ftp://a%40b:c@h:8/p%20q?x#y".\<close>

theorem uri_dup_exact_witness:
  "\<exists>t. unparse_uri (Some (split_uri [0x66, 0x74, 0x70, 0x3a, 0x2f, 0x2f, 0x61, 0x25, 0x34, 0x30, 0x62, 0x3a, 0x63, 0x40, 0x68,
       0x3a, 0x38, 0x2f, 0x70, 0x25, 0x32, 0x30, 0x71, 0x3f, 0x78, 0x23, 0x79])) URI_ALL = Some t \<and>
     user (split_uri t) = Some [0x61, 0x40, 0x62] \<and> path (split_uri t) = Some [0x2f, 0x70, 0x20, 0x71]"
proof -
  define s :: "byte list" where "s = [0x66, 0x74, 0x70, 0x3a, 0x2f, 0x2f, 0x61, 0x25, 0x34, 0x30, 0x62, 0x3a, 0x63, 0x40, 0x68,
       0x3a, 0x38, 0x2f, 0x70, 0x25, 0x32, 0x30, 0x71, 0x3f, 0x78, 0x23, 0x79]"
  have "0 \<notin> set s" "scheme (split_uri s) \<noteq> None" "host (split_uri s) \<noteq> None"
    "user (split_uri s) = Some [0x61, 0x40, 0x62]" "path (split_uri s) = Some [0x2f, 0x70, 0x20, 0x71]"
    unfolding s_def by code_simp+
  then show ?thesis using uri_dup_exact [of s] unfolding s_def [symmetric] by auto
qed

text \<open>C33: resolving a relative URI against a base URI with a host.  A relative path of \<open>k\<close> times "../" and a name, applied
  to a base path of directories and a file name, names the file in the directory that remains when the last \<open>k\<close>
  directories are dropped, never going above the root; scheme, user, password, host and port are those of the
  base, query and fragment those of the relative URI.\<close>

theorem resolve_uri_reference:
  assumes "uri_wf base" and "path base = Some (path_of (segs @ [f]))" and "plain_segs segs" and "0x2f \<notin> set f"
    and "scheme rel = None" and "path rel = Some (ups k @ name)" and "char_at name \<noteq> 0x2e" and "char_at name \<noteq> 0x2f"
    and "0 \<notin> set name" and "no_nul (query rel)" and "no_nul (fragment rel)"
  shows "resolve_uri True (Some base) rel =
    Some (base\<lparr>path := Some (path_of (take (length segs - k) segs @ [name])), query := query rel, fragment := fragment rel\<rparr>)"
proof -
  let ?segs = "take (length segs - k) segs @ [name]"
  let ?u = "base\<lparr>path := Some (path_of ?segs), query := query rel, fragment := fragment rel\<rparr>"
  have "0 \<notin> set (path_of segs)" using assms(1,2) by (auto simp: uri_wf_def no_nul_def path_of_def)
  then have "0 \<notin> set (path_of ?segs)" using assms(9) by (auto simp: path_of_def dest: in_set_takeD)
  moreover have "\<exists>q. path_of ?segs = 0x2f # q" by (cases "take (length segs - k) segs") (auto simp: path_of_def)
  ultimately have "uri_wf ?u" using assms(1,10,11) by (auto simp: uri_wf_def no_nul_def)
  then have "uri_dup True ?u = Some ?u" by (simp add: uri_dup_def parse_uri_def unparse_wf split_uri_text)
  moreover have "resolve_path True (path_of (segs @ [f])) (ups k @ name) = Some (path_of ?segs)"
    using assms by (intro resolve_path_segs)
  ultimately show ?thesis using assms(2,5,6) by (simp add: resolve_uri_def uri_is_absolute_def)
qed

text \<open>"../c" against "tftp://h/a/b" gives "tftp://h/c".\<close>

theorem resolve_uri_reference_witness:
  "resolve_uri True (Some (split_uri [0x74, 0x66, 0x74, 0x70, 0x3a, 0x2f, 0x2f, 0x68, 0x2f, 0x61, 0x2f, 0x62])) (split_uri [0x2e, 0x2e, 0x2f, 0x63]) =
   Some (split_uri [0x74, 0x66, 0x74, 0x70, 0x3a, 0x2f, 0x2f, 0x68, 0x2f, 0x63])"
proof -
  define b where "b = split_uri [0x74, 0x66, 0x74, 0x70, 0x3a, 0x2f, 0x2f, 0x68, 0x2f, 0x61, 0x2f, 0x62]"
  define r where "r = split_uri [0x2e, 0x2e, 0x2f, 0x63]"
  have b: "b = no_uri\<lparr>scheme := Some [0x74, 0x66, 0x74, 0x70], host := Some [0x68], path := Some [0x2f, 0x61, 0x2f, 0x62]\<rparr>"
    unfolding b_def by code_simp
  have r: "r = no_uri\<lparr>path := Some [0x2e, 0x2e, 0x2f, 0x63]\<rparr>" unfolding r_def by code_simp
  have "uri_wf b" unfolding b_def by (rule split_uri_wf) (simp_all flip: b_def, simp_all add: b)
  moreover have "path b = Some (path_of ([[0x61]] @ [[0x62]]))" by (simp add: b path_of_def)
  moreover have "path r = Some (ups 1 @ [0x63])" by (simp add: r ups_def)
  ultimately have "resolve_uri True (Some b) r = Some (b\<lparr>path := Some (path_of (take (length [[0x61 :: byte]] - 1) [[0x61]] @ [[0x63]])),
      query := query r, fragment := fragment r\<rparr>)"
    by (intro resolve_uri_reference [where f = "[0x62]" and name = "[0x63]"]) (simp_all add: plain_segs_def r no_uri_def char_at_def no_nul_def)
  moreover have "split_uri [0x74, 0x66, 0x74, 0x70, 0x3a, 0x2f, 0x2f, 0x68, 0x2f, 0x63] =
      no_uri\<lparr>scheme := Some [0x74, 0x66, 0x74, 0x70], host := Some [0x68], path := Some [0x2f, 0x63]\<rparr>" by code_simp
  ultimately show ?thesis unfolding b_def [symmetric] r_def [symmetric] by (simp add: b r path_of_def no_uri_def)
qed

text \<open>A net path without a scheme, "//h/x", loses its host in uri_dup(), and the escapes of a relative path are not
  decoded: "%41" stays as it is, while in "ab://h/%41" it is decoded to "A".\<close>

lemma uri_dup_drops_host:
  "host (split_uri [0x2f, 0x2f, 0x68, 0x2f, 0x78]) = Some [0x68] \<and>
   map_option host (uri_dup True (split_uri [0x2f, 0x2f, 0x68, 0x2f, 0x78])) = Some None"
  by code_simp

lemma relative_not_decoded:
  "path (split_uri [0x25, 0x34, 0x31]) = Some [0x25, 0x34, 0x31] \<and>
   path (split_uri [0x61, 0x62, 0x3a, 0x2f, 0x2f, 0x68, 0x2f, 0x25, 0x34, 0x31]) = Some [0x2f, 0x41]"
  by code_simp

end
