(* ===== verification/Bittorrent.thy ===== *)
theory Bittorrent
  imports Bitmap Byteorder Uri
begin

text \<open>
  The BitTorrent client (\<open>src/src/net/tcp/bittorrent.c\<close>, \<open>src/src/include/ipxe/bittorrent.h\<close>).  The record
  \<open>bt_request\<close> holds the peers in the order of the list \<open>bt->peers\<close>; what is handed to a peer's socket is
  appended to \<open>sent\<close>; the results of the deliveries are ignored by the code.  I/O buffers are their contents.
  The windows of the sockets, the results of opening sockets, for each kind of allocation whether it succeeds
  during the call, and the bytes of memory the code sends or reads without having written them are the record
  \<open>bt_env\<close>.  A handler that reads or writes beyond the data of a buffer, beyond a bitmap or through a NULL
  pointer has the outcome \<open>Undefined\<close>.
\<close>

section \<open>Constants\<close>

definition BT_MAXRETRIES :: int where "BT_MAXRETRIES = 5"
definition BT_NUMOFNODES :: int where "BT_NUMOFNODES = 3"
definition BT_MAXNUMOFPEERS :: nat where "BT_MAXNUMOFPEERS = 1"
definition BT_PIECE_SIZE :: nat where "BT_PIECE_SIZE = 1024"
definition BT_NUMOFPIECES :: u32 where "BT_NUMOFPIECES = 1024 * 100"

text \<open>Space for data in a buffer of \<open>alloc_iob ( BT_PIECE_SIZE + 9 )\<close>, which rounds up to a multiple of four.\<close>

definition RX_CAPACITY :: nat where "RX_CAPACITY = 1036"

definition BT_PREFIXLEN :: nat where "BT_PREFIXLEN = 4"
definition BT_HANDSHAKELEN :: nat where "BT_HANDSHAKELEN = 1 + 19 + 8 + 20 + 20"
definition BT_INTERESTED :: byte where "BT_INTERESTED = 2"
definition BT_HAVE :: byte where "BT_HAVE = 4"
definition BT_REQUEST :: byte where "BT_REQUEST = 6"
definition BT_PIECE :: byte where "BT_PIECE = 7"

datatype bt_peer_state =
    BT_PEER_CREATED
  | BT_PEER_HANDSHAKE_SENT
  | BT_PEER_HANDSHAKE_RCVD
  | BT_PEER_LEECHING
  | BT_PEER_SEEDING
  | BT_PEER_HANDSHAKE_EXPECTED

datatype bt_state = BT_CONNECTING_TO_PEERS | BT_SENDING_HANDSHAKE | BT_DOWNLOADING | BT_SEEDING | BT_COMPLETE

section \<open>State\<close>

record bt_record =
  rec_id :: int
  retries :: int
  connected :: bool

record bt_peer =
  pkey :: ptr
  pqueue :: "byte list list"
  pstate :: bt_peer_state
  rx_len :: u32
  rx_id :: byte
  rx_buffer :: "byte list option"
  remaining :: u32
  pieces_received :: int
  pending_requests :: u32
  pbitmap :: bitmap
  peer_no :: int

record bt_request =
  bt_process :: bool
  info_hash :: "byte list"
  peerid :: "byte list"
  peers :: "bt_peer list"
  bt_bitmap :: bitmap
  bt_id :: int
  bstate :: bt_state
  bt_records :: "bt_record list"
  rem_pieces :: "u32 list"
  pieces_left :: int
  packets :: int
  total_bytes :: u32
  sent :: "(ptr \<times> byte list) list"

datatype alloc_site = Request_mem | Peer_mem | Rx_mem | Bitmap_mem | Rem_mem | Tx_mem | Hash_mem | Uri_mem

record bt_env =
  sock_window :: "ptr \<Rightarrow> (ptr \<times> byte list) list \<Rightarrow> u32"
  sock_open :: "byte list option \<Rightarrow> u16 \<Rightarrow> rc"
  sock_listen :: "byte list \<Rightarrow> rc"
  mem_ok :: "alloc_site \<Rightarrow> bool"
  random :: "nat \<Rightarrow> u32"
  new_peer :: ptr
  stack_bytes :: "byte list"
  heap_bytes :: "byte list"
  next_byte :: byte
  fill :: "nat \<Rightarrow> u32"

datatype 'a outcome = Return rc 'a | Undefined

fun bind_outcome :: "'a outcome \<Rightarrow> (rc \<Rightarrow> 'a \<Rightarrow> 'b outcome) \<Rightarrow> 'b outcome" where
  "bind_outcome (Return rc w) f = f rc w"
| "bind_outcome Undefined f = Undefined"

definition window :: "bt_env \<Rightarrow> ptr \<Rightarrow> bt_request \<Rightarrow> u32" where
  "window env p bt = sock_window env p (sent bt)"

definition send :: "ptr \<Rightarrow> byte list \<Rightarrow> bt_request \<Rightarrow> bt_request" where
  "send p msg bt = bt\<lparr>sent := sent bt @ [(p, msg)]\<rparr>"

definition get_peer :: "ptr \<Rightarrow> bt_request \<Rightarrow> bt_peer option" where
  "get_peer p bt = find (\<lambda>peer. pkey peer = p) (peers bt)"

definition upd_peer :: "ptr \<Rightarrow> (bt_peer \<Rightarrow> bt_peer) \<Rightarrow> bt_request \<Rightarrow> bt_request" where
  "upd_peer p f bt = bt\<lparr>peers := map (\<lambda>peer. if pkey peer = p then f peer else peer) (peers bt)\<rparr>"

section \<open>Set-up of a request\<close>

definition bt_count_peers :: "bt_request \<Rightarrow> nat" where
  "bt_count_peers bt = length (peers bt)"

text \<open>\<open>(char - 48) * 16\<close> and so on, in a byte.\<close>

definition hash_digit :: "byte \<Rightarrow> byte" where
  "hash_digit c = (if 48 \<le> c \<and> c \<le> 57 then c - 48 else c - 87)"

definition bt_str_info_hash :: "byte list \<Rightarrow> byte list" where
  "bt_str_info_hash str = map (\<lambda>i. hash_digit (str ! (i * 2)) * 16 + hash_digit (str ! (i * 2 + 1))) [0 ..< 20]"

text \<open>Division and remainder of C, rounding towards zero.\<close>

definition cdiv10 :: "int \<Rightarrow> int" where "cdiv10 n = (if n < 0 then - (- n div 10) else n div 10)"
definition cmod10 :: "int \<Rightarrow> int" where "cmod10 n = n - 10 * cdiv10 n"

definition bt_generate_peerid :: "bt_env \<Rightarrow> int \<Rightarrow> byte list" where
  "bt_generate_peerid env n =
     [word_of_int (cdiv10 n + 48), word_of_int (cmod10 n + 48), 0x50, 0x31, 0x30, 0x30, 0x30] @
     map (\<lambda>i. ucast (random env i mod 10 + 48)) [7 ..< 19] @ [0x2d]"

definition bt_compute_records :: "bt_request \<Rightarrow> bt_request" where
  "bt_compute_records bt =
     bt\<lparr>bt_records := map (\<lambda>i. \<lparr>rec_id = (if bt_id bt + int i + 1 \<ge> BT_NUMOFNODES + 10 then 0 else bt_id bt + int i + 1),
                                 retries = 0, connected = False\<rparr>) [0 ..< BT_MAXNUMOFPEERS]\<rparr>"

definition bt_create_peer :: "bt_env \<Rightarrow> bt_peer option" where
  "bt_create_peer env =
     (if \<not> mem_ok env Peer_mem \<or> \<not> mem_ok env Rx_mem then None
      else let (rc, bm) = bitmap_resize (mem_ok env Bitmap_mem) (fill env) BT_NUMOFPIECES zero_bitmap
           in if rc \<noteq> None then None
              else Some \<lparr>pkey = new_peer env, pqueue = [], pstate = BT_PEER_CREATED, rx_len = 0, rx_id = 0,
                         rx_buffer = Some [], remaining = 0, pieces_received = 0, pending_requests = 0,
                         pbitmap = bm, peer_no = 0\<rparr>)"

definition bt_close :: "bt_request \<Rightarrow> bt_request" where
  "bt_close bt = bt\<lparr>bt_process := False\<rparr>"

definition bt_peer_close :: "ptr \<Rightarrow> bt_request \<Rightarrow> bt_request" where
  "bt_peer_close p bt = bt\<lparr>peers := filter (\<lambda>peer. pkey peer \<noteq> p) (peers bt)\<rparr>"

section \<open>Messages\<close>

definition handshake_bytes :: "bt_env \<Rightarrow> bt_request \<Rightarrow> byte list" where
  "handshake_bytes env bt =
     [19] @ map of_char ''BitTorrent protocol'' @ take 8 (stack_bytes env) @ info_hash bt @ peerid bt"

definition bt_tx_handshake :: "bt_env \<Rightarrow> ptr \<Rightarrow> bt_request \<Rightarrow> bt_request" where
  "bt_tx_handshake env p bt = send p (handshake_bytes env bt) bt"

definition bt_tx_keep_alive :: "ptr \<Rightarrow> bt_request \<Rightarrow> bt_request" where
  "bt_tx_keep_alive p bt = send p [0, 0, 0, 0] bt"

definition bt_tx_interested :: "ptr \<Rightarrow> bt_request \<Rightarrow> bt_request" where
  "bt_tx_interested p bt = send p [0, 0, 0, 1, BT_INTERESTED] bt"

definition bt_tx_have :: "ptr \<Rightarrow> u32 \<Rightarrow> bt_request \<Rightarrow> bt_request" where
  "bt_tx_have p index bt = send p ([0, 0, 0, 5, BT_HAVE] @ stored32 (htonl index)) bt"

definition bt_tx_have_to_peers :: "u32 \<Rightarrow> bt_request \<Rightarrow> bt_request" where
  "bt_tx_have_to_peers index bt = fold (\<lambda>peer. bt_tx_have (pkey peer) index) (peers bt) bt"

definition request_bytes :: "u32 \<Rightarrow> u32 \<Rightarrow> u32 \<Rightarrow> byte list" where
  "request_bytes index begin' len' =
     [0, 0, 0, 13, 6] @ stored32 (htonl index) @ stored32 (htonl begin') @ stored32 (htonl len')"

definition bt_tx_request :: "ptr \<Rightarrow> u32 \<Rightarrow> u32 \<Rightarrow> u32 \<Rightarrow> bt_request \<Rightarrow> bt_request" where
  "bt_tx_request p index begin' len' bt = send p (request_bytes index begin' len') bt"

definition bt_peer_xmit :: "bt_env \<Rightarrow> ptr \<Rightarrow> bt_request \<Rightarrow> bt_request" where
  "bt_peer_xmit env p bt =
     (case get_peer p bt of
        None \<Rightarrow> bt
      | Some peer \<Rightarrow>
          (case pqueue peer of
             [] \<Rightarrow> bt
           | iobuf # queue \<Rightarrow>
               if window env p bt \<noteq> 0 then send p iobuf (upd_peer p (pqueue_update (\<lambda>_. queue)) bt) else bt))"

definition piece_bytes :: "u32 \<Rightarrow> byte list \<Rightarrow> byte list" where
  "piece_bytes index block =
     stored32 (htonl (of_nat (9 + BT_PIECE_SIZE))) @ [7] @ stored32 (htonl index) @ [0, 0, 0, 0] @ block"

definition bt_tx_piece :: "bt_env \<Rightarrow> ptr \<Rightarrow> u32 \<Rightarrow> u32 \<Rightarrow> bt_request \<Rightarrow> rc \<times> bt_request" where
  "bt_tx_piece env p index begin' bt =
     (if \<not> mem_ok env Tx_mem then (Some ENOMEM, bt)
      else let iobuf = piece_bytes index (take BT_PIECE_SIZE (heap_bytes env))
           in (None, bt_peer_xmit env p (upd_peer p (pqueue_update (\<lambda>q. q @ [iobuf])) bt)))"

fun same_hash :: "byte list \<Rightarrow> byte list \<Rightarrow> bool option" where
  "same_hash [] handshake = Some True"
| "same_hash (h # hash) [] = None"
| "same_hash (h # hash) (x # handshake) = (if h \<noteq> x then Some False else same_hash hash handshake)"

definition bt_rx_handshake :: "ptr \<Rightarrow> byte list \<Rightarrow> bt_request \<Rightarrow> bt_request outcome" where
  "bt_rx_handshake p handshake bt =
     (case same_hash (info_hash bt) (drop 28 handshake) of
        None \<Rightarrow> Undefined
      | Some False \<Rightarrow> Return (Some EBTHM) bt
      | Some True \<Rightarrow>
          if length handshake < 50 then Undefined
          else Return None (upd_peer p (peer_no_update (\<lambda>_.
                 (uint (handshake ! 48) - 48) * 10 + (uint (handshake ! 49) - 48))) bt))"

definition bt_next_piece :: "bt_request \<Rightarrow> (u32 \<times> bt_request) option" where
  "bt_next_piece bt =
     (case rem_pieces bt of
        [] \<Rightarrow> None
      | index # rest \<Rightarrow> Some (index, bt\<lparr>rem_pieces := rest, pieces_left := pieces_left bt - 1\<rparr>))"

definition request_next :: "ptr \<Rightarrow> bt_request \<Rightarrow> bt_request outcome" where
  "request_next p bt =
     (case bt_next_piece bt of
        None \<Rightarrow> Undefined
      | Some (index, bt) \<Rightarrow> Return None (bt_tx_request p index 0 (of_nat BT_PIECE_SIZE) bt))"

section \<open>Received data\<close>

text \<open>What one round of the loop over the received data does: go on with the rest of the data, or return.\<close>

datatype round = Continue "byte list" bt_request | Stop rc bt_request | Bad

definition rx_first_handshake :: "bt_env \<Rightarrow> ptr \<Rightarrow> byte list \<Rightarrow> byte list \<Rightarrow> bt_request \<Rightarrow> round" where
  "rx_first_handshake env p handshake data bt =
     (if char_at handshake \<noteq> 19 then Continue data bt
      else case bt_rx_handshake p handshake bt of
        Undefined \<Rightarrow> Bad
      | Return (Some _) bt \<Rightarrow> Continue data bt
      | Return None bt \<Rightarrow>
          if length data < BT_HANDSHAKELEN then Bad
          else Continue (drop BT_HANDSHAKELEN data)
            (bt_tx_keep_alive p (bt_tx_interested p (upd_peer p (pstate_update (\<lambda>_. BT_PEER_HANDSHAKE_RCVD)) bt))))"

definition rx_expected_handshake :: "bt_env \<Rightarrow> ptr \<Rightarrow> byte list \<Rightarrow> byte list \<Rightarrow> bt_request \<Rightarrow> round" where
  "rx_expected_handshake env p handshake data bt =
     (if char_at handshake \<noteq> 19 then Continue data bt
      else case bt_rx_handshake p handshake bt of
        Undefined \<Rightarrow> Bad
      | Return (Some _) bt \<Rightarrow> Continue data bt
      | Return None bt \<Rightarrow>
          if length data < BT_HANDSHAKELEN then Bad
          else
            let bt = (if window env p bt \<noteq> 0 then bt_tx_handshake env p bt else bt);
                bt = bt_tx_interested p (upd_peer p (pstate_update (\<lambda>_. BT_PEER_HANDSHAKE_RCVD)) bt)
            in Continue (drop BT_HANDSHAKELEN data)
                 (if bt_id bt = 11 then bt\<lparr>bstate := BT_DOWNLOADING\<rparr> else bt))"

definition message_done :: "ptr \<Rightarrow> bt_request \<Rightarrow> bt_request" where
  "message_done p bt = upd_peer p (\<lambda>peer. peer\<lparr>remaining := 0, rx_len := 0, rx_id := 0\<rparr>) bt"

definition finish :: "ptr \<Rightarrow> byte list \<Rightarrow> bt_request outcome \<Rightarrow> round" where
  "finish p data r = (case r of Undefined \<Rightarrow> Bad | Return _ bt \<Rightarrow> Continue data (message_done p bt))"

text \<open>The big-endian number at an offset of received data.\<close>

definition get_be32 :: "byte list \<Rightarrow> nat \<Rightarrow> u32" where
  "get_be32 s i = be32_of (s ! i) (s ! (i + 1)) (s ! (i + 2)) (s ! (i + 3))"

definition rx_have :: "bt_env \<Rightarrow> ptr \<Rightarrow> bt_peer \<Rightarrow> byte list \<Rightarrow> bt_request \<Rightarrow> round" where
  "rx_have env p peer data bt =
     (if length data < 5 then Bad
      else
        let index = get_be32 data 1; data = drop 5 data
        in if peer_no peer > bt_id bt then finish p data (Return None bt)
           else case bitmap_set (pbitmap peer) index of
             None \<Rightarrow> Bad
           | Some bm \<Rightarrow>
               (let bt = upd_peer p (pbitmap_update (\<lambda>_. bm)) bt
                in case bitmap_test (bt_bitmap bt) index of
                     None \<Rightarrow> Bad
                   | Some True \<Rightarrow> finish p data (Return None bt)
                   | Some False \<Rightarrow>
                       if \<not> mem_ok env Rem_mem then Bad
                       else finish p data (request_next p (bt\<lparr>rem_pieces := rem_pieces bt @ [index]\<rparr>))))"

definition rx_request :: "bt_env \<Rightarrow> ptr \<Rightarrow> byte list \<Rightarrow> bt_request \<Rightarrow> round" where
  "rx_request env p data bt =
     (if length data < 13 then Bad
      else finish p (drop 13 data) (Return None (snd (bt_tx_piece env p (get_be32 data 1) (get_be32 data 5) bt))))"

text \<open>The counters and the bitmap of a piece that has arrived; the buffer it was collected in is replaced.\<close>

definition piece_received :: "bt_env \<Rightarrow> ptr \<Rightarrow> bitmap \<Rightarrow> bt_request \<Rightarrow> bt_request" where
  "piece_received env p bm bt =
     (upd_peer p (\<lambda>peer. peer\<lparr>pending_requests := pending_requests peer - 1,
        pieces_received := pieces_received peer + 1,
        rx_buffer := if mem_ok env Rx_mem then Some [] else None\<rparr>) bt)\<lparr>bt_bitmap := bm\<rparr>"

definition after_piece :: "bt_env \<Rightarrow> ptr \<Rightarrow> u32 \<Rightarrow> byte list \<Rightarrow> bt_request \<Rightarrow> round" where
  "after_piece env p index data bt =
     (if \<not> mem_ok env Rx_mem then Stop (Some ENOMEM) bt
      else
        let bt = bt_tx_have_to_peers index bt
        in if bitmap_full (bt_bitmap bt) then finish p data (Return None (bt\<lparr>bstate := BT_SEEDING\<rparr>))
           else if bt_id bt = 11 then finish p data (request_next p bt)
           else finish p data (Return None bt))"

definition rx_piece :: "bt_env \<Rightarrow> ptr \<Rightarrow> bt_peer \<Rightarrow> byte list \<Rightarrow> bt_request \<Rightarrow> round" where
  "rx_piece env p peer data bt =
     (case rx_buffer peer of
        None \<Rightarrow> Bad
      | Some b \<Rightarrow>
          let n = unat (remaining peer); b = b @ take n data; data = drop n data
          in if length b > RX_CAPACITY \<or> length b < 9 then Bad
             else case bitmap_set (bt_bitmap bt) (get_be32 b 1) of
               None \<Rightarrow> Bad
             | Some bm \<Rightarrow> after_piece env p (get_be32 b 1) data (piece_received env p bm bt))"

definition rx_other :: "ptr \<Rightarrow> bt_peer \<Rightarrow> byte list \<Rightarrow> bt_request \<Rightarrow> round" where
  "rx_other p peer data bt =
     (if length data < unat (rx_len peer) then Bad
      else finish p (drop (unat (rx_len peer)) data) (Return None bt))"

definition rx_complete :: "bt_env \<Rightarrow> ptr \<Rightarrow> bt_peer \<Rightarrow> byte list \<Rightarrow> bt_request \<Rightarrow> round" where
  "rx_complete env p peer data bt =
     (if rx_id peer = BT_HAVE then rx_have env p peer data bt
      else if rx_id peer = BT_REQUEST then rx_request env p data bt
      else if rx_id peer = BT_PIECE then rx_piece env p peer data bt
      else rx_other p peer data bt)"

definition rx_partial :: "ptr \<Rightarrow> bt_peer \<Rightarrow> byte list \<Rightarrow> nat \<Rightarrow> bt_request \<Rightarrow> round" where
  "rx_partial p peer data data_len bt =
     (case rx_buffer peer of
        None \<Rightarrow> Bad
      | Some b \<Rightarrow>
          if length data < data_len \<or> length b + data_len > RX_CAPACITY then Bad
          else Continue (drop data_len data) (upd_peer p (\<lambda>peer. peer\<lparr>remaining := remaining peer - of_nat data_len,
                 rx_buffer := Some (b @ take data_len data)\<rparr>) bt))"

text \<open>The prefix of a new message: the result is the peer, the rest of the data and the variable \<open>data_len\<close>, which
  keep-alive messages leave unchanged.\<close>

definition rx_prefix :: "bt_env \<Rightarrow> bt_peer \<Rightarrow> byte list \<Rightarrow> bt_peer \<times> byte list \<times> nat" where
  "rx_prefix env peer data =
     (let len = get_be32 data 0
      in if len = 0 then (peer\<lparr>rx_len := 0, rx_id := 0\<rparr>, drop BT_PREFIXLEN data, length data)
         else (peer\<lparr>rx_len := len, rx_id := if length data > 4 then data ! 4 else next_byte env, remaining := len\<rparr>,
               drop BT_PREFIXLEN data, length data - BT_PREFIXLEN))"

definition rx_message :: "bt_env \<Rightarrow> ptr \<Rightarrow> bt_peer \<Rightarrow> byte list \<Rightarrow> bt_request \<Rightarrow> round" where
  "rx_message env p peer data bt =
     (if rx_len peer = 0 \<and> length data < BT_PREFIXLEN then Stop None bt
      else
        let (peer, data, data_len) = (if rx_len peer = 0 then rx_prefix env peer data else (peer, data, length data));
            bt = upd_peer p (\<lambda>_. peer) bt
        in if remaining peer \<noteq> 0 \<and> unat (remaining peer) \<le> data_len then rx_complete env p peer data bt
           else if remaining peer \<noteq> 0 then rx_partial p peer data data_len bt
           else Continue data bt)"

definition deliver_round :: "bt_env \<Rightarrow> ptr \<Rightarrow> byte list \<Rightarrow> byte list \<Rightarrow> bt_request \<Rightarrow> round" where
  "deliver_round env p handshake data bt =
     (case get_peer p bt of
        None \<Rightarrow> Bad
      | Some peer \<Rightarrow>
          (case pstate peer of
             BT_PEER_HANDSHAKE_SENT \<Rightarrow> rx_first_handshake env p handshake data bt
           | BT_PEER_HANDSHAKE_EXPECTED \<Rightarrow> rx_expected_handshake env p handshake data bt
           | _ \<Rightarrow> rx_message env p peer data bt))"

text \<open>The loop over the data: \<open>None\<close> when it does not end.\<close>

partial_function (option) deliver_loop ::
  "bt_env \<Rightarrow> ptr \<Rightarrow> byte list \<Rightarrow> byte list \<Rightarrow> bt_request \<Rightarrow> bt_request outcome option" where
  "deliver_loop env p handshake data bt =
     (if data = [] then Some (Return None bt)
      else case deliver_round env p handshake data bt of
        Bad \<Rightarrow> Some Undefined
      | Stop rc bt \<Rightarrow> Some (Return rc bt)
      | Continue data bt \<Rightarrow> deliver_loop env p handshake data bt)"

definition bt_peer_socket_deliver :: "bt_env \<Rightarrow> ptr \<Rightarrow> byte list \<Rightarrow> bt_request \<Rightarrow> bt_request outcome option" where
  "bt_peer_socket_deliver env p iobuf bt =
     deliver_loop env p iobuf iobuf
       (bt\<lparr>packets := packets bt + 1, total_bytes := total_bytes bt + of_nat (length iobuf)\<rparr>)"

section \<open>The background process\<close>

text \<open>"tcp://192.168.4.XX:45501"\<close>

definition peer_uri :: "int \<Rightarrow> byte list" where
  "peer_uri n = map of_char ''tcp://192.168.4.'' @ [word_of_int (cdiv10 n + 48), word_of_int (cmod10 n + 48)] @
     map of_char '':45501''"

text \<open>On failure \<open>bt_peer_close()\<close> unlinks a peer that is on no list, through the NULL pointers of its cleared links.\<close>

definition bt_socket_open :: "bt_env \<Rightarrow> uri \<Rightarrow> unit outcome" where
  "bt_socket_open env uri =
     (case sock_open env (host uri) (ucast (uri_port (Some uri) 80)) of
        None \<Rightarrow> Return None ()
      | Some _ \<Rightarrow> Undefined)"

definition may_connect :: "bt_record \<Rightarrow> bool" where
  "may_connect r = (rec_id r > 0 \<and> \<not> connected r \<and> retries r < BT_MAXRETRIES)"

definition connect_peer :: "bt_env \<Rightarrow> nat \<Rightarrow> bt_request \<Rightarrow> bt_request outcome" where
  "connect_peer env i bt =
     (case (bt_create_peer env, parse_uri (mem_ok env Uri_mem) (peer_uri (rec_id (bt_records bt ! i)))) of
        (Some peer, Some uri) \<Rightarrow>
          (case bt_socket_open env uri of
             Undefined \<Rightarrow> Undefined
           | Return _ _ \<Rightarrow>
               (let bt = bt\<lparr>peers := peers bt @ [peer],
                            bt_records := (bt_records bt)[i := (bt_records bt ! i)\<lparr>connected := True\<rparr>]\<rparr>
                in Return None (if list_all (\<lambda>r. rec_id r > 0 \<and> connected r) (bt_records bt)
                                then bt\<lparr>bstate := BT_SENDING_HANDSHAKE\<rparr> else bt)))
      | _ \<Rightarrow> Undefined)"

fun connect_loop :: "bt_env \<Rightarrow> nat list \<Rightarrow> bt_request \<Rightarrow> bt_request outcome" where
  "connect_loop env [] bt = Return None bt"
| "connect_loop env (i # is) bt =
     (if may_connect (bt_records bt ! i) then connect_peer env i bt else connect_loop env is bt)"

definition send_handshake :: "bt_env \<Rightarrow> bt_peer \<Rightarrow> bt_request \<Rightarrow> bt_request" where
  "send_handshake env peer bt =
     (if pstate peer = BT_PEER_CREATED \<and> window env (pkey peer) bt \<noteq> 0
      then upd_peer (pkey peer) (pstate_update (\<lambda>_. BT_PEER_HANDSHAKE_SENT)) (bt_tx_handshake env (pkey peer) bt)
      else bt)"

text \<open>The pointer to the function \<open>xfer_window\<close> is tested, not the window: the test never fails.\<close>

definition start_download :: "bt_env \<Rightarrow> bt_request \<Rightarrow> bt_request outcome" where
  "start_download env bt =
     (if bt_count_peers bt \<noteq> 2 then Return None bt
      else case filter (\<lambda>peer. peer_no peer = bt_id bt - 1) (peers bt) of
        [] \<Rightarrow> Return None bt
      | ps \<Rightarrow>
          if \<not> mem_ok env Rem_mem then Undefined
          else
            let bt = bt\<lparr>rem_pieces := rem_pieces bt @ map of_nat [0 ..< unat BT_NUMOFPIECES]\<rparr>
            in bind_outcome (request_next (pkey (last ps)) bt) (\<lambda>rc bt. Return None (bt\<lparr>bstate := BT_SEEDING\<rparr>)))"

definition xmit_all :: "bt_env \<Rightarrow> bt_request \<Rightarrow> bt_request" where
  "xmit_all env bt = fold (\<lambda>peer. bt_peer_xmit env (pkey peer)) (peers bt) bt"

definition bt_step :: "bt_env \<Rightarrow> bt_request \<Rightarrow> bt_request outcome" where
  "bt_step env bt =
     (case bstate bt of
        BT_CONNECTING_TO_PEERS \<Rightarrow> connect_loop env [0 ..< BT_MAXNUMOFPEERS] bt
      | BT_SENDING_HANDSHAKE \<Rightarrow>
          (let bt = fold (send_handshake env) (peers bt) bt
           in Return None (if list_all (\<lambda>peer. pstate peer = BT_PEER_HANDSHAKE_SENT) (peers bt)
                           then bt\<lparr>bstate := BT_DOWNLOADING\<rparr> else bt))
      | BT_DOWNLOADING \<Rightarrow>
          if bt_id bt = 11 then start_download env bt
          else if bt_id bt = 10 then Return None (xmit_all env bt)
          else Return None bt
      | BT_SEEDING \<Rightarrow> Return None (xmit_all env bt)
      | BT_COMPLETE \<Rightarrow> Return None bt)"

section \<open>Interfaces\<close>

definition bt_xfer_window :: u32 where "bt_xfer_window = 1"

definition bt_peer_socket_window :: u32 where "bt_peer_socket_window = NOT 0"

definition bt_xfer_open_child :: "bt_env \<Rightarrow> bt_request \<Rightarrow> rc \<times> bt_request" where
  "bt_xfer_open_child env bt =
     (case bt_create_peer env of
        None \<Rightarrow> (Some ENOMEM, bt)
      | Some peer \<Rightarrow> (None, bt\<lparr>peers := peer\<lparr>pstate := BT_PEER_HANDSHAKE_EXPECTED\<rparr> # peers bt\<rparr>))"

text \<open>"0bfd2e8c7b603aec481d6b32296f29aee524207c"\<close>

definition BT_TEST_HASH :: "byte list" where
  "BT_TEST_HASH = map of_char ''0bfd2e8c7b603aec481d6b32296f29aee524207c''"

text \<open>The two first characters of the host of the URI replace the XX of "192.168.4.XX".\<close>

definition new_uri :: "byte list \<Rightarrow> byte list" where
  "new_uri hst = map of_char ''192.168.4.'' @ [char_at hst, char_at (tl hst)]"

definition bt_open :: "bt_env \<Rightarrow> byte list \<Rightarrow> bt_request option outcome" where
  "bt_open env hst =
     (if \<not> mem_ok env Request_mem then Return (Some ENOMEM) None
      else if \<not> mem_ok env Hash_mem then Undefined
      else
        let n = sint (fst (strtoul hst 10));
            bt = bt_compute_records
                   \<lparr>bt_process = True, info_hash = bt_str_info_hash BT_TEST_HASH, peerid = bt_generate_peerid env n, peers = [],
                    bt_bitmap = zero_bitmap, bt_id = n, bstate = BT_CONNECTING_TO_PEERS, bt_records = [], rem_pieces = [],
                    pieces_left = uint BT_NUMOFPIECES, packets = 0, total_bytes = 0, sent = []\<rparr>;
            (rc, bm) = bitmap_resize (mem_ok env Bitmap_mem) (fill env) BT_NUMOFPIECES zero_bitmap
        in if rc \<noteq> None then Return rc None
           else case sock_listen env (new_uri hst) of
             Some rc \<Rightarrow> Return (Some rc) None
           | None \<Rightarrow> Return None (Some (bt\<lparr>bt_bitmap := bm\<rparr>)))"

end
