(* ===== verification/Bittorrent_Correct.thy ===== *)
theory Bittorrent_Correct
  imports Bittorrent
begin

text \<open>Correctness of the BitTorrent client of \<open>Bittorrent\<close>: the well-formed states (\<open>bt_ok\<close>) and their preservation by every
  entry point, when the receive loop ends, how a message that arrives in several buffers is put together, how a request
  is answered, and that a download from a peer that answers completes.\<close>


lemma find_map_upd:
  assumes "\<And>x. pkey (f x) = pkey x"
  shows "find (\<lambda>x. pkey x = q) (map (\<lambda>x. if pkey x = p then f x else x) xs) =
    (if q = p then map_option f (find (\<lambda>x. pkey x = p) xs) else find (\<lambda>x. pkey x = q) xs)"
  by (induction xs) (auto simp: assms)

lemma get_peer_upd:
  "(\<And>x. pkey (f x) = pkey x) \<Longrightarrow> get_peer q (upd_peer p f bt) = (if q = p then map_option f (get_peer p bt) else get_peer q bt)"
  by (simp add: get_peer_def upd_peer_def find_map_upd)

lemma get_peer_set:
  assumes "get_peer p bt = Some x" and "pkey y = p"
  shows "get_peer p (upd_peer p (\<lambda>_. y) bt) = Some y"
proof -
  have "find (\<lambda>x. pkey x = p) xs = Some x \<Longrightarrow> find (\<lambda>x. pkey x = p) (map (\<lambda>x. if pkey x = p then y else x) xs) = Some y" for xs
    by (induction xs) (auto simp: assms(2) split: if_splits)
  then show ?thesis using assms(1) by (simp add: get_peer_def upd_peer_def)
qed

lemma get_peer_key: "get_peer p bt = Some x \<Longrightarrow> pkey x = p \<and> x \<in> set (peers bt)"
  by (auto simp: get_peer_def find_Some_iff in_set_conv_nth)

lemma get_peer_cong: "peers a = peers b \<Longrightarrow> get_peer p a = get_peer p b"
  by (simp add: get_peer_def)

lemma send_frame [simp]:
  "peers (send p m bt) = peers bt" "bt_bitmap (send p m bt) = bt_bitmap bt" "info_hash (send p m bt) = info_hash bt"
  "peerid (send p m bt) = peerid bt" "bt_id (send p m bt) = bt_id bt" "bstate (send p m bt) = bstate bt"
  "rem_pieces (send p m bt) = rem_pieces bt" "sent (send p m bt) = sent bt @ [(p, m)]"
  "bt_records (send p m bt) = bt_records bt" "packets (send p m bt) = packets bt" "total_bytes (send p m bt) = total_bytes bt"
  "pieces_left (send p m bt) = pieces_left bt" "bt_process (send p m bt) = bt_process bt"
  by (simp_all add: send_def)

lemma get_peer_send [simp]: "get_peer q (send p m bt) = get_peer q bt"
  by (simp add: get_peer_def)

lemma upd_frame [simp]:
  "bt_bitmap (upd_peer p f bt) = bt_bitmap bt" "info_hash (upd_peer p f bt) = info_hash bt"
  "peerid (upd_peer p f bt) = peerid bt" "bt_id (upd_peer p f bt) = bt_id bt" "bstate (upd_peer p f bt) = bstate bt"
  "rem_pieces (upd_peer p f bt) = rem_pieces bt" "sent (upd_peer p f bt) = sent bt"
  "bt_records (upd_peer p f bt) = bt_records bt"
  by (simp_all add: upd_peer_def)

section \<open>Well-formed states\<close>

definition pieces_ok :: "bitmap \<Rightarrow> bool" where
  "pieces_ok b \<longleftrightarrow> bitmap_ok b \<and> blength b = BT_NUMOFPIECES"

definition peer_ok :: "bt_peer \<Rightarrow> bool" where
  "peer_ok x \<longleftrightarrow> pieces_ok (pbitmap x) \<and> (rx_len x = 0 \<longleftrightarrow> remaining x = 0) \<and> remaining x \<le> rx_len x \<and>
     (\<forall>b. rx_buffer x = Some b \<longrightarrow> length b \<le> RX_CAPACITY)"

definition bt_ok :: "bt_request \<Rightarrow> bool" where
  "bt_ok bt \<longleftrightarrow> distinct (map pkey (peers bt)) \<and> pieces_ok (bt_bitmap bt) \<and> list_all peer_ok (peers bt) \<and>
     length (info_hash bt) = 20 \<and> length (peerid bt) = 20"

lemma pieces_set:
  assumes "pieces_ok b" and "bitmap_set b i = Some b'"
  shows "pieces_ok b'" "bits b' = insert (unat i) (bits b)" "unat i < unat BT_NUMOFPIECES"
proof -
  have "unat i < unat (blength b)"
  proof (rule ccontr)
    assume "\<not> ?thesis"
    then have "length (blocks b) \<le> unat i div 32"
      using assms(1) by (auto simp: pieces_ok_def bitmap_ok_def bitmap_shape_def BT_NUMOFPIECES_def)
    then show False using assms(2) by (simp add: bitmap_set_def unat_index Let_def)
  qed
  then show "pieces_ok b'" "bits b' = insert (unat i) (bits b)" "unat i < unat BT_NUMOFPIECES"
    using bitmap_set_spec [of b i] assms by (auto simp: pieces_ok_def bitmap_ok_def)
qed

lemma bt_ok_upd:
  assumes "bt_ok bt" and "\<And>x. x \<in> set (peers bt) \<Longrightarrow> pkey x = p \<Longrightarrow> peer_ok (f x) \<and> pkey (f x) = p"
  shows "bt_ok (upd_peer p f bt)"
proof -
  have "map pkey (map (\<lambda>x. if pkey x = p then f x else x) (peers bt)) = map pkey (peers bt)"
    using assms(2) by auto
  then show ?thesis using assms by (auto simp: bt_ok_def upd_peer_def list_all_iff simp del: map_map)
qed

lemma bt_ok_upd_all:
  "bt_ok bt \<Longrightarrow> (\<And>x. pkey (f x) = pkey x) \<Longrightarrow> (\<And>x. peer_ok x \<Longrightarrow> peer_ok (f x)) \<Longrightarrow> bt_ok (upd_peer p f bt)"
  by (rule bt_ok_upd) (auto simp: bt_ok_def list_all_iff)

lemma bt_ok_send [simp]: "bt_ok (send p m bt) \<longleftrightarrow> bt_ok bt"
  by (simp add: bt_ok_def)

lemma bt_ok_fields [simp]:
  "bt_ok (bt\<lparr>rem_pieces := r\<rparr>) \<longleftrightarrow> bt_ok bt" "bt_ok (bt\<lparr>pieces_left := n\<rparr>) \<longleftrightarrow> bt_ok bt" "bt_ok (bt\<lparr>bstate := s\<rparr>) \<longleftrightarrow> bt_ok bt"
  "bt_ok (bt\<lparr>packets := k\<rparr>) \<longleftrightarrow> bt_ok bt" "bt_ok (bt\<lparr>total_bytes := t\<rparr>) \<longleftrightarrow> bt_ok bt"
  "bt_ok (bt\<lparr>bt_records := rs\<rparr>) \<longleftrightarrow> bt_ok bt" "bt_ok (bt\<lparr>bt_process := b\<rparr>) \<longleftrightarrow> bt_ok bt"
  by (simp_all add: bt_ok_def)

lemma get_peer_ok: "bt_ok bt \<Longrightarrow> get_peer p bt = Some x \<Longrightarrow> peer_ok x"
  using get_peer_key [of p bt x] by (auto simp: bt_ok_def list_all_iff)

lemma peer_ok_simps [simp]:
  "peer_ok (pqueue_update g x) \<longleftrightarrow> peer_ok x" "peer_ok (x\<lparr>pstate := s\<rparr>) \<longleftrightarrow> peer_ok x" "peer_ok (x\<lparr>peer_no := n\<rparr>) \<longleftrightarrow> peer_ok x"
  "peer_ok (x\<lparr>rx_id := c\<rparr>) \<longleftrightarrow> peer_ok x" "peer_ok (x\<lparr>pending_requests := k\<rparr>) \<longleftrightarrow> peer_ok x" "peer_ok (x\<lparr>pieces_received := r\<rparr>) \<longleftrightarrow> peer_ok x"
  by (simp_all add: peer_ok_def)

definition good :: "ptr \<Rightarrow> bt_peer_state \<Rightarrow> bt_request \<Rightarrow> bool" where
  "good p st bt \<longleftrightarrow> bt_ok bt \<and> map_option pstate (get_peer p bt) = Some st"

definition round_good :: "ptr \<Rightarrow> bt_peer_state \<Rightarrow> nat \<Rightarrow> round \<Rightarrow> bool" where
  "round_good p st n r = (case r of Continue d bt \<Rightarrow> good p st bt \<and> length d < n | Stop _ bt \<Rightarrow> good p st bt | Bad \<Rightarrow> True)"

lemma good_send [simp]: "good p st (send q m bt) \<longleftrightarrow> good p st bt"
  by (simp add: good_def)

lemma get_peer_fields [simp]:
  "get_peer p (bt\<lparr>rem_pieces := r\<rparr>) = get_peer p bt" "get_peer p (bt\<lparr>pieces_left := n\<rparr>) = get_peer p bt"
  "get_peer p (bt\<lparr>bstate := s\<rparr>) = get_peer p bt" "get_peer p (bt\<lparr>packets := k\<rparr>) = get_peer p bt"
  "get_peer p (bt\<lparr>total_bytes := t\<rparr>) = get_peer p bt" "get_peer p (bt\<lparr>bt_bitmap := b\<rparr>) = get_peer p bt"
  "get_peer p (bt\<lparr>bt_records := rs\<rparr>) = get_peer p bt"
  by (simp_all add: get_peer_def)

lemma good_fields [simp]:
  "good p st (bt\<lparr>rem_pieces := r\<rparr>) \<longleftrightarrow> good p st bt" "good p st (bt\<lparr>pieces_left := n\<rparr>) \<longleftrightarrow> good p st bt"
  "good p st (bt\<lparr>bstate := s\<rparr>) \<longleftrightarrow> good p st bt" "good p st (bt\<lparr>packets := k\<rparr>) \<longleftrightarrow> good p st bt"
  "good p st (bt\<lparr>total_bytes := t\<rparr>) \<longleftrightarrow> good p st bt"
  by (simp_all add: good_def)

lemma good_upd:
  assumes "good p st bt" and "\<And>x. pkey (f x) = pkey x" and "\<And>x. pstate (f x) = pstate x"
    and "\<And>x. peer_ok x \<Longrightarrow> peer_ok (f x)"
  shows "good p st (upd_peer q f bt)"
proof -
  have "bt_ok (upd_peer q f bt)" using assms by (intro bt_ok_upd) (auto simp: good_def bt_ok_def list_all_iff)
  moreover have "map_option pstate (get_peer p (upd_peer q f bt)) = map_option pstate (get_peer p bt)"
    using assms(2,3) by (simp add: get_peer_upd option.map_comp o_def)
  ultimately show ?thesis using assms(1) by (simp add: good_def)
qed

lemma good_bitmap: "good p st bt \<Longrightarrow> bitmap_set (bt_bitmap bt) i = Some bm \<Longrightarrow> good p st (bt\<lparr>bt_bitmap := bm\<rparr>)"
  by (auto simp: good_def bt_ok_def dest: pieces_set)

lemma good_set:
  assumes "good p st bt" and "pkey y = p" and "pstate y = st" and "peer_ok y"
  shows "good p st (upd_peer p (\<lambda>_. y) bt)"
  using assms get_peer_set [OF _ assms(2)] by (auto simp: good_def intro!: bt_ok_upd)

lemma peer_ok_done: "peer_ok x \<Longrightarrow> peer_ok (x\<lparr>remaining := 0, rx_len := 0\<rparr>)"
  by (simp add: peer_ok_def)

lemma good_done: "good p st bt \<Longrightarrow> good p st (message_done q bt)"
  unfolding message_done_def by (intro good_upd) (simp_all add: peer_ok_done)

lemma good_xmit: "good p st bt \<Longrightarrow> good p st (bt_peer_xmit env q bt)"
  by (auto simp: bt_peer_xmit_def intro: good_upd split: option.splits list.splits)

lemma good_tx_piece: "good p st bt \<Longrightarrow> good p st (snd (bt_tx_piece env q i b bt))"
  by (auto simp: bt_tx_piece_def Let_def intro!: good_xmit good_upd)

lemma good_have_to: "good p st (fold (\<lambda>x. bt_tx_have (pkey x) i) xs bt) \<longleftrightarrow> good p st bt"
  by (induction xs arbitrary: bt) (simp_all add: bt_tx_have_def)

lemma good_request_next: "good p st bt \<Longrightarrow> request_next q bt = Return rc bt' \<Longrightarrow> good p st bt'"
  by (auto simp: request_next_def bt_next_piece_def bt_tx_request_def split: list.splits)

lemma round_finish: "(\<And>rc bt. r = Return rc bt \<Longrightarrow> good p st bt) \<Longrightarrow> length d < n \<Longrightarrow> round_good p st n (finish q d r)"
  by (cases r) (simp_all add: finish_def round_good_def good_done)

lemma round_Bad [simp]: "round_good p st n Bad" by (simp add: round_good_def)

lemma rx_have_good:
  assumes "good p st bt" and "peer_ok x"
  shows "length data \<le> n \<Longrightarrow> round_good p st n (rx_have env p x data bt)"
proof -
  assume n: "length data \<le> n"
  have u: "good p st (upd_peer p (pbitmap_update (\<lambda>_. bm)) bt)" if "bitmap_set (pbitmap x) i = Some bm" for i bm
    using assms that by (intro good_upd) (auto simp: peer_ok_def dest: pieces_set)
  show ?thesis
    using assms n
    by (auto simp: rx_have_def Let_def intro!: round_finish u intro: good_request_next [OF iffD2 [OF good_fields(1)]] split: option.splits bool.splits)
qed

lemma rx_request_good: "good p st bt \<Longrightarrow> length data \<le> n \<Longrightarrow> round_good p st n (rx_request env p data bt)"
  by (auto simp: rx_request_def intro!: round_finish good_tx_piece)

lemma piece_received_good:
  "good p st bt \<Longrightarrow> bitmap_set (bt_bitmap bt) i = Some bm \<Longrightarrow> good p st (piece_received env p bm bt)"
  unfolding piece_received_def by (intro good_bitmap [where i = i] good_upd) (auto simp: peer_ok_def)

lemma after_piece_good: "good p st bt \<Longrightarrow> length data < n \<Longrightarrow> round_good p st n (after_piece env p i data bt)"
proof -
  assume g: "good p st bt" and n: "length data < n"
  have h: "good p st (bt_tx_have_to_peers i bt)" using g by (simp add: bt_tx_have_to_peers_def good_have_to)
  then show ?thesis
    using g n good_request_next [OF h] by (auto simp: after_piece_def Let_def round_good_def [of _ _ _ "Stop _ _"] intro!: round_finish)
qed

lemma rx_piece_good:
  assumes "good p st bt" and "remaining x \<noteq> 0" and "data \<noteq> []" and "length data \<le> n"
  shows "round_good p st n (rx_piece env p x data bt)"
proof -
  have "length (drop (unat (remaining x)) data) < n"
    using assms(2-4) unat_gt_0 [of "remaining x"] by (cases data) auto
  then show ?thesis
    using piece_received_good [OF assms(1)] by (auto simp: rx_piece_def Let_def intro!: after_piece_good split: option.splits)
qed

lemma rx_other_good:
  assumes "good p st bt" and "rx_len x \<noteq> 0"
  shows "length data \<le> n \<Longrightarrow> round_good p st n (rx_other p x data bt)"
proof -
  have "0 < unat (rx_len x)" using assms(2) by (simp add: unat_gt_0)
  then show "length data \<le> n \<Longrightarrow> ?thesis" using assms by (auto simp: rx_other_def intro!: round_finish)
qed

lemma upd_peer_at:
  assumes "bt_ok bt" and "get_peer p bt = Some x"
  shows "upd_peer p f bt = upd_peer p (\<lambda>_. f x) bt"
proof -
  have "y = x" if "y \<in> set (peers bt)" "pkey y = p" for y
    using that assms get_peer_key [OF assms(2)] by (auto simp: bt_ok_def distinct_map dest: inj_onD)
  then show ?thesis by (auto simp: upd_peer_def)
qed

lemma good_upd_at:
  assumes "good p st bt" and "get_peer p bt = Some x" and "pkey (f x) = pkey x" and "pstate (f x) = pstate x" and "peer_ok (f x)"
  shows "good p st (upd_peer p f bt)"
  using assms get_peer_key [OF assms(2)] upd_peer_at [OF _ assms(2), of f] good_set [OF assms(1), of "f x"]
  by (auto simp: good_def)

lemma rx_partial_good:
  assumes "good p st bt" and "get_peer p bt = Some x" and "data_len < unat (remaining x)"
    and "length data - data_len < n"
  shows "round_good p st n (rx_partial p x data data_len bt)"
proof -
  have ok: "peer_ok x" using assms(1,2) get_peer_ok by (auto simp: good_def)
  have len: "unat (of_nat data_len :: u32) = data_len"
    using assms(3) unsigned_less [where ?'a = nat, of "remaining x"] by (simp add: unat_of_nat take_bit_eq_mod)
  have sub: "unat (remaining x - of_nat data_len) = unat (remaining x) - data_len"
    using assms(3) len by (subst unat_sub_le) (simp_all add: word_le_nat_alt)
  have "peer_ok (x\<lparr>remaining := remaining x - of_nat data_len, rx_buffer := Some b\<rparr>)" if "length b \<le> RX_CAPACITY" for b
    using ok sub assms(3) that by (auto simp: peer_ok_def word_le_nat_alt word_unat_eq_iff)
  then show ?thesis
    using assms by (auto simp: rx_partial_def round_good_def intro!: good_upd_at split: option.splits)
qed

lemma rx_complete_good:
  assumes "good p st bt" and "peer_ok x" and "remaining x \<noteq> 0" and "data \<noteq> []" and "length data \<le> n"
  shows "round_good p st n (rx_complete env p x data bt)"
  using assms by (auto simp: rx_complete_def peer_ok_def intro!: rx_have_good rx_request_good rx_piece_good rx_other_good)

lemma rx_message_good:
  assumes "good p st bt" and "get_peer p bt = Some x" and "data \<noteq> []"
  shows "round_good p st (length data) (rx_message env p x data bt)"
proof -
  have ok: "peer_ok x" "pkey x = p" "pstate x = st"
    using assms(1,2) get_peer_ok get_peer_key by (auto simp: good_def)
  have set: "good p st (upd_peer p (\<lambda>_. y) bt)" "get_peer p (upd_peer p (\<lambda>_. y) bt) = Some y"
    if "pkey y = p" "pstate y = st" "peer_ok y" for y
    using good_set [OF assms(1) that] get_peer_set [OF assms(2) that(1)] by auto
  have tail: "round_good p st (length data) (if remaining y \<noteq> 0 \<and> unat (remaining y) \<le> data_len then rx_complete env p y d (upd_peer p (\<lambda>_. y) bt)
           else if remaining y \<noteq> 0 then rx_partial p y d data_len (upd_peer p (\<lambda>_. y) bt) else Continue d (upd_peer p (\<lambda>_. y) bt))"
    if y: "pkey y = p" "pstate y = st" "peer_ok y"
      and d: "remaining y \<noteq> 0 \<Longrightarrow> data_len = length d" "length d \<le> length data" "remaining y = 0 \<Longrightarrow> length d < length data" for y d data_len
  proof (cases "remaining y = 0")
    case True
    then show ?thesis using set(1) [OF y] d by (simp add: round_good_def)
  next
    case False
    then have "0 < unat (remaining y)" by (simp add: unat_gt_0)
    then show ?thesis
      using False d set [OF y] y(3) assms(3)
      by (auto intro!: rx_complete_good rx_partial_good)
  qed
  show ?thesis
  proof (cases "rx_len x = 0")
    case True
    let ?l = "get_be32 data 0"
    have "peer_ok (x\<lparr>rx_len := 0, rx_id := 0\<rparr>)" using ok(1) True by (simp add: peer_ok_def)
    moreover have "peer_ok (x\<lparr>rx_len := ?l, rx_id := c, remaining := ?l\<rparr>)" for c using ok(1) by (simp add: peer_ok_def)
    moreover have "remaining x = 0" using ok(1) True by (simp add: peer_ok_def)
    ultimately show ?thesis
      using True ok tail [of "x\<lparr>rx_len := 0, rx_id := 0\<rparr>" "length data" "drop 4 data"]
        tail [of "x\<lparr>rx_len := ?l, rx_id := if length data > 4 then data ! 4 else next_byte env, remaining := ?l\<rparr>" "length data - 4" "drop 4 data"]
        assms(1) by (cases "length data < 4") (auto simp: rx_message_def rx_prefix_def BT_PREFIXLEN_def Let_def round_good_def [of _ _ _ "Stop _ _"])
  next
    case False
    then have "remaining x \<noteq> 0" using ok(1) by (simp add: peer_ok_def)
    then show ?thesis using False ok tail [of x "length data" data] by (simp add: rx_message_def Let_def)
  qed
qed

section \<open>The receive loop ends\<close>

definition handshaking :: "bt_peer_state \<Rightarrow> bool" where
  "handshaking st \<longleftrightarrow> st = BT_PEER_HANDSHAKE_SENT \<or> st = BT_PEER_HANDSHAKE_EXPECTED"

lemma message_loop_ends:
  "good p st bt \<Longrightarrow> \<not> handshaking st \<Longrightarrow>
     \<exists>r. deliver_loop env p hs data bt = Some r \<and> (\<forall>rc bt'. r = Return rc bt' \<longrightarrow> good p st bt')"
proof (induction "length data" arbitrary: data bt rule: less_induct)
  case less
  show ?case
  proof (cases "data = []")
    case True
    then show ?thesis using less.prems by (subst deliver_loop.simps) simp
  next
    case False
    obtain x where x: "get_peer p bt = Some x" "pstate x = st" using less.prems(1) by (auto simp: good_def)
    then have "deliver_round env p hs data bt = rx_message env p x data bt"
      using less.prems(2) by (cases st) (auto simp: deliver_round_def handshaking_def)
    then have "round_good p st (length data) (deliver_round env p hs data bt)"
      using rx_message_good [OF less.prems(1) x(1) False] by simp
    then show ?thesis
      using False less.hyps less.prems(2) by (subst deliver_loop.simps) (auto simp: round_good_def split: round.splits)
  qed
qed

definition refused :: "byte list \<Rightarrow> bt_request \<Rightarrow> bool" where
  "refused data bt \<longleftrightarrow> char_at data \<noteq> 19 \<or> same_hash (info_hash bt) (drop 28 data) = Some False"

lemma refused_loops:
  assumes "get_peer p bt = Some x" and "handshaking (pstate x)" and "data \<noteq> []" and "refused data bt"
  shows "deliver_loop env p data data bt = None"
proof -
  have stay: "deliver_round env p data data bt = Continue data bt"
    using assms by (auto simp: deliver_round_def handshaking_def rx_first_handshake_def rx_expected_handshake_def
        bt_rx_handshake_def refused_def)
  have "deliver_loop env' q hs d b = Some y \<Longrightarrow> \<not> (env' = env \<and> q = p \<and> hs = data \<and> d = data \<and> b = bt)" for env' q hs d b y
  proof (induction rule: deliver_loop.raw_induct [rotated, consumes 1, case_names loop])
    case (loop f env' q hs d b y)
    then show ?case using loop(1) [of env p data data bt y] stay assms(3) by auto
  qed
  then show ?thesis by (metis not_None_eq)
qed

lemma handshake_good: "good p st bt \<Longrightarrow> good p BT_PEER_HANDSHAKE_RCVD (upd_peer p (pstate_update (\<lambda>_. BT_PEER_HANDSHAKE_RCVD)) bt)"
proof -
  assume g: "good p st bt"
  then have "bt_ok (upd_peer p (pstate_update (\<lambda>_. BT_PEER_HANDSHAKE_RCVD)) bt)"
    by (intro bt_ok_upd) (auto simp: good_def bt_ok_def list_all_iff)
  then show ?thesis using g by (auto simp: good_def get_peer_upd)
qed

lemma accepted_good:
  assumes "good p st bt" and "handshaking st" and "\<not> refused data bt"
    and "deliver_round env p data data bt = Continue d bt'"
  shows "good p BT_PEER_HANDSHAKE_RCVD bt'"
proof -
  obtain x where x: "get_peer p bt = Some x" "pstate x = st" using assms(1) by (auto simp: good_def)
  let ?f = "peer_no_update (\<lambda>_. (uint (data ! 48) - 48) * 10 + (uint (data ! 49) - 48))"
  have "good p st (upd_peer p ?f bt)" using assms(1) by (rule good_upd) simp_all
  then show ?thesis
    using assms(2-4) x
    by (auto simp: deliver_round_def handshaking_def refused_def rx_first_handshake_def rx_expected_handshake_def bt_rx_handshake_def
        bt_tx_keep_alive_def bt_tx_interested_def bt_tx_handshake_def Let_def handshake_good split: option.splits bool.splits if_splits)
qed

lemma accepted_not_stop:
  "good p st bt \<Longrightarrow> handshaking st \<Longrightarrow> deliver_round env p hs data bt \<noteq> Stop rc bt'"
  by (auto simp: deliver_round_def handshaking_def good_def rx_first_handshake_def rx_expected_handshake_def bt_rx_handshake_def Let_def
      split: option.splits bool.splits outcome.splits if_splits)

lemma deliver_ends:
  assumes "good p st bt" and "\<not> (handshaking st \<and> data \<noteq> [] \<and> refused data bt)"
  shows "\<exists>r. deliver_loop env p data data bt = Some r \<and> (\<forall>rc bt'. r = Return rc bt' \<longrightarrow> bt_ok bt' \<and> get_peer p bt' \<noteq> None)"
proof (cases "handshaking st \<and> data \<noteq> []")
  case True
  then have nr: "\<not> refused data bt" using assms(2) by simp
  show ?thesis
  proof (cases "deliver_round env p data data bt")
    case (Continue d bt')
    then have "good p BT_PEER_HANDSHAKE_RCVD bt'" using accepted_good assms(1) True nr by blast
    then have "\<exists>r. deliver_loop env p data d bt' = Some r \<and> (\<forall>rc bt''. r = Return rc bt'' \<longrightarrow> good p BT_PEER_HANDSHAKE_RCVD bt'')"
      by (intro message_loop_ends) (simp_all add: handshaking_def)
    moreover have "deliver_loop env p data data bt = deliver_loop env p data d bt'"
      using True Continue by (subst deliver_loop.simps) simp
    ultimately show ?thesis by (auto simp: good_def)
  next
    case (Stop rc bt')
    then show ?thesis using accepted_not_stop assms(1) True by blast
  next
    case Bad
    then show ?thesis using True by (subst deliver_loop.simps) simp
  qed
next
  case False
  then consider "data = []" | "\<not> handshaking st" by blast
  then show ?thesis
  proof cases
    case 1
    then show ?thesis using assms(1) by (subst deliver_loop.simps) (auto simp: good_def)
  next
    case 2
    then show ?thesis using message_loop_ends [OF assms(1) 2, of env data data] by (auto simp: good_def)
  qed
qed

section \<open>All events keep states well formed\<close>

lemma new_pieces_ok:
  assumes "bitmap_resize b fl BT_NUMOFPIECES zero_bitmap = (None, bm)"
  shows "pieces_ok bm"
proof -
  have u: "unat BT_NUMOFPIECES + 31 < 2 ^ 32" by (simp add: BT_NUMOFPIECES_def)
  have "b" using assms
    by (rule contrapos_pp) (simp add: bitmap_resize_def zero_bitmap_def BT_NUMOFPIECES_def BITMAP_INDEX_def BITMAP_BLKSIZE_def)
  then show ?thesis using bitmap_new_spec [OF u, of fl] assms by (simp add: pieces_ok_def)
qed

lemma new_peer_ok:
  assumes "bt_create_peer env = Some x"
  shows "peer_ok x" "pkey x = new_peer env" "pstate x = BT_PEER_CREATED"
proof -
  obtain bm where bm: "bitmap_resize (mem_ok env Bitmap_mem) (fill env) BT_NUMOFPIECES zero_bitmap = (None, bm)"
    "x = \<lparr>pkey = new_peer env, pqueue = [], pstate = BT_PEER_CREATED, rx_len = 0, rx_id = 0, rx_buffer = Some [], remaining = 0,
       pieces_received = 0, pending_requests = 0, pbitmap = bm, peer_no = 0\<rparr>"
    using assms by (auto simp: bt_create_peer_def split: if_splits prod.splits)
  moreover have "pieces_ok bm" using bm(1) by (rule new_pieces_ok)
  ultimately show "peer_ok x" "pkey x = new_peer env" "pstate x = BT_PEER_CREATED"
    by (simp_all add: peer_ok_def)
qed

text \<open>The memory of a new peer is not that of an existing one.\<close>

definition fresh_peer :: "bt_env \<Rightarrow> bt_request \<Rightarrow> bool" where
  "fresh_peer env bt = list_all (\<lambda>x. pkey x \<noteq> new_peer env) (peers bt)"

lemma bt_ok_add: "bt_ok bt \<Longrightarrow> peer_ok x \<Longrightarrow> (\<And>y. y \<in> set (peers bt) \<Longrightarrow> pkey y \<noteq> pkey x) \<Longrightarrow> peers bt' = x # peers bt \<or> peers bt' = peers bt @ [x] \<Longrightarrow>
    bt_bitmap bt' = bt_bitmap bt \<Longrightarrow> info_hash bt' = info_hash bt \<Longrightarrow> peerid bt' = peerid bt \<Longrightarrow> bt_ok bt'"
  by (fastforce simp: bt_ok_def)

lemma good_iff: "bt_ok bt \<and> get_peer p bt \<noteq> None \<longleftrightarrow> (\<exists>st. good p st bt)"
  by (auto simp: good_def)

lemma peer_xmit_ok: "bt_ok bt \<Longrightarrow> bt_ok (bt_peer_xmit env q bt)"
  by (auto simp: bt_peer_xmit_def intro!: bt_ok_upd_all split: option.splits list.splits)

lemma xmit_all_ok: "bt_ok bt \<Longrightarrow> bt_ok (xmit_all env bt)"
proof -
  have "bt_ok bt \<Longrightarrow> bt_ok (fold (\<lambda>x. bt_peer_xmit env (pkey x)) xs bt)" for xs
    by (induction xs arbitrary: bt) (simp_all add: peer_xmit_ok)
  then show "bt_ok bt \<Longrightarrow> ?thesis" by (simp add: xmit_all_def)
qed

lemma send_handshakes_ok: "bt_ok bt \<Longrightarrow> bt_ok (fold (send_handshake env) xs bt)"
proof (induction xs arbitrary: bt)
  case (Cons x xs)
  have "bt_ok (send_handshake env x bt)"
    using Cons.prems unfolding send_handshake_def bt_tx_handshake_def
    by (auto intro!: bt_ok_upd_all)
  then show ?case using Cons.IH by simp
qed simp

lemma request_next_ok: "bt_ok bt \<Longrightarrow> request_next q bt = Return rc bt' \<Longrightarrow> bt_ok bt'"
  by (auto simp: request_next_def bt_next_piece_def bt_tx_request_def split: list.splits)

lemma connect_ok:
  assumes "bt_ok bt" and "fresh_peer env bt" and "connect_loop env is bt = Return rc bt'"
  shows "bt_ok bt'"
  using assms(3)
proof (induction "is")
  case (Cons i "is")
  show ?case
  proof (cases "may_connect (bt_records bt ! i)")
    case True
    then show ?thesis
      using Cons.prems assms(1,2) new_peer_ok [of env]
      by (auto simp: connect_peer_def fresh_peer_def list_all_iff Let_def intro!: bt_ok_add [OF assms(1)] split: option.splits outcome.splits if_splits)
  qed (use Cons in simp)
qed (use assms(1) in simp)

lemma step_ok:
  assumes "bt_ok bt" and "fresh_peer env bt" and "bt_step env bt = Return rc bt'"
  shows "bt_ok bt'"
proof (cases "bstate bt")
  case BT_CONNECTING_TO_PEERS
  then show ?thesis using assms connect_ok by (simp add: bt_step_def)
next
  case BT_SENDING_HANDSHAKE
  then show ?thesis using assms(3) send_handshakes_ok [OF assms(1)] by (auto simp: bt_step_def Let_def)
next
  case BT_DOWNLOADING
  have "bt_ok b" if "start_download env bt = Return rc b" for b
  proof -
    let ?bt = "bt\<lparr>rem_pieces := rem_pieces bt @ map of_nat [0 ..< unat BT_NUMOFPIECES]\<rparr>"
    have "bt_ok ?bt" using assms(1) by simp
    then show ?thesis
      using that assms(1) request_next_ok [of ?bt]
      by (cases "request_next (pkey (last (filter (\<lambda>peer. peer_no peer = bt_id bt - 1) (peers bt)))) ?bt")
        (auto simp: start_download_def Let_def split: if_splits list.splits)
  qed
  then show ?thesis using BT_DOWNLOADING assms xmit_all_ok by (auto simp: bt_step_def split: if_splits)
qed (use assms xmit_all_ok in \<open>auto simp: bt_step_def\<close>)

inductive bt_event :: "bt_request \<Rightarrow> bt_request \<Rightarrow> bool" where
  deliver: "get_peer p bt \<noteq> None \<Longrightarrow> bt_peer_socket_deliver env p data bt = Some (Return rc bt') \<Longrightarrow> bt_event bt bt'"
| step: "fresh_peer env bt \<Longrightarrow> bt_step env bt = Return rc bt' \<Longrightarrow> bt_event bt bt'"
| child: "fresh_peer env bt \<Longrightarrow> bt_xfer_open_child env bt = (rc, bt') \<Longrightarrow> bt_event bt bt'"
| peer_close: "bt_event bt (bt_peer_close p bt)"
| close: "bt_event bt (bt_close bt)"

lemma deliver_stuck:
  assumes "good p st bt" and "deliver_loop env p data data bt = Some r"
  shows "\<not> (handshaking st \<and> data \<noteq> [] \<and> refused data bt)"
  using assms refused_loops [of p bt _ data env] by (auto simp: good_def)

lemma event_ok:
  assumes "bt_event bt bt'" and "bt_ok bt"
  shows "bt_ok bt'"
  using assms
proof (induction rule: bt_event.induct)
  case (deliver p bt env data rc bt')
  let ?b = "bt\<lparr>packets := packets bt + 1, total_bytes := total_bytes bt + of_nat (length data)\<rparr>"
  obtain st where "good p st bt" using deliver good_iff by blast
  then have g: "good p st ?b" by simp
  have d: "deliver_loop env p data data ?b = Some (Return rc bt')" using deliver(2) by (simp add: bt_peer_socket_deliver_def)
  show ?case using deliver_ends [OF g deliver_stuck [OF g d], of env] d by auto
next
  case (step env bt rc bt')
  then show ?case using step_ok by blast
next
  case (child env bt rc bt')
  show ?case
  proof (cases "bt_create_peer env")
    case None
    then show ?thesis using child by (simp add: bt_xfer_open_child_def)
  next
    case (Some x)
    then show ?thesis
      using child new_peer_ok [OF Some] bt_ok_add [of bt "x\<lparr>pstate := BT_PEER_HANDSHAKE_EXPECTED\<rparr>" bt']
      by (auto simp: bt_xfer_open_child_def fresh_peer_def list_all_iff)
  qed
next
  case (peer_close bt p)
  then show ?case by (auto simp: bt_peer_close_def bt_ok_def list_all_iff distinct_map inj_on_def)
next
  case (close bt)
  then show ?case by (simp add: bt_close_def)
qed

lemma open_ok:
  assumes "bt_open env hst = Return None (Some bt)"
  shows "bt_ok bt"
proof -
  obtain bm where bm: "bitmap_resize (mem_ok env Bitmap_mem) (fill env) BT_NUMOFPIECES zero_bitmap = (None, bm)" "bt_bitmap bt = bm"
    "peers bt = []" "length (info_hash bt) = 20" "length (peerid bt) = 20"
    using assms
    by (auto simp: bt_open_def Let_def bt_compute_records_def bt_str_info_hash_def bt_generate_peerid_def split: if_splits prod.splits option.splits)
  then show ?thesis using new_pieces_ok by (simp add: bt_ok_def)
qed

section \<open>Messages that arrive in pieces\<close>

text \<open>The outcome of a complete PIECE message for a peer between messages: the bit is set, all peers are told, and the
  next piece is asked for or the download is over.\<close>

definition announce :: "u32 \<Rightarrow> bt_request \<Rightarrow> bt_request" where
  "announce index bt = bt\<lparr>sent := sent bt @ map (\<lambda>x. (pkey x, [0, 0, 0, 5, BT_HAVE] @ put_be32 index)) (peers bt)\<rparr>"

lemma have_to_peers_announce: "bt_tx_have_to_peers index bt = announce index bt"
proof -
  have "fold (\<lambda>x. bt_tx_have (pkey x) index) xs b =
      b\<lparr>sent := sent b @ map (\<lambda>x. (pkey x, [0, 0, 0, 5, BT_HAVE] @ put_be32 index)) xs\<rparr>" for xs b
    by (induction xs arbitrary: b) (simp_all add: bt_tx_have_def send_def stored32_htonl)
  then show ?thesis by (simp add: bt_tx_have_to_peers_def announce_def)
qed

definition count_piece :: "ptr \<Rightarrow> bt_request \<Rightarrow> bt_request" where
  "count_piece p bt = upd_peer p (\<lambda>x. x\<lparr>pending_requests := pending_requests x - 1, pieces_received := pieces_received x + 1,
     rx_buffer := Some [], remaining := 0, rx_len := 0, rx_id := 0\<rparr>) bt"

definition piece_outcome :: "ptr \<Rightarrow> u32 \<Rightarrow> bt_request \<Rightarrow> bt_request outcome" where
  "piece_outcome p index bt =
     (case bitmap_set (bt_bitmap bt) index of
        None \<Rightarrow> Undefined
      | Some bm \<Rightarrow>
          (let bt = announce index (count_piece p (bt\<lparr>bt_bitmap := bm\<rparr>))
           in if bitmap_full bm then Return None (bt\<lparr>bstate := BT_SEEDING\<rparr>)
              else if bt_id bt = 11 then
                (case rem_pieces bt of
                   [] \<Rightarrow> Undefined
                 | next # rest \<Rightarrow>
                     Return None (bt\<lparr>rem_pieces := rest, pieces_left := pieces_left bt - 1,
                       sent := sent bt @ [(p, request_bytes next 0 (of_nat BT_PIECE_SIZE))]\<rparr>))
              else Return None bt))"

definition rx_only :: "(bt_peer \<Rightarrow> bt_peer) \<Rightarrow> bool" where
  "rx_only f \<longleftrightarrow> (\<exists>l c r b. f = (\<lambda>x. x\<lparr>rx_len := l, rx_id := c, remaining := r, rx_buffer := b\<rparr>))"

lemma upd_upd: "(\<And>x. pkey (f x) = pkey x) \<Longrightarrow> upd_peer p g (upd_peer p f bt) = upd_peer p (g \<circ> f) bt"
  by (simp add: upd_peer_def)

lemma announce_upd: "(\<And>x. pkey (f x) = pkey x) \<Longrightarrow> announce i (upd_peer p f bt) = upd_peer p f (announce i bt)"
proof -
  assume "\<And>x. pkey (f x) = pkey x"
  then have "map (\<lambda>x. (pkey x, m)) (map (\<lambda>x. if pkey x = p then f x else x) xs) = map (\<lambda>x. (pkey x, m)) xs" for xs and m :: "byte list"
    by simp
  then show ?thesis by (simp add: announce_def upd_peer_def)
qed

lemma upd_bitmap: "upd_peer p f (bt\<lparr>bt_bitmap := bm\<rparr>) = (upd_peer p f bt)\<lparr>bt_bitmap := bm\<rparr>"
  by (simp add: upd_peer_def)

lemma rx_piece_outcome:
  assumes "rx_only f" and "mem_ok env Rx_mem" and "rx_buffer x = Some b" and "unat (remaining x) = length c"
    and "length (b @ c) \<le> RX_CAPACITY" and "9 \<le> length (b @ c)"
  shows "rx_piece env p x c (upd_peer p f bt) =
    (case piece_outcome p (get_be32 (b @ c) 1) bt of Undefined \<Rightarrow> Bad | Return rc bt \<Rightarrow> Continue [] bt)"
proof (cases "bitmap_set (bt_bitmap bt) (get_be32 (b @ c) 1)")
  case None
  with assms show ?thesis by (simp add: rx_piece_def piece_outcome_def)
next
  case (Some bm)
  define i where "i = get_be32 (b @ c) 1"
  define S where "S = announce i (piece_received env p bm (upd_peer p f bt))"
  define T where "T = announce i (count_piece p (bt\<lparr>bt_bitmap := bm\<rparr>))"
  have S: "bt_bitmap S = bm" "bt_id S = bt_id bt" "rem_pieces S = rem_pieces bt" "pieces_left S = pieces_left bt"
    by (simp_all add: S_def announce_def piece_received_def upd_peer_def)
  have T: "bt_id T = bt_id bt" "rem_pieces T = rem_pieces bt" "pieces_left T = pieces_left bt"
    by (simp_all add: T_def announce_def count_piece_def upd_peer_def)
  have done_: "message_done p (G S) = G T" if "\<And>g b. upd_peer p g (G b) = G (upd_peer p g b)" for G
    using assms(1,2) that
    by (auto simp: S_def T_def rx_only_def message_done_def piece_received_def count_piece_def announce_upd upd_upd
        upd_bitmap [symmetric] comp_def)
  have "rx_piece env p x c (upd_peer p f bt) = after_piece env p i [] (piece_received env p bm (upd_peer p f bt))"
    using assms Some by (simp add: rx_piece_def i_def)
  also have "\<dots> = (if bitmap_full bm then finish p [] (Return None (S\<lparr>bstate := BT_SEEDING\<rparr>))
      else if bt_id bt = 11 then finish p [] (request_next p S) else finish p [] (Return None S))"
    using assms(2) S by (simp add: after_piece_def have_to_peers_announce flip: S_def)
  also have out: "\<dots> = (case (if bitmap_full bm then Return None (T\<lparr>bstate := BT_SEEDING\<rparr>)
      else if bt_id T = 11 then (case rem_pieces T of [] \<Rightarrow> Undefined
        | next # rest \<Rightarrow> Return None (T\<lparr>rem_pieces := rest, pieces_left := pieces_left T - 1,
             sent := sent T @ [(p, request_bytes next 0 (of_nat BT_PIECE_SIZE))]\<rparr>))
      else Return None T) of Undefined \<Rightarrow> Bad | Return rc bt \<Rightarrow> Continue [] bt)"
    using S T done_ [of "\<lambda>b. b"] done_ [of "\<lambda>b. b\<lparr>bstate := BT_SEEDING\<rparr>"]
      done_ [of "\<lambda>b. b\<lparr>rem_pieces := tl (rem_pieces bt), pieces_left := pieces_left bt - 1,
        sent := sent b @ [(p, request_bytes (hd (rem_pieces bt)) 0 (of_nat BT_PIECE_SIZE))]\<rparr>"]
    by (auto simp: finish_def request_next_def bt_next_piece_def bt_tx_request_def send_def upd_peer_def
        split: list.split)
  also have "\<dots> = (case piece_outcome p i bt of Undefined \<Rightarrow> Bad | Return rc bt \<Rightarrow> Continue [] bt)"
    using Some [folded i_def] by (simp add: piece_outcome_def Let_def flip: T_def)
  finally show ?thesis by (simp add: i_def)
qed

text \<open>A peer that has read the first \<open>k\<close> bytes of the message that follows a length prefix.\<close>

definition mid_piece :: "ptr \<Rightarrow> byte list \<Rightarrow> nat \<Rightarrow> bt_request \<Rightarrow> bt_request" where
  "mid_piece p body k bt = upd_peer p (\<lambda>x. x\<lparr>rx_len := of_nat (length body), rx_id := BT_PIECE,
     remaining := of_nat (length body - k), rx_buffer := Some (take k body)\<rparr>) bt"

definition piece_body :: "u32 \<Rightarrow> byte list \<Rightarrow> byte list" where
  "piece_body index block = [7] @ put_be32 index @ [0, 0, 0, 0] @ block"

lemma piece_bytes_body: "piece_bytes index block = [0, 0, 4, 9] @ piece_body index block"
proof -
  have "put_be32 (of_nat (9 + BT_PIECE_SIZE)) = [0, 0, 4, 9]"
    by (simp add: BT_PIECE_SIZE_def) code_simp
  then show ?thesis by (simp add: piece_bytes_def piece_body_def stored32_htonl)
qed

lemma piece_body_props:
  assumes "length block = BT_PIECE_SIZE"
  shows "length (piece_body index block) = 1033" "get_be32 (piece_body index block) 1 = index"
  using assms by (simp_all add: piece_body_def BT_PIECE_SIZE_def put_be32_def get_be32_def be32_of_put)

lemma body_chunk:
  assumes "length block = BT_PIECE_SIZE" and body: "body = piece_body index block" and "mem_ok env Rx_mem"
    and chunk: "drop k body = c @ rest" and "c \<noteq> []" and k: "k \<le> length body"
    and peer: "rx_id x = BT_PIECE" "remaining x = of_nat (length body - k)" "rx_buffer x = Some (take k body)"
  shows "(if remaining x \<noteq> 0 \<and> unat (remaining x) \<le> length c then rx_complete env p x c (mid_piece p body k bt)
          else if remaining x \<noteq> 0 then rx_partial p x c (length c) (mid_piece p body k bt)
          else Continue c (mid_piece p body k bt)) =
    (if rest = [] then (case piece_outcome p index bt of Undefined \<Rightarrow> Bad | Return rc bt \<Rightarrow> Continue [] bt)
     else Continue [] (mid_piece p body (k + length c) bt))"
proof -
  have len: "length body = 1033" and index: "get_be32 body 1 = index" using piece_body_props assms(1) body by auto
  have sizes: "length body - k = length c + length rest" using arg_cong [OF chunk, of length] by simp
  have u: "unat (remaining x) = length c + length rest"
  proof -
    have "length c + length rest < 2 ^ LENGTH(32)" using sizes len by simp
    then show ?thesis unfolding peer(2) sizes unat_of_nat by (rule mod_less)
  qed
  from u \<open>c \<noteq> []\<close> have nz: "remaining x \<noteq> 0" by (metis add_is_0 length_0_conv unat_0)
  have whole: "take k body @ c = body" if "rest = []"
    using chunk that append_take_drop_id [of k body] by simp
  have part: "take k body @ c = take (k + length c) body"
    using chunk by (simp add: take_add)
  have "rx_only (\<lambda>x. x\<lparr>rx_len := of_nat (length body), rx_id := BT_PIECE,
     remaining := of_nat (length body - k), rx_buffer := Some (take k body)\<rparr>)"
    unfolding rx_only_def by blast
  note only = this
  show ?thesis
  proof (cases "rest = []")
    case True
    have "rx_piece env p x c (mid_piece p body k bt) =
        (case piece_outcome p (get_be32 (take k body @ c) 1) bt of Undefined \<Rightarrow> Bad | Return rc bt \<Rightarrow> Continue [] bt)"
      unfolding mid_piece_def using u True whole len
      by (intro rx_piece_outcome [OF only assms(3) peer(3)]) (auto simp: RX_CAPACITY_def)
    then show ?thesis
      using True u nz whole index peer(1) by (simp add: rx_complete_def BT_PIECE_def BT_HAVE_def BT_REQUEST_def)
  next
    case False
    have r: "remaining x - of_nat (length c) = of_nat (length body - (k + length c))"
      unfolding peer(2) sizes using sizes by (simp add: algebra_simps flip: diff_diff_left)
    have "\<not> RX_CAPACITY < min (length body) k + length c" using k sizes len by (simp add: RX_CAPACITY_def)
    with False u nz peer part r show ?thesis
      by (simp add: rx_partial_def mid_piece_def upd_upd comp_def)
  qed
qed

lemma deliver_round_message:
  "get_peer p bt = Some x \<Longrightarrow> \<not> handshaking (pstate x) \<Longrightarrow> deliver_round env p h data bt = rx_message env p x data bt"
  by (cases "pstate x") (simp_all add: deliver_round_def handshaking_def)

lemma deliver_loop_last:
  "data \<noteq> [] \<Longrightarrow> deliver_round env p h data bt = Continue [] bt' \<Longrightarrow> deliver_loop env p h data bt = Some (Return None bt')"
  by (subst deliver_loop.simps) (simp add: deliver_loop.simps)

lemma deliver_loop_outcome:
  assumes "data \<noteq> []"
    and "deliver_round env p h data bt = (case r of Undefined \<Rightarrow> Bad | Return rc bt \<Rightarrow> Continue [] bt)"
    and "\<And>rc bt. r = Return rc bt \<Longrightarrow> rc = None"
  shows "deliver_loop env p h data bt = Some r"
  using assms by (cases r; subst deliver_loop.simps) (auto simp: deliver_loop.simps)

lemma piece_outcome_ok: "piece_outcome p index bt = Return rc bt' \<Longrightarrow> rc = None"
  by (auto simp: piece_outcome_def Let_def split: option.splits if_splits list.splits)

lemma mid_step:
  assumes block: "length block = BT_PIECE_SIZE" and body: "body = piece_body index block" and "bt_ok bt"
    and "get_peer p bt = Some x" and "\<not> handshaking (pstate x)" and "k \<le> length body" and "c \<noteq> []"
    and mem: "mem_ok env Rx_mem" and chunk: "drop k body = c @ rest"
  shows "deliver_loop env p h c (mid_piece p body k bt) =
    Some (if rest = [] then piece_outcome p index bt else Return None (mid_piece p body (k + length c) bt))"
proof -
  define y where "y = x\<lparr>rx_len := of_nat (length body), rx_id := BT_PIECE,
     remaining := of_nat (length body - k), rx_buffer := Some (take k body)\<rparr>"
  have y: "get_peer p (mid_piece p body k bt) = Some y" "\<not> handshaking (pstate y)" "rx_len y \<noteq> 0"
    using assms piece_body_props [OF block, of index]
    by (simp_all add: mid_piece_def y_def get_peer_upd)
  have "upd_peer p (\<lambda>_. y) (mid_piece p body k bt) = mid_piece p body k bt"
    unfolding mid_piece_def y_def
    by (subst upd_upd, simp, subst (2) upd_peer_at [OF \<open>bt_ok bt\<close> assms(4)], simp add: comp_def)
  then have "deliver_round env p h c (mid_piece p body k bt) =
      (if rest = [] then (case piece_outcome p index bt of Undefined \<Rightarrow> Bad | Return rc bt \<Rightarrow> Continue [] bt)
       else Continue [] (mid_piece p body (k + length c) bt))"
    using y by (subst body_chunk [OF block body mem chunk \<open>c \<noteq> []\<close> \<open>k \<le> length body\<close>, of y, symmetric])
      (simp_all add: deliver_round_message rx_message_def y_def)
  then show ?thesis
    using \<open>c \<noteq> []\<close> deliver_loop_last deliver_loop_outcome [OF _ _ piece_outcome_ok] by (cases "rest = []") auto
qed

lemma first_step:
  assumes block: "length block = BT_PIECE_SIZE" and body: "body = piece_body index block" and "bt_ok bt"
    and x: "get_peer p bt = Some x" "\<not> handshaking (pstate x)" "rx_len x = 0" "rx_buffer x = Some []"
    and "c \<noteq> []" and mem: "mem_ok env Rx_mem" and chunk: "body = c @ rest"
  shows "deliver_loop env p h ([0, 0, 4, 9] @ c) bt =
    Some (if rest = [] then piece_outcome p index bt else Return None (mid_piece p body (length c) bt))"
proof -
  define y where "y = x\<lparr>rx_len := 1033, rx_id := BT_PIECE, remaining := 1033\<rparr>"
  have len: "length body = 1033" using piece_body_props [OF block] body by simp
  have "c ! 0 = 7" using chunk body \<open>c \<noteq> []\<close> by (cases c) (simp_all add: piece_body_def)
  moreover have "get_be32 ([0, 0, 4, 9] @ c) 0 = 1033" by (simp add: get_be32_def) code_simp
  ultimately have pre: "rx_prefix env x ([0, 0, 4, 9] @ c) = (y, c, length c)"
    using \<open>c \<noteq> []\<close> by (simp add: rx_prefix_def y_def BT_PREFIXLEN_def BT_PIECE_def)
  have mid: "upd_peer p (\<lambda>_. y) bt = mid_piece p body 0 bt"
  proof -
    have "y = x\<lparr>rx_len := 1033, rx_id := BT_PIECE, remaining := 1033, rx_buffer := Some []\<rparr>"
      using x by (cases x) (simp add: y_def)
    then show ?thesis unfolding mid_piece_def by (subst (2) upd_peer_at [OF assms(3) x(1)]) (simp add: len)
  qed
  have "deliver_round env p h ([0, 0, 4, 9] @ c) bt =
      (if rest = [] then (case piece_outcome p index bt of Undefined \<Rightarrow> Bad | Return rc bt \<Rightarrow> Continue [] bt)
       else Continue [] (mid_piece p body (length c) bt))"
  proof -
    have "deliver_round env p h ([0, 0, 4, 9] @ c) bt =
        (if remaining y \<noteq> 0 \<and> unat (remaining y) \<le> length c then rx_complete env p y c (mid_piece p body 0 bt)
         else if remaining y \<noteq> 0 then rx_partial p y c (length c) (mid_piece p body 0 bt)
         else Continue c (mid_piece p body 0 bt))"
      unfolding deliver_round_message [OF x(1,2)] rx_message_def using x pre mid by (simp add: BT_PREFIXLEN_def)
    also have "\<dots> = (if rest = [] then (case piece_outcome p index bt of Undefined \<Rightarrow> Bad | Return rc bt \<Rightarrow> Continue [] bt)
       else Continue [] (mid_piece p body (0 + length c) bt))"
      using chunk [symmetric] x by (intro body_chunk [OF block body mem _ \<open>c \<noteq> []\<close>]) (simp_all add: y_def len)
    finally show ?thesis by simp
  qed
  then show ?thesis
    using deliver_loop_last deliver_loop_outcome [OF _ _ piece_outcome_ok] by (cases "rest = []") auto
qed

fun deliver_all :: "bt_env \<Rightarrow> ptr \<Rightarrow> byte list list \<Rightarrow> bt_request \<Rightarrow> bt_request outcome option" where
  "deliver_all env p [] bt = Some (Return None bt)"
| "deliver_all env p (c # cs) bt =
     (case bt_peer_socket_deliver env p c bt of
        Some (Return None bt) \<Rightarrow> deliver_all env p cs bt
      | r \<Rightarrow> r)"

definition counted :: "nat \<Rightarrow> nat \<Rightarrow> bt_request \<Rightarrow> bt_request" where
  "counted n m bt = bt\<lparr>packets := packets bt + of_nat n, total_bytes := total_bytes bt + of_nat m\<rparr>"

lemma counted_simps [simp]:
  "bt_ok (counted n m bt) = bt_ok bt" "get_peer p (counted n m bt) = get_peer p bt"
  "counted n m (mid_piece p body k bt) = mid_piece p body k (counted n m bt)"
  "counted n m (counted n' m' bt) = counted (n + n') (m + m') bt" "counted 0 0 bt = bt"
  by (simp_all add: counted_def mid_piece_def upd_peer_def algebra_simps)

lemma deliver_counted: "bt_peer_socket_deliver env p c bt = deliver_loop env p c c (counted 1 (length c) bt)"
  by (simp add: bt_peer_socket_deliver_def counted_def)

lemma chunks_mid:
  assumes "length block = BT_PIECE_SIZE" and body: "body = piece_body index block" and "mem_ok env Rx_mem"
    and "bt_ok bt" and "get_peer p bt = Some x" and "\<not> handshaking (pstate x)" and "k < length body"
    and "drop k body = concat cs" and "last cs \<noteq> []"
  shows "deliver_all env p cs (mid_piece p body k bt) =
    Some (piece_outcome p index (counted (length cs) (length body - k) bt))"
  using assms(4-)
proof (induction cs arbitrary: k bt)
  case Nil
  then show ?case by simp
next
  case (Cons c cs)
  show ?case
  proof (cases "c = []")
    case True
    with Cons.prems have "cs \<noteq> []" by auto
    with True Cons.prems Cons.IH [of "counted 1 0 bt" k] show ?thesis
      by (simp add: deliver_counted deliver_loop.simps)
  next
    case False
    have step: "deliver_loop env p c c (mid_piece p body k (counted 1 (length c) bt)) =
      Some (if concat cs = [] then piece_outcome p index (counted 1 (length c) bt)
            else Return None (mid_piece p body (k + length c) (counted 1 (length c) bt)))"
      using Cons.prems False by (intro mid_step [OF assms(1) body]) (simp_all add: assms(3))
    have lens: "length body - k = length c + length (concat cs)" using arg_cong [OF Cons.prems(5), of length] by simp
    show ?thesis
    proof (cases "concat cs = []")
      case True
      with Cons.prems(6) have "cs = []" by (cases cs rule: rev_cases) auto
      with step lens show ?thesis
        by (auto simp: deliver_counted split: outcome.split option.split dest: piece_outcome_ok)
    next
      case False
      then have "0 < length (concat cs)" by (simp del: concat_eq_Nil_conv)
      with lens Cons.prems(4) have "k + length c < length body" "cs \<noteq> []" by linarith (use False in auto)
      moreover have "drop (k + length c) body = concat cs" using Cons.prems(5) by (metis append_eq_conv_conj concat.simps(2) drop_drop add.commute)
      ultimately show ?thesis using step False Cons.prems Cons.IH [of "counted 1 (length c) bt" "k + length c"] lens
        by (simp add: deliver_counted del: concat_eq_Nil_conv)
    qed
  qed
qed

lemma chunks_piece:
  assumes block: "length block = BT_PIECE_SIZE" and mem: "mem_ok env Rx_mem" and "bt_ok bt"
    and x: "get_peer p bt = Some x" "\<not> handshaking (pstate x)" "rx_len x = 0" "rx_buffer x = Some []"
    and chunks: "piece_bytes index block = concat (c # cs)" and "BT_PREFIXLEN < length c" and "last (c # cs) \<noteq> []"
  shows "deliver_all env p (c # cs) bt =
    Some (piece_outcome p index (counted (length (c # cs)) (length (piece_bytes index block)) bt))"
proof -
  define body where "body = piece_body index block"
  have len: "length body = 1033" using piece_body_props [OF block] by (simp add: body_def)
  from chunks have all: "[0, 0, 4, 9] @ body = c @ concat cs" by (simp add: piece_bytes_body body_def)
  define d where "d = drop 4 c"
  have c: "c = [0, 0, 4, 9] @ d" and body: "body = d @ concat cs"
    using arg_cong [OF all, of "take 4"] arg_cong [OF all, of "drop 4"] \<open>BT_PREFIXLEN < length c\<close> append_take_drop_id [of 4 c]
    by (simp_all add: d_def BT_PREFIXLEN_def)
  have "d \<noteq> []" using c \<open>BT_PREFIXLEN < length c\<close> by (auto simp: BT_PREFIXLEN_def)
  have step: "deliver_loop env p c c (counted 1 (length c) bt) =
      Some (if concat cs = [] then piece_outcome p index (counted 1 (length c) bt)
            else Return None (mid_piece p body (length d) (counted 1 (length c) bt)))"
    using x \<open>bt_ok bt\<close> unfolding c
    by (intro first_step [OF block body_def _ _ _ _ _ \<open>d \<noteq> []\<close> mem body]) simp_all
  show ?thesis
  proof (cases "concat cs = []")
    case True
    with \<open>last (c # cs) \<noteq> []\<close> have "cs = []" by (cases cs rule: rev_cases) auto
    with step chunks show ?thesis
      by (auto simp: deliver_counted split: outcome.split option.split dest: piece_outcome_ok)
  next
    case False
    then have "cs \<noteq> []" "length d < length body" by (auto simp: body)
    moreover from this have "deliver_all env p cs (mid_piece p body (length d) (counted 1 (length c) bt)) =
        Some (piece_outcome p index (counted (length cs) (length body - length d) (counted 1 (length c) bt)))"
      using x \<open>bt_ok bt\<close> \<open>last (c # cs) \<noteq> []\<close> body by (intro chunks_mid [OF block body_def mem]) simp_all
    ultimately show ?thesis using step False chunks c
      by (simp add: deliver_counted piece_bytes_body body body_def [symmetric] add.commute del: concat_eq_Nil_conv)
  qed
qed

section \<open>A download from one peer\<close>

definition haves :: "ptr list \<Rightarrow> u32 \<Rightarrow> (ptr \<times> byte list) list" where
  "haves qs i = map (\<lambda>q. (q, [0, 0, 0, 5, BT_HAVE] @ put_be32 i)) qs"

fun download_trace :: "ptr list \<Rightarrow> ptr \<Rightarrow> u32 \<Rightarrow> u32 list \<Rightarrow> (ptr \<times> byte list) list" where
  "download_trace qs p i [] = haves qs i"
| "download_trace qs p i (r # rs) =
     haves qs i @ [(p, request_bytes r 0 (of_nat BT_PIECE_SIZE))] @ download_trace qs p r rs"

definition idle :: "ptr \<Rightarrow> bt_request \<Rightarrow> bool" where
  "idle p bt \<longleftrightarrow> (case get_peer p bt of
     None \<Rightarrow> False
   | Some x \<Rightarrow> \<not> handshaking (pstate x) \<and> rx_len x = 0 \<and> rx_buffer x = Some [])"

lemma count_piece_ok: "bt_ok bt \<Longrightarrow> bt_ok (count_piece p bt)"
  unfolding count_piece_def by (rule bt_ok_upd_all) (auto simp: peer_ok_def)

lemma idle_count: "idle p bt \<Longrightarrow> idle p (count_piece p bt)"
  by (auto simp: idle_def count_piece_def get_peer_upd split: option.splits)

lemma count_piece_keys: "map pkey (peers (count_piece p bt)) = map pkey (peers bt)"
  by (simp add: count_piece_def upd_peer_def)

lemma count_piece_frame [simp]:
  "bt_bitmap (count_piece p bt) = bt_bitmap bt" "bt_id (count_piece p bt) = bt_id bt" "sent (count_piece p bt) = sent bt"
  "rem_pieces (count_piece p bt) = rem_pieces bt" "bstate (count_piece p bt) = bstate bt"
  by (simp_all add: count_piece_def)

lemma announce_haves: "announce i bt = bt\<lparr>sent := sent bt @ haves (map pkey (peers bt)) i\<rparr>"
  by (simp add: announce_def haves_def)

lemma idle_fields [simp]:
  "idle p (bt\<lparr>sent := s\<rparr>) = idle p bt" "idle p (bt\<lparr>bstate := st\<rparr>) = idle p bt" "idle p (bt\<lparr>rem_pieces := r\<rparr>) = idle p bt"
  "idle p (bt\<lparr>pieces_left := n\<rparr>) = idle p bt" "idle p (bt\<lparr>bt_bitmap := b\<rparr>) = idle p bt" "idle p (counted k m bt) = idle p bt"
  by (simp_all add: idle_def get_peer_def counted_def)

lemma piece_bits:
  assumes "bt_ok bt" and "unat i < unat BT_NUMOFPIECES"
  obtains bm where "bitmap_set (bt_bitmap bt) i = Some bm" "pieces_ok bm" "bits bm = insert (unat i) (bits (bt_bitmap bt))"
    "bitmap_full bm \<longleftrightarrow> insert (unat i) (bits (bt_bitmap bt)) = {..< unat BT_NUMOFPIECES}"
proof -
  have b: "bitmap_ok (bt_bitmap bt)" "blength (bt_bitmap bt) = BT_NUMOFPIECES" using assms by (auto simp: bt_ok_def pieces_ok_def)
  then obtain bm where "bitmap_set (bt_bitmap bt) i = Some bm" "bitmap_ok bm"
    "bits bm = insert (unat i) (bits (bt_bitmap bt))" "blength bm = BT_NUMOFPIECES"
    using bitmap_set_spec [of "bt_bitmap bt" i] assms(2) by (auto simp: bitmap_ok_def)
  then show ?thesis using that bitmap_full_bits [of bm] by (auto simp: pieces_ok_def)
qed

lemma bt_ok_bitmap: "bt_ok bt \<Longrightarrow> pieces_ok bm \<Longrightarrow> bt_ok (bt\<lparr>bt_bitmap := bm\<rparr>)"
  by (simp add: bt_ok_def)

lemma bt_ok_sent [simp]: "bt_ok (bt\<lparr>sent := s\<rparr>) = bt_ok bt"
  by (simp add: bt_ok_def)

lemma last_piece:
  assumes "bt_ok bt" and "unat i < unat BT_NUMOFPIECES" and "insert (unat i) (bits (bt_bitmap bt)) = {..< unat BT_NUMOFPIECES}"
  shows "\<exists>bt'. piece_outcome p i bt = Return None bt' \<and> bitmap_full (bt_bitmap bt') \<and> bstate bt' = BT_SEEDING \<and>
    rem_pieces bt' = rem_pieces bt \<and> sent bt' = sent bt @ haves (map pkey (peers bt)) i"
proof -
  obtain bm where "bitmap_set (bt_bitmap bt) i = Some bm" "bitmap_full bm"
    using piece_bits [OF assms(1,2)] assms(3) by metis
  then show ?thesis by (simp add: piece_outcome_def announce_haves count_piece_keys)
qed

lemma next_piece:
  assumes "bt_ok bt" and "idle p bt" and "unat i < unat BT_NUMOFPIECES" and "bt_id bt = 11" and "rem_pieces bt = r # rs"
    and "insert (unat i) (bits (bt_bitmap bt)) \<noteq> {..< unat BT_NUMOFPIECES}"
  shows "\<exists>bt'. piece_outcome p i bt = Return None bt' \<and> bt_ok bt' \<and> idle p bt' \<and> bt_id bt' = 11 \<and> rem_pieces bt' = rs \<and>
    bits (bt_bitmap bt') = insert (unat i) (bits (bt_bitmap bt)) \<and> map pkey (peers bt') = map pkey (peers bt) \<and>
    sent bt' = sent bt @ haves (map pkey (peers bt)) i @ [(p, request_bytes r 0 (of_nat BT_PIECE_SIZE))]"
proof -
  obtain bm where "bitmap_set (bt_bitmap bt) i = Some bm" "\<not> bitmap_full bm" "pieces_ok bm"
    "bits bm = insert (unat i) (bits (bt_bitmap bt))"
    using piece_bits [OF assms(1,3)] assms(6) by metis
  then show ?thesis using assms
    by (simp add: piece_outcome_def announce_haves count_piece_keys count_piece_ok bt_ok_bitmap idle_count)
qed

lemma deliver_piece:
  assumes "bt_ok bt" and "idle p bt" and "mem_ok env Rx_mem" and "length block = BT_PIECE_SIZE"
  shows "bt_peer_socket_deliver env p (piece_bytes i block) bt = Some (piece_outcome p i (counted 1 1037 bt))"
proof -
  obtain x where x: "get_peer p bt = Some x" "\<not> handshaking (pstate x)" "rx_len x = 0" "rx_buffer x = Some []"
    using assms(2) by (auto simp: idle_def split: option.splits)
  have "deliver_loop env p (piece_bytes i block) ([0, 0, 4, 9] @ piece_body i block) (counted 1 1037 bt) =
      Some (piece_outcome p i (counted 1 1037 bt))"
    by (subst first_step [OF assms(4) refl _ _ x(2-4) _ assms(3), where rest = "[]"])
      (use assms x piece_body_props [OF assms(4), of i] in auto)
  moreover have "length (piece_bytes i block) = 1037" using piece_body_props [OF assms(4), of i] by (simp add: piece_bytes_body)
  ultimately show ?thesis unfolding piece_bytes_body [symmetric] by (simp add: deliver_counted)
qed

lemma counted_fields [simp]:
  "bt_id (counted n m bt) = bt_id bt" "rem_pieces (counted n m bt) = rem_pieces bt" "bt_bitmap (counted n m bt) = bt_bitmap bt"
  "peers (counted n m bt) = peers bt" "sent (counted n m bt) = sent bt"
  by (simp_all add: counted_def)

lemma download_run:
  assumes "mem_ok env Rx_mem" and "\<And>j. length (block j) = BT_PIECE_SIZE"
  shows "\<lbrakk>bt_ok bt; idle p bt; bt_id bt = 11; rem_pieces bt = rest; distinct (i # rest);
     unat ` set (i # rest) = {..< unat BT_NUMOFPIECES} - bits (bt_bitmap bt); bits (bt_bitmap bt) \<subseteq> {..< unat BT_NUMOFPIECES}\<rbrakk> \<Longrightarrow>
   \<exists>bt'. deliver_all env p (map (\<lambda>j. piece_bytes j (block j)) (i # rest)) bt = Some (Return None bt') \<and>
     bitmap_full (bt_bitmap bt') \<and> bstate bt' = BT_SEEDING \<and> rem_pieces bt' = [] \<and>
     sent bt' = sent bt @ download_trace (map pkey (peers bt)) p i rest"
proof (induction rest arbitrary: i bt)
  case Nil
  have "unat i < unat BT_NUMOFPIECES" "insert (unat i) (bits (bt_bitmap bt)) = {..< unat BT_NUMOFPIECES}"
    using Nil.prems by auto
  then obtain bt' where "piece_outcome p i (counted 1 1037 bt) = Return None bt'" "bitmap_full (bt_bitmap bt')"
    "bstate bt' = BT_SEEDING" "rem_pieces bt' = rem_pieces bt" "sent bt' = sent bt @ haves (map pkey (peers bt)) i"
    using last_piece [of "counted 1 1037 bt" i p] Nil.prems(1) by auto
  then show ?case using deliver_piece [OF Nil.prems(1,2) assms] Nil.prems(4) by simp
next
  case (Cons r rs)
  have i: "unat i < unat BT_NUMOFPIECES" using Cons.prems by auto
  have "unat r \<notin> bits (bt_bitmap bt)" "unat r \<noteq> unat i" "unat r < unat BT_NUMOFPIECES"
    using Cons.prems by (auto simp flip: word_unat_eq_iff)
  then have "insert (unat i) (bits (bt_bitmap bt)) \<noteq> {..< unat BT_NUMOFPIECES}" by auto
  then obtain bt' where bt': "piece_outcome p i (counted 1 1037 bt) = Return None bt'" "bt_ok bt'" "idle p bt'" "bt_id bt' = 11"
    "rem_pieces bt' = rs" "bits (bt_bitmap bt') = insert (unat i) (bits (bt_bitmap bt))" "map pkey (peers bt') = map pkey (peers bt)"
    "sent bt' = sent bt @ haves (map pkey (peers bt)) i @ [(p, request_bytes r 0 (of_nat BT_PIECE_SIZE))]"
    using next_piece [of "counted 1 1037 bt" p i r rs] Cons.prems i by auto
  have "unat ` set (r # rs) = {..< unat BT_NUMOFPIECES} - bits (bt_bitmap bt')"
  proof -
    have "unat i \<notin> unat ` set (r # rs)" using Cons.prems(5) by (auto simp flip: word_unat_eq_iff)
    then have "unat ` set (r # rs) = unat ` set (i # r # rs) - {unat i}" by auto
    also have "\<dots> = {..< unat BT_NUMOFPIECES} - bits (bt_bitmap bt')" unfolding Cons.prems(6) bt'(6) by (rule Diff_insert [symmetric])
    finally show ?thesis .
  qed
  then obtain bt'' where "deliver_all env p (map (\<lambda>j. piece_bytes j (block j)) (r # rs)) bt' = Some (Return None bt'')"
    "bitmap_full (bt_bitmap bt'')" "bstate bt'' = BT_SEEDING" "rem_pieces bt'' = []"
    "sent bt'' = sent bt' @ download_trace (map pkey (peers bt')) p r rs"
    using Cons.IH [OF bt'(2-5), of r] Cons.prems(5,7) i bt'(6) by auto
  then show ?case using deliver_piece [OF Cons.prems(1,2) assms] bt'(1,7,8) by simp
qed

section \<open>Answering a request\<close>

lemma request_parts:
  "length (request_bytes index begin' len') = 17" "get_be32 (request_bytes index begin' len') 0 = 13"
  "request_bytes index begin' len' ! 4 = 6" "get_be32 (drop 4 (request_bytes index begin' len')) 1 = index"
proof -
  show "length (request_bytes index begin' len') = 17" "request_bytes index begin' len' ! 4 = 6"
    "get_be32 (drop 4 (request_bytes index begin' len')) 1 = index"
    by (simp_all add: request_bytes_def stored32_htonl put_be32_def get_be32_def be32_of_put)
  have "be32_of 0 0 0 13 = 13" by code_simp
  then show "get_be32 (request_bytes index begin' len') 0 = 13" by (simp add: request_bytes_def get_be32_def)
qed

lemma xmit_one:
  assumes "get_peer p bt = Some x" and "pqueue x = []" and "\<And>s. sock_window env p s \<noteq> 0"
  shows "sent (bt_peer_xmit env p (upd_peer p (pqueue_update (\<lambda>q. q @ [m])) bt)) = sent bt @ [(p, m)]"
  using assms by (simp add: bt_peer_xmit_def get_peer_upd window_def send_def)

lemma request_served:
  assumes "bt_ok bt" and y: "get_peer q bt = Some y" "\<not> handshaking (pstate y)" "rx_len y = 0" "pqueue y = []"
    and env: "\<And>s. sock_window env q s \<noteq> 0" "mem_ok env Tx_mem"
  shows "\<exists>bt'. bt_peer_socket_deliver env q (request_bytes index begin' len') bt = Some (Return None bt') \<and>
    sent bt' = sent bt @ [(q, piece_bytes index (take BT_PIECE_SIZE (heap_bytes env)))]"
proof -
  define m where "m = request_bytes index begin' len'"
  define z where "z = y\<lparr>rx_len := 13, rx_id := 6, remaining := 13\<rparr>"
  define b where "b = upd_peer q (\<lambda>_. z) (counted 1 17 bt)"
  have m: "length m = 17" "get_be32 m 0 = 13" "m ! 4 = 6" "get_be32 (drop 4 m) 1 = index" "m \<noteq> []"
    using request_parts [of index begin' len'] by (auto simp: m_def)
  have pre: "rx_prefix env y m = (z, drop 4 m, 13)"
    using m by (simp add: rx_prefix_def z_def BT_PREFIXLEN_def)
  have b: "get_peer q b = Some z" using y get_peer_key [OF y(1)] by (simp add: b_def z_def get_peer_set)
  have "deliver_round env q m m (counted 1 17 bt) = rx_request env q (drop 4 m) b"
    unfolding deliver_round_message [OF counted_simps(2) [THEN trans, OF y(1)] y(2)] rx_message_def
    using y pre m by (simp add: BT_PREFIXLEN_def z_def b_def rx_complete_def BT_HAVE_def BT_REQUEST_def)
  also have "\<dots> = Continue [] (message_done q (bt_peer_xmit env q (upd_peer q (pqueue_update (\<lambda>q. q @
      [piece_bytes index (take BT_PIECE_SIZE (heap_bytes env))])) b)))"
    using m env by (simp add: rx_request_def finish_def bt_tx_piece_def)
  finally have "bt_peer_socket_deliver env q m bt = Some (Return None (message_done q (bt_peer_xmit env q
      (upd_peer q (pqueue_update (\<lambda>q. q @ [piece_bytes index (take BT_PIECE_SIZE (heap_bytes env))])) b))))"
    using m deliver_loop_last by (simp add: deliver_counted)
  moreover have "sent b = sent bt" by (simp add: b_def)
  ultimately show ?thesis
    using xmit_one [OF b _ env(1)] y unfolding m_def by (simp add: message_done_def z_def)
qed

section \<open>Properties\<close>


text \<open>A node with the number 11 whose sockets all open; its first step connects to the node 12.\<close>

definition demo_env :: bt_env where
  "demo_env = \<lparr>sock_window = \<lambda>_ _. 1, sock_open = \<lambda>_ _. None, sock_listen = \<lambda>_. None, mem_ok = \<lambda>_. True, random = \<lambda>_. 7,
     new_peer = 64, stack_bytes = replicate 8 0, heap_bytes = replicate 1024 0, next_byte = 0, fill = \<lambda>_. 0\<rparr>"

definition demo_request :: bt_request where
  "demo_request = (case bt_open demo_env [0x31, 0x31] of Return _ (Some bt) \<Rightarrow> bt)"

lemma resize_succeeds: "\<exists>bm. bitmap_resize True fl BT_NUMOFPIECES zero_bitmap = (None, bm)"
  using bitmap_new_spec(1) [of BT_NUMOFPIECES fl]
  by (cases "bitmap_resize True fl BT_NUMOFPIECES zero_bitmap") (simp add: BT_NUMOFPIECES_def)

lemma open_succeeds:
  assumes "\<And>s. mem_ok env s" and "sock_listen env (new_uri hst) = None"
  shows "\<exists>bt. bt_open env hst = Return None (Some bt) \<and> bt_id bt = sint (fst (strtoul hst 10)) \<and> peers bt = [] \<and>
    bstate bt = BT_CONNECTING_TO_PEERS \<and> sent bt = [] \<and> rem_pieces bt = [] \<and> info_hash bt = bt_str_info_hash BT_TEST_HASH \<and>
    peerid bt = bt_generate_peerid env (bt_id bt) \<and> bt_records bt = bt_records (bt_compute_records bt)"
proof -
  obtain bm where "bitmap_resize True (fill env) BT_NUMOFPIECES zero_bitmap = (None, bm)" using resize_succeeds by blast
  then show ?thesis using assms by (simp add: bt_open_def bt_compute_records_def Let_def)
qed

lemma demo_open: "bt_open demo_env [0x31, 0x31] = Return None (Some demo_request)"
  and demo_fields: "bt_id demo_request = 11" "peers demo_request = []" "bstate demo_request = BT_CONNECTING_TO_PEERS"
  "bt_records demo_request = [\<lparr>rec_id = 12, retries = 0, connected = False\<rparr>]"
proof -
  have m: "mem_ok demo_env s" "sock_listen demo_env h = None" for s h by (simp_all add: demo_env_def)
  obtain bt where bt: "bt_open demo_env [0x31, 0x31] = Return None (Some bt)" "bt_id bt = sint (fst (strtoul [0x31, 0x31] 10))"
    "peers bt = []" "bstate bt = BT_CONNECTING_TO_PEERS" "bt_records bt = bt_records (bt_compute_records bt)"
    using open_succeeds [OF m] by blast
  then have e: "demo_request = bt" by (simp add: demo_request_def)
  have "strtoul [0x31, 0x31] 10 = (11, [])" by code_simp
  then have "bt_id bt = 11" using bt(2) by simp
  then show "bt_open demo_env [0x31, 0x31] = Return None (Some demo_request)" "bt_id demo_request = 11" "peers demo_request = []"
    "bstate demo_request = BT_CONNECTING_TO_PEERS" "bt_records demo_request = [\<lparr>rec_id = 12, retries = 0, connected = False\<rparr>]"
    using bt e by (simp_all add: bt_compute_records_def BT_MAXNUMOFPEERS_def BT_NUMOFNODES_def)
qed


text \<open>A leecher that waits for piece 0 from the peer 64 and has no piece yet.\<close>

definition demo_bitmap :: bitmap where
  "demo_bitmap = snd (bitmap_resize True (\<lambda>_. 0) BT_NUMOFPIECES zero_bitmap)"

definition demo_leecher :: bt_request where
  "demo_leecher = demo_request\<lparr>bt_bitmap := demo_bitmap, rem_pieces := map of_nat [1 ..< unat BT_NUMOFPIECES],
     peers := [\<lparr>pkey = 64, pqueue = [], pstate = BT_PEER_HANDSHAKE_RCVD, rx_len = 0, rx_id = 0, rx_buffer = Some [],
       remaining = 0, pieces_received = 0, pending_requests = 1, pbitmap = demo_bitmap, peer_no = 12\<rparr>]\<rparr>"

lemma demo_bitmap: "pieces_ok demo_bitmap" "bits demo_bitmap = {}"
proof -
  have u: "unat BT_NUMOFPIECES + 31 < 2 ^ 32" by (simp add: BT_NUMOFPIECES_def)
  show "pieces_ok demo_bitmap" "bits demo_bitmap = {}"
    using bitmap_new_spec [OF u, of "\<lambda>_. 0"] by (simp_all add: pieces_ok_def demo_bitmap_def)
qed

lemma demo_leecher:
  "bt_ok demo_leecher" "idle 64 demo_leecher" "bt_id demo_leecher = 11" "bt_bitmap demo_leecher = demo_bitmap"
  "rem_pieces demo_leecher = map of_nat [1 ..< unat BT_NUMOFPIECES]" "map pkey (peers demo_leecher) = [64]"
  "get_peer 64 demo_leecher \<noteq> None" "pqueue (the (get_peer 64 demo_leecher)) = []"
proof -
  show "bt_ok demo_leecher"
    using open_ok [OF demo_open] demo_bitmap(1) by (simp add: bt_ok_def demo_leecher_def peer_ok_def)
qed (simp_all add: demo_leecher_def demo_fields idle_def get_peer_def handshaking_def)

lemma all_pieces:
  "unat ` set (0 # map of_nat [1 ..< unat BT_NUMOFPIECES] :: u32 list) = {..< unat BT_NUMOFPIECES}"
  "distinct (0 # map of_nat [1 ..< unat BT_NUMOFPIECES] :: u32 list)"
proof -
  have small: "unat (of_nat j :: u32) = j" if "j < unat BT_NUMOFPIECES" for j
    using that unsigned_less [where ?'a = nat, of BT_NUMOFPIECES] by (simp add: unat_of_nat)
  define N where "N = unat BT_NUMOFPIECES"
  have N: "0 < N" by (simp add: N_def BT_NUMOFPIECES_def)
  have u: "0 # map of_nat [1 ..< N] = (map of_nat [0 ..< N] :: u32 list)" using N by (simp add: upt_conv_Cons)
  show "unat ` set (0 # map of_nat [1 ..< unat BT_NUMOFPIECES] :: u32 list) = {..< unat BT_NUMOFPIECES}"
    unfolding N_def [symmetric] u using small by (force simp: image_iff simp flip: N_def)
  show "distinct (0 # map of_nat [1 ..< unat BT_NUMOFPIECES] :: u32 list)"
    unfolding N_def [symmetric] u using small
    by (auto simp: distinct_map N_def [symmetric] intro!: inj_onI) (metis (no_types))
qed

text \<open>C25: what ends the receive handler.  Whatever a peer sends, the loop that consumes a received buffer ends, unless
  the peer is expected to open with a handshake and the buffer does not start with the protocol's length byte or
  carries another torrent's hash: then the loop never ends.\<close>

theorem deliver_returns_iff:
  assumes "bt_ok bt" and "get_peer p bt = Some x"
  shows "bt_peer_socket_deliver env p data bt = None \<longleftrightarrow> handshaking (pstate x) \<and> data \<noteq> [] \<and> refused data bt"
proof -
  have same: "refused data (counted 1 (length data) bt) = refused data bt" by (simp add: refused_def counted_def)
  have "good p (pstate x) (counted 1 (length data) bt)" using assms by (simp add: good_def)
  from deliver_ends [OF this, of data env] refused_loops [of p "counted 1 (length data) bt" x data env] assms
  show ?thesis unfolding deliver_counted same by force
qed

theorem deliver_returns_iff_witness:
  "bt_peer_socket_deliver demo_env 64 [0, 0, 0, 1, 2] demo_leecher \<noteq> None"
  using deliver_returns_iff [OF demo_leecher(1), of 64 "the (get_peer 64 demo_leecher)" demo_env "[0, 0, 0, 1, 2]"] demo_leecher(2,7)
  by (auto simp: idle_def split: option.splits)

text \<open>C24: a piece may arrive in any number of buffers.  For a peer between messages, a PIECE message of the protocol cut at
  any points behind the five bytes of length and type has the effect of the whole message: the bit is set, every peer
  is told, and the next piece is requested or the download ends; only the number of buffers counted differs.\<close>

theorem piece_reassembly:
  assumes "bt_ok bt" and "idle p bt" and "mem_ok env Rx_mem" and "length block = BT_PIECE_SIZE"
    and "piece_bytes index block = concat (c # cs)" and "BT_PREFIXLEN < length c" and "last (c # cs) \<noteq> []"
  shows "deliver_all env p (c # cs) bt = Some (piece_outcome p index (counted (length (c # cs)) (length (piece_bytes index block)) bt))"
proof -
  obtain x where x: "get_peer p bt = Some x" "\<not> handshaking (pstate x)" "rx_len x = 0" "rx_buffer x = Some []"
    using assms(2) by (auto simp: idle_def split: option.splits)
  show ?thesis by (rule chunks_piece [OF assms(4,3,1) x assms(5-7)])
qed

theorem piece_reassembly_witness:
  "deliver_all demo_env 64 [take 100 (piece_bytes 0 (replicate 1024 0)), [], drop 100 (piece_bytes 0 (replicate 1024 0))] demo_leecher =
     Some (piece_outcome 64 0 (counted 3 1037 demo_leecher))"
proof -
  define m where "m = piece_bytes 0 (replicate 1024 0)"
  have "length m = 1037" using piece_body_props(1) [of "replicate 1024 0" 0] by (simp add: m_def piece_bytes_body BT_PIECE_SIZE_def)
  then show ?thesis
    using piece_reassembly [OF demo_leecher(1,2), of demo_env "replicate 1024 0" 0 "take 100 m" "[[], drop 100 m]"]
    by (simp add: demo_env_def BT_PIECE_SIZE_def BT_PREFIXLEN_def m_def [symmetric] numeral_3_eq_3 del: deliver_all.simps)
qed

text \<open>C26: a request is answered by the piece it asks for.  The message a node sends with \<open>bt_tx_request\<close> makes its peer send
  one message, and that message, received by the first node, is taken as that piece.\<close>

theorem piece_exchange:
  assumes "bt_ok a" and "idle p a" and "mem_ok env Rx_mem" and "sent (bt_tx_request p index begin' len' c) = sent c @ [(p, req)]"
    and "bt_ok b" and "get_peer q b = Some y" and "\<not> handshaking (pstate y)" and "rx_len y = 0" and "pqueue y = []"
    and "\<And>s. sock_window env' q s \<noteq> 0" and "mem_ok env' Tx_mem" and "BT_PIECE_SIZE \<le> length (heap_bytes env')"
  shows "\<exists>b' m. bt_peer_socket_deliver env' q req b = Some (Return None b') \<and> sent b' = sent b @ [(q, m)] \<and>
    bt_peer_socket_deliver env p m a = Some (piece_outcome p index (counted 1 (length m) a))"
proof -
  have req: "req = request_bytes index begin' len'" using assms(4) by (simp add: bt_tx_request_def send_def)
  define m where "m = piece_bytes index (take BT_PIECE_SIZE (heap_bytes env'))"
  have block: "length (take BT_PIECE_SIZE (heap_bytes env')) = BT_PIECE_SIZE" using assms(12) by simp
  then have "length m = 1037" using piece_body_props(1) [OF block] by (simp add: m_def piece_bytes_body)
  then show ?thesis
    using request_served [OF assms(5-11), of index begin' len'] deliver_piece [OF assms(1-3) block, of index] req m_def by auto
qed

theorem piece_exchange_witness:
  "\<exists>b' m. bt_peer_socket_deliver demo_env 64 (request_bytes 5 0 1024) demo_leecher = Some (Return None b') \<and>
     sent b' = sent demo_leecher @ [(64, m)] \<and>
     bt_peer_socket_deliver demo_env 64 m demo_leecher = Some (piece_outcome 64 5 (counted 1 (length m) demo_leecher))"
proof -
  obtain y where "get_peer 64 demo_leecher = Some y" "\<not> handshaking (pstate y)" "rx_len y = 0" "pqueue y = []"
    using demo_leecher(2,8) by (auto simp: idle_def split: option.splits)
  then show ?thesis
    by (intro piece_exchange [OF demo_leecher(1,2) _ _ demo_leecher(1), where begin' = 0 and len' = 1024 and c = demo_leecher])
      (simp_all add: demo_env_def bt_tx_request_def send_def BT_PIECE_SIZE_def)
qed

text \<open>C5: a download completes.  The leecher (node 11) waits for one piece and has the other missing ones, in any order, on
  its list.  When its peer answers every request, the leecher ends with a full bitmap, an empty list and in the
  seeding state, and what it sent is exactly one HAVE per peer and piece and one request per listed piece, in
  order.\<close>

theorem download_completes:
  assumes "bt_ok bt" and "idle p bt" and "mem_ok env Rx_mem" and "\<And>j. length (block j) = BT_PIECE_SIZE"
    and "bt_id bt = 11" and "rem_pieces bt = rest" and "distinct (i # rest)"
    and "unat ` set (i # rest) = {..< unat BT_NUMOFPIECES} - bits (bt_bitmap bt)"
  shows "\<exists>bt'. deliver_all env p (map (\<lambda>j. piece_bytes j (block j)) (i # rest)) bt = Some (Return None bt') \<and>
    bitmap_full (bt_bitmap bt') \<and> bstate bt' = BT_SEEDING \<and> rem_pieces bt' = [] \<and>
    sent bt' = sent bt @ download_trace (map pkey (peers bt)) p i rest"
proof (rule download_run [OF assms(3,4,1,2,5-8)])
  show "bits (bt_bitmap bt) \<subseteq> {..< unat BT_NUMOFPIECES}"
    using bits_less [of _ "bt_bitmap bt"] assms(1) by (auto simp: bt_ok_def pieces_ok_def)
qed

theorem download_completes_witness:
  "\<exists>bt'. deliver_all demo_env 64 (map (\<lambda>j. piece_bytes j (replicate 1024 0)) (0 # map of_nat [1 ..< unat BT_NUMOFPIECES])) demo_leecher =
     Some (Return None bt') \<and> bitmap_full (bt_bitmap bt') \<and> rem_pieces bt' = []"
  using download_completes [OF demo_leecher(1,2), of demo_env "\<lambda>_. replicate 1024 0" "map of_nat [1 ..< unat BT_NUMOFPIECES]" 0]
    all_pieces demo_leecher(3-5) demo_bitmap(2)
  by (simp add: demo_env_def BT_PIECE_SIZE_def del: set_simps map_eq_Cons_conv list.map deliver_all.simps) blast
end
