(* ===== verification/Ipv4.thy ===== *)
theory Ipv4
  imports Tcp_Stream Vsprintf
begin

text \<open>
  IPv4 and ICMP (\<open>src/src/net/ipv4.c\<close>, \<open>src/src/net/icmp.c\<close>, \<open>src/src/include/ipxe/ip.h\<close>, \<open>src/src/include/ipxe/in.h\<close>) and
  the conversion of addresses to and from text (\<open>inet_aton()\<close> of \<open>src/src/core/misc.c\<close>).  A packet is the list of its bytes;
  addresses and the other header fields are kept as they are stored, in network byte order.  The network devices (open or
  not, their statistics and link-layer addresses), the result of handing a packet to the link layer or to ARP, allocation and
  the stored settings are parameters.  Handing a packet on is an entry of the log \<open>ip_sent\<close>; the transport layer, reached
  through \<open>tcpip_rx()\<close>, is an argument of \<open>ipv4_rx\<close> that works on a state of its own.
\<close>

section \<open>Constants and headers\<close>

definition IP_VER :: byte where "IP_VER = 0x40"
definition IP_MASK_VER :: byte where "IP_MASK_VER = 0xf0"
definition IP_MASK_HLEN :: byte where "IP_MASK_HLEN = 0x0f"
definition IP_MASK_OFFSET :: u16 where "IP_MASK_OFFSET = 0x1fff"
definition IP_MASK_MOREFRAGS :: u16 where "IP_MASK_MOREFRAGS = 0x2000"
definition IP_TOS :: byte where "IP_TOS = 0"
definition IP_TTL :: byte where "IP_TTL = 64"
definition IP_ICMP :: byte where "IP_ICMP = 1"
definition IP_TCP :: byte where "IP_TCP = 6"
definition IP_UDP :: byte where "IP_UDP = 17"
definition INADDR_BROADCAST :: u32 where "INADDR_BROADCAST = 0xffffffff"
definition LL_MULTICAST :: u32 where "LL_MULTICAST = 1"

definition IN_CLASSA :: "u32 \<Rightarrow> bool" where "IN_CLASSA addr \<longleftrightarrow> addr AND 0x80000000 = 0"
definition IN_CLASSB :: "u32 \<Rightarrow> bool" where "IN_CLASSB addr \<longleftrightarrow> addr AND 0xc0000000 = 0x80000000"
definition IN_CLASSC :: "u32 \<Rightarrow> bool" where "IN_CLASSC addr \<longleftrightarrow> addr AND 0xe0000000 = 0xc0000000"
definition IN_MULTICAST :: "u32 \<Rightarrow> bool" where "IN_MULTICAST addr \<longleftrightarrow> addr AND 0xf0000000 = 0xe0000000"

text \<open>The fields of \<open>struct iphdr\<close> in the bytes of a packet.\<close>

definition verhdrlen :: "byte list \<Rightarrow> byte" where "verhdrlen b = b ! 0"
definition ip_len :: "byte list \<Rightarrow> u16" where "ip_len b = field16 b 2"
definition ip_ident :: "byte list \<Rightarrow> u16" where "ip_ident b = field16 b 4"
definition ip_frags :: "byte list \<Rightarrow> u16" where "ip_frags b = field16 b 6"
definition ip_protocol :: "byte list \<Rightarrow> byte" where "ip_protocol b = b ! 9"
definition ip_src :: "byte list \<Rightarrow> u32" where "ip_src b = field32 ((!) b) 12"
definition ip_dest :: "byte list \<Rightarrow> u32" where "ip_dest b = field32 ((!) b) 16"

definition ip_hdrlen :: "byte list \<Rightarrow> nat" where
  "ip_hdrlen b = unat (verhdrlen b AND IP_MASK_HLEN) * 4"

section \<open>State\<close>

record ipv4_miniroute =
  mr_netdev :: ptr
  mr_address :: u32
  mr_netmask :: u32
  mr_gateway :: u32

record ipv4_fragment_buf =
  fr_iobuf :: "byte list"
  fr_offset :: u32
  fr_timer :: retry_timer

datatype ll_dest = Link "byte list" | Via_arp u32

record ipv4 = refs +
  next_ident_high :: byte
  miniroutes :: "ipv4_miniroute list"
  fragments :: "ipv4_fragment_buf list"
  ip_sent :: "(ptr \<times> ll_dest \<times> byte list) list"

record ip_env =
  netdev_is_open :: "ptr \<Rightarrow> bool"
  rx_bad :: "ptr \<Rightarrow> u32"
  rx_good :: "ptr \<Rightarrow> u32"
  ll_broadcast :: "ptr \<Rightarrow> byte list"
  mc_hash :: "ptr \<Rightarrow> u32 \<Rightarrow> errno + byte list"
  link_rc :: rc
  route_mem :: bool
  frag_mem :: bool
  iob_mem :: bool
  ip_now :: u32
  ip_tps :: u32

datatype ip_setting = Ip_setting | Netmask_setting | Gateway_setting

section \<open>Routing\<close>

definition add_ipv4_miniroute :: "ip_env \<Rightarrow> ptr \<Rightarrow> u32 \<Rightarrow> u32 \<Rightarrow> u32 \<Rightarrow> 'a ipv4_scheme \<Rightarrow> 'a ipv4_scheme option" where
  "add_ipv4_miniroute env netdev address netmask gateway s =
     (if \<not> route_mem env then None
      else let s = ref_get netdev s;
               miniroute = \<lparr>mr_netdev = netdev, mr_address = address, mr_netmask = netmask, mr_gateway = gateway\<rparr>
           in Some (s\<lparr>miniroutes := if gateway \<noteq> 0 then miniroutes s @ [miniroute] else miniroute # miniroutes s\<rparr>))"

definition del_ipv4_miniroute :: "ipv4_miniroute \<Rightarrow> 'a ipv4_scheme \<Rightarrow> 'a ipv4_scheme" where
  "del_ipv4_miniroute miniroute s =
     (let s = ref_put (mr_netdev miniroute) s in s\<lparr>miniroutes := remove1 miniroute (miniroutes s)\<rparr>)"

definition route_local :: "u32 \<Rightarrow> ipv4_miniroute \<Rightarrow> bool" where
  "route_local dest miniroute \<longleftrightarrow> (dest XOR mr_address miniroute) AND mr_netmask miniroute = 0"

fun ipv4_route :: "ip_env \<Rightarrow> u32 \<Rightarrow> ipv4_miniroute list \<Rightarrow> (ipv4_miniroute \<times> u32) option" where
  "ipv4_route env dest [] = None"
| "ipv4_route env dest (miniroute # rs) =
     (if \<not> netdev_is_open env (mr_netdev miniroute) then ipv4_route env dest rs
      else let local = route_local dest miniroute; has_gw = mr_gateway miniroute \<noteq> 0
           in if local \<or> has_gw then Some (miniroute, if local then dest else mr_gateway miniroute)
              else ipv4_route env dest rs)"

definition default_netmask :: "u32 \<Rightarrow> u32 \<Rightarrow> u32" where
  "default_netmask address netmask =
     (if netmask \<noteq> 0 then netmask
      else if IN_CLASSA (ntohl address) then htonl 0xff000000
      else if IN_CLASSB (ntohl address) then htonl 0xffff0000
      else if IN_CLASSC (ntohl address) then htonl 0xffffff00
      else netmask)"

fun create_loop :: "ip_env \<Rightarrow> (ptr \<Rightarrow> ip_setting \<Rightarrow> u32) \<Rightarrow> ptr list \<Rightarrow> 'a ipv4_scheme \<Rightarrow> rc \<times> 'a ipv4_scheme" where
  "create_loop env fetch [] s = (None, s)"
| "create_loop env fetch (netdev # netdevs) s =
     (let address = fetch netdev Ip_setting
      in if address = 0 then create_loop env fetch netdevs s
         else let netmask = default_netmask address (fetch netdev Netmask_setting);
                  gateway = fetch netdev Gateway_setting
              in case add_ipv4_miniroute env netdev address netmask gateway s of
                   None \<Rightarrow> (Some ENOMEM, s)
                 | Some s \<Rightarrow> create_loop env fetch netdevs s)"

definition ipv4_create_routes :: "ip_env \<Rightarrow> (ptr \<Rightarrow> ip_setting \<Rightarrow> u32) \<Rightarrow> ptr list \<Rightarrow> 'a ipv4_scheme \<Rightarrow> rc \<times> 'a ipv4_scheme" where
  "ipv4_create_routes env fetch netdevs s = create_loop env fetch netdevs (fold del_ipv4_miniroute (miniroutes s) s)"

definition ipv4_has_any_addr :: "ptr \<Rightarrow> 'a ipv4_scheme \<Rightarrow> bool" where
  "ipv4_has_any_addr netdev s = list_ex (\<lambda>r. mr_netdev r = netdev) (miniroutes s)"

definition ipv4_has_addr :: "ptr \<Rightarrow> u32 \<Rightarrow> 'a ipv4_scheme \<Rightarrow> bool" where
  "ipv4_has_addr netdev addr s = list_ex (\<lambda>r. mr_netdev r = netdev \<and> mr_address r = addr) (miniroutes s)"

definition ipv4_arp_check :: "ptr \<Rightarrow> u32 \<Rightarrow> 'a ipv4_scheme \<Rightarrow> rc" where
  "ipv4_arp_check netdev address s = (if ipv4_has_addr netdev address s then None else Some ENOENT)"

section \<open>Reassembly\<close>

definition IP_FRAG_TIMEOUT :: "ip_env \<Rightarrow> u32" where
  "IP_FRAG_TIMEOUT env = ip_tps env div 2"

definition same_datagram :: "byte list \<Rightarrow> byte list \<Rightarrow> bool" where
  "same_datagram a b \<longleftrightarrow> ip_src a = ip_src b \<and> ip_ident a = ip_ident b"

definition ipv4_fragment :: "byte list \<Rightarrow> ipv4_fragment_buf list \<Rightarrow> ipv4_fragment_buf option" where
  "ipv4_fragment iphdr frags = find (\<lambda>frag. same_datagram iphdr (fr_iobuf frag)) frags"

fun replace1 :: "'a \<Rightarrow> 'a \<Rightarrow> 'a list \<Rightarrow> 'a list" where
  "replace1 x y [] = []"
| "replace1 x y (z # zs) = (if z = x then y # zs else z # replace1 x y zs)"

definition ipv4_fragment_expired :: "ipv4_fragment_buf \<Rightarrow> 'a ipv4_scheme \<Rightarrow> 'a ipv4_scheme" where
  "ipv4_fragment_expired frag s = s\<lparr>fragments := remove1 frag (fragments s)\<rparr>"

definition frag_offset :: "byte list \<Rightarrow> u32" where
  "frag_offset b = push_bit 3 (ucast (ntohs (ip_frags b) AND IP_MASK_OFFSET))"

definition more_frags :: "byte list \<Rightarrow> bool" where
  "more_frags b \<longleftrightarrow> ip_frags b AND htons IP_MASK_MOREFRAGS \<noteq> 0"

definition set_ip_len :: "byte list \<Rightarrow> byte list" where
  "set_ip_len b = take 2 b @ stored16 (ntohs (of_nat (length b))) @ drop 4 b"

definition ipv4_reassemble :: "ip_env \<Rightarrow> byte list \<Rightarrow> 'a ipv4_scheme \<Rightarrow> byte list option \<times> 'a ipv4_scheme" where
  "ipv4_reassemble env iobuf s =
     (let frag = ipv4_fragment iobuf (fragments s);
          expected_offset = (case frag of None \<Rightarrow> 0 | Some frag \<Rightarrow> fr_offset frag)
      in if frag_offset iobuf \<noteq> expected_offset then (None, s)
         else case frag of
           None \<Rightarrow>
             if \<not> frag_mem env then (None, s)
             else let frag = \<lparr>fr_iobuf = iobuf, fr_offset = of_nat (length iobuf - ip_hdrlen iobuf),
                              fr_timer = start_fixed_fields (ip_tps env) (ip_now env) (IP_FRAG_TIMEOUT env) zero_timer\<rparr>
                  in (None, s\<lparr>fragments := frag # fragments s\<rparr>)
         | Some frag \<Rightarrow>
             if \<not> iob_mem env then (None, s)
             else let payload = drop (ip_hdrlen iobuf) iobuf;
                      new_iobuf = set_ip_len (fr_iobuf frag @ payload);
                      timer = stop_fields (ip_now env) (fr_timer frag)
                  in if \<not> more_frags iobuf then (Some new_iobuf, s\<lparr>fragments := remove1 frag (fragments s)\<rparr>)
                     else (None, s\<lparr>fragments := replace1 frag
                            \<lparr>fr_iobuf = new_iobuf, fr_offset = fr_offset frag + of_nat (length payload),
                             fr_timer = start_fixed_fields (ip_tps env) (ip_now env) (IP_FRAG_TIMEOUT env) timer\<rparr>
                            (fragments s)\<rparr>))"

section \<open>Transmission and reception\<close>

definition pseudo_header :: "byte list \<Rightarrow> byte list" where
  "pseudo_header b =
     stored32 (ip_src b) @ stored32 (ip_dest b) @ [0, ip_protocol b] @ stored16 (htons (of_nat (length b - ip_hdrlen b)))"

definition ipv4_pshdr_chksum :: "byte list \<Rightarrow> u16 \<Rightarrow> u16" where
  "ipv4_pshdr_chksum b csum = tcpip_continue_chksum csum (pseudo_header b)"

definition iphdr_bytes :: "u16 \<Rightarrow> u16 \<Rightarrow> byte \<Rightarrow> u16 \<Rightarrow> u32 \<Rightarrow> u32 \<Rightarrow> byte list" where
  "iphdr_bytes len' ident proto chksum src dest =
     [IP_VER OR 5, IP_TOS] @ stored16 len' @ stored16 ident @ stored16 0 @ [IP_TTL, proto] @ stored16 chksum @
     stored32 src @ stored32 dest"

text \<open>\<open>trans_csum\<close> points into the segment: it is the offset of the checksum there.\<close>

definition complete_csum :: "byte list \<Rightarrow> nat option \<Rightarrow> byte list \<Rightarrow> byte list" where
  "complete_csum header trans_csum segment =
     (case trans_csum of
        None \<Rightarrow> segment
      | Some i \<Rightarrow> take i segment @ stored16 (ipv4_pshdr_chksum (header @ segment) (field16 segment i)) @ drop (i + 2) segment)"

definition ipv4_tx :: "ip_env \<Rightarrow> byte \<Rightarrow> u32 option \<Rightarrow> u32 \<Rightarrow> ptr \<Rightarrow> nat option \<Rightarrow> byte list \<Rightarrow> 'a ipv4_scheme \<Rightarrow> rc \<times> 'a ipv4_scheme" where
  "ipv4_tx env proto sin_src sin_dest netdev trans_csum segment s =
     (let src = (case sin_src of None \<Rightarrow> 0 | Some a \<Rightarrow> a);
          route = (if sin_dest \<noteq> INADDR_BROADCAST \<and> \<not> IN_MULTICAST (ntohl sin_dest)
                   then ipv4_route env sin_dest (miniroutes s) else None);
          (src, netmask, netdev, next_hop) =
            (case route of
               None \<Rightarrow> (src, 0, netdev, sin_dest)
             | Some (miniroute, next_hop) \<Rightarrow> (mr_address miniroute, mr_netmask miniroute, mr_netdev miniroute, next_hop))
      in if netdev = NULL then (Some ENETUNREACH, s)
         else
           let s = s\<lparr>next_ident_high := next_ident_high s + 1\<rparr>;
               ident = htons (push_bit 8 (ucast (next_ident_high s)) OR push_bit 4 (ucast (rx_bad env netdev) AND 0xf) OR
                              (ucast (rx_good env netdev) AND 0xf));
               header = iphdr_bytes (htons (of_nat (20 + length segment))) ident proto 0 src sin_dest;
               segment = complete_csum header trans_csum segment;
               packet = iphdr_bytes (htons (of_nat (20 + length segment))) ident proto (tcpip_chksum header) src sin_dest @ segment
           in if (next_hop XOR INADDR_BROADCAST) AND NOT netmask = 0
              then (link_rc env, s\<lparr>ip_sent := ip_sent s @ [(netdev, Link (ll_broadcast env netdev), packet)]\<rparr>)
              else if IN_MULTICAST (ntohl next_hop)
              then case mc_hash env netdev next_hop of
                     Inl rc \<Rightarrow> (Some rc, s)
                   | Inr ll_dest \<Rightarrow> (link_rc env, s\<lparr>ip_sent := ip_sent s @ [(netdev, Link ll_dest, packet)]\<rparr>)
              else (link_rc env, s\<lparr>ip_sent := ip_sent s @ [(netdev, Via_arp next_hop, packet)]\<rparr>))"

definition ip_header_ok :: "byte list \<Rightarrow> bool" where
  "ip_header_ok b \<longleftrightarrow>
     \<not> length b < 20 \<and> verhdrlen b AND IP_MASK_VER = IP_VER \<and> \<not> ip_hdrlen b < 20 \<and> \<not> ip_hdrlen b > length b \<and>
     tcpip_chksum (take (ip_hdrlen b) b) = 0 \<and> \<not> unat (ntohs (ip_len b)) < ip_hdrlen b \<and> \<not> unat (ntohs (ip_len b)) > length b"

definition ip_deliver :: "(byte \<Rightarrow> u32 \<Rightarrow> u32 \<Rightarrow> u16 \<Rightarrow> byte list \<Rightarrow> 't \<Rightarrow> rc \<times> 't) \<Rightarrow> byte list \<Rightarrow> 't \<Rightarrow> rc \<times> 't" where
  "ip_deliver rx_trans b t =
     rx_trans (ip_protocol b) (ip_src b) (ip_dest b) (ipv4_pshdr_chksum b TCPIP_EMPTY_CSUM) (drop (ip_hdrlen b) b) t"

definition ipv4_rx :: "ip_env \<Rightarrow> (byte \<Rightarrow> u32 \<Rightarrow> u32 \<Rightarrow> u16 \<Rightarrow> byte list \<Rightarrow> 't \<Rightarrow> rc \<times> 't) \<Rightarrow> ptr \<Rightarrow> u32 \<Rightarrow> byte list \<Rightarrow>
    'a ipv4_scheme \<times> 't \<Rightarrow> rc \<times> 'a ipv4_scheme \<times> 't" where
  "ipv4_rx env rx_trans netdev flags iobuf = (\<lambda>(s, t).
     (if \<not> ip_header_ok iobuf then (Some EINVAL, s, t)
      else
        let iobuf = take (unat (ntohs (ip_len iobuf))) iobuf
        in if flags AND LL_MULTICAST = 0 \<and> ipv4_has_any_addr netdev s \<and> \<not> ipv4_has_addr netdev (ip_dest iobuf) s
           then (Some EINVAL, s, t)
           else if ip_frags iobuf AND htons (IP_MASK_OFFSET OR IP_MASK_MOREFRAGS) \<noteq> 0
           then case ipv4_reassemble env iobuf s of
                  (None, s) \<Rightarrow> (None, s, t)
                | (Some iobuf, s) \<Rightarrow> (case ip_deliver rx_trans iobuf t of (rc, t) \<Rightarrow> (rc, s, t))
           else case ip_deliver rx_trans iobuf t of (rc, t) \<Rightarrow> (rc, s, t)))"

section \<open>ICMP\<close>

text \<open>The reply is handed to \<open>tcpip_tx()\<close>, an argument, with source and destination exchanged.\<close>

definition icmp_rx :: "(byte \<Rightarrow> u32 \<Rightarrow> u32 \<Rightarrow> byte list \<Rightarrow> 't \<Rightarrow> rc \<times> 't) \<Rightarrow> u32 \<Rightarrow> u32 \<Rightarrow> byte list \<Rightarrow> 't \<Rightarrow> rc \<times> 't" where
  "icmp_rx tx st_src st_dest iobuf t =
     (if length iobuf < 4 then (Some EINVAL, t)
      else if tcpip_chksum iobuf \<noteq> 0 then (Some EINVAL, t)
      else if iobuf ! 0 \<noteq> 8 then (None, t)
      else let reply = [0, iobuf ! 1, 0, 0] @ drop 4 iobuf;
               reply = take 2 reply @ stored16 (tcpip_chksum reply) @ drop 4 reply
           in tx IP_ICMP st_dest st_src reply t)"

section \<open>Addresses as text\<close>

text \<open>The format is \<open>%d.%d.%d.%d\<close>; the buffer of 16 bytes is large enough for every address.\<close>

definition inet_ntoa :: "u32 \<Rightarrow> byte list option" where
  "inet_ntoa a =
     (let bytes = stored32 a
      in vcprintf [0x25, 0x64, 0x2e, 0x25, 0x64, 0x2e, 0x25, 0x64, 0x2e, 0x25, 0x64]
           [Int32 (ucast (bytes ! 0)), Int32 (ucast (bytes ! 1)), Int32 (ucast (bytes ! 2)), Int32 (ucast (bytes ! 3))])"

definition ipv4_ntoa :: "u32 \<Rightarrow> byte list option" where
  "ipv4_ntoa net_addr = inet_ntoa net_addr"

fun aton_loop :: "nat \<Rightarrow> u32 \<Rightarrow> byte list \<Rightarrow> u32 option" where
  "aton_loop 0 ip p = (if p = [] then Some (htonl ip) else None)"
| "aton_loop (Suc n) ip p =
     (case strtoul p 10 of
        (val, p') \<Rightarrow>
          if p' = p \<or> val > 255 then None
          else if n > 0 \<and> char_at p' \<noteq> 0x2e then None
          else aton_loop n (push_bit 8 ip OR val) (if n > 0 then tl p' else p'))"

definition inet_aton :: "byte list \<Rightarrow> u32 option" where
  "inet_aton cp = aton_loop 4 0 cp"


section \<open>Reassembly: lemmas\<close>

definition ip_payload :: "byte list \<Rightarrow> byte list" where
  "ip_payload b = drop (ip_hdrlen b) b"

definition frags_ok :: "ipv4_fragment_buf list \<Rightarrow> bool" where
  "frags_ok fs = list_all (\<lambda>f. 20 \<le> length (fr_iobuf f)) fs"

fun reassemble_all :: "ip_env \<Rightarrow> byte list list \<Rightarrow> 'a ipv4_scheme \<Rightarrow> byte list option list \<times> 'a ipv4_scheme" where
  "reassemble_all env [] s = ([], s)"
| "reassemble_all env (b # bs) s =
     (case ipv4_reassemble env b s of (r, s) \<Rightarrow> apfst (Cons r) (reassemble_all env bs s))"

text \<open>The fragments behind the first: consecutive offsets, and only the last one without the mark for more.\<close>

fun continues :: "u32 \<Rightarrow> byte list list \<Rightarrow> bool" where
  "continues ofs [] = True"
| "continues ofs (b # bs) \<longleftrightarrow> frag_offset b = ofs \<and> (more_frags b \<longleftrightarrow> bs \<noteq> []) \<and> continues (ofs + of_nat (length (ip_payload b))) bs"

definition fragmented :: "byte list list \<Rightarrow> bool" where
  "fragmented fs \<longleftrightarrow> (case fs of
     b # c # cs \<Rightarrow> frag_offset b = 0 \<and> more_frags b \<and> continues (of_nat (length (ip_payload b))) (c # cs)
   | _ \<Rightarrow> False)"

lemma length_set_ip_len: "4 \<le> length b \<Longrightarrow> length (set_ip_len b) = length b"
  by (simp add: set_ip_len_def stored16_def)

lemma set_ip_len_nth: "4 \<le> length b \<Longrightarrow> i < 2 \<or> 4 \<le> i \<Longrightarrow> set_ip_len b ! i = b ! i"
proof (elim disjE)
  assume "4 \<le> length b" "4 \<le> i"
  moreover from this have "\<not> i < 2" "\<not> i - 2 < 2" "4 + (i - 2 - 2) = i" by auto
  ultimately show ?thesis by (simp add: set_ip_len_def nth_append min_def)
qed (simp add: set_ip_len_def nth_append)

lemma set_ip_len_append: "4 \<le> length a \<Longrightarrow> set_ip_len (set_ip_len a @ p) = set_ip_len (a @ p)"
  by (simp add: set_ip_len_def stored16_def)

lemma set_ip_len_fields:
  assumes "20 \<le> length b"
  shows "ip_src (set_ip_len (b @ p)) = ip_src b" "ip_ident (set_ip_len (b @ p)) = ip_ident b"
  using assms by (simp_all add: ip_src_def ip_ident_def field32_def field16_def set_ip_len_nth nth_append)

lemma same_datagram_extend:
  "20 \<le> length a \<Longrightarrow> same_datagram k (set_ip_len (a @ p)) \<longleftrightarrow> same_datagram k a"
  by (simp add: same_datagram_def set_ip_len_fields)

lemma same_datagram_trans: "same_datagram a b \<Longrightarrow> same_datagram b c \<longleftrightarrow> same_datagram a c"
  by (auto simp: same_datagram_def)

lemma find_remove1: "\<not> P x \<Longrightarrow> find P (remove1 x xs) = find P xs"
  by (induction xs) auto

lemma find_replace1: "\<not> P x \<Longrightarrow> \<not> P y \<Longrightarrow> find P (replace1 x y xs) = find P xs"
  by (induction xs) auto

lemma find_replace1_same: "find P xs = Some x \<Longrightarrow> P y \<Longrightarrow> find P (replace1 x y xs) = Some y"
  by (induction xs) (auto split: if_splits)

lemma find_set: "find P xs = Some x \<Longrightarrow> x \<in> set xs \<and> P x"
  by (induction xs) (auto split: if_splits)

lemma list_all_replace1: "list_all P xs \<Longrightarrow> P y \<Longrightarrow> list_all P (replace1 x y xs)"
  by (induction xs) auto

lemma list_all_remove1: "list_all P xs \<Longrightarrow> list_all P (remove1 x xs)"
  by (induction xs) auto

text \<open>What one fragment does to the buffers: its own datagram, and any other one.\<close>

lemma reassemble_ok:
  assumes "frags_ok (fragments s)" and "20 \<le> length b"
  shows "frags_ok (fragments (snd (ipv4_reassemble env b s)))"
proof (cases "ipv4_fragment b (fragments s)")
  case None
  with assms show ?thesis by (simp add: ipv4_reassemble_def frags_ok_def)
next
  case (Some f)
  then have "f \<in> set (fragments s)" by (auto simp: ipv4_fragment_def dest: find_set)
  then have "20 \<le> length (fr_iobuf f)" using assms(1) by (auto simp: frags_ok_def list_all_iff)
  then show ?thesis
    using Some assms(1) by (simp add: ipv4_reassemble_def Let_def frags_ok_def list_all_replace1 list_all_remove1 length_set_ip_len)
qed

lemma reassemble_other:
  assumes "frags_ok (fragments s)" and "\<not> same_datagram k b"
  shows "ipv4_fragment k (fragments (snd (ipv4_reassemble env b s))) = ipv4_fragment k (fragments s)"
proof (cases "ipv4_fragment b (fragments s)")
  case None
  with assms show ?thesis by (simp add: ipv4_reassemble_def ipv4_fragment_def)
next
  case (Some f)
  then have f: "f \<in> set (fragments s)" "same_datagram b (fr_iobuf f)" by (auto simp: ipv4_fragment_def dest: find_set)
  then have "20 \<le> length (fr_iobuf f)" using assms(1) by (auto simp: frags_ok_def list_all_iff)
  moreover have "\<not> same_datagram k (fr_iobuf f)" using f(2) assms(2) by (auto simp: same_datagram_def)
  ultimately show ?thesis
    using Some by (simp add: ipv4_reassemble_def Let_def ipv4_fragment_def find_remove1 find_replace1 same_datagram_extend)
qed

lemma reassemble_next:
  assumes "frags_ok (fragments s)" and f: "ipv4_fragment b (fragments s) = Some f" and "fr_offset f = frag_offset b" and "iob_mem env"
  defines "new \<equiv> set_ip_len (fr_iobuf f @ ip_payload b)"
  shows "if more_frags b
    then \<exists>s' f'. ipv4_reassemble env b s = (None, s') \<and> ipv4_fragment b (fragments s') = Some f' \<and> fr_iobuf f' = new \<and>
      fr_offset f' = fr_offset f + of_nat (length (ip_payload b))
    else \<exists>s'. ipv4_reassemble env b s = (Some new, s')"
proof -
  have m: "f \<in> set (fragments s)" "same_datagram b (fr_iobuf f)" using f by (auto simp: ipv4_fragment_def dest: find_set)
  then have "20 \<le> length (fr_iobuf f)" using assms(1) by (auto simp: frags_ok_def list_all_iff)
  then have "same_datagram b new" using m(2) by (simp add: new_def same_datagram_extend)
  then show ?thesis
    using assms f by (auto simp: ipv4_reassemble_def Let_def ip_payload_def ipv4_fragment_def new_def find_replace1_same)
qed

lemma reassemble_first:
  assumes "ipv4_fragment b (fragments s) = None" and "frag_offset b = 0" and "frag_mem env"
  shows "\<exists>s' f'. ipv4_reassemble env b s = (None, s') \<and> ipv4_fragment b (fragments s') = Some f' \<and> fr_iobuf f' = b \<and>
    fr_offset f' = of_nat (length (ip_payload b))"
  using assms by (simp add: ipv4_reassemble_def Let_def ipv4_fragment_def ip_payload_def same_datagram_def)

text \<open>The results for one datagram when fragments of others arrive in between.\<close>

definition results :: "byte list \<Rightarrow> byte list list \<Rightarrow> byte list option list \<Rightarrow> byte list option list" where
  "results k xs rs = map snd (filter (\<lambda>(x, r). same_datagram k x) (zip xs rs))"

lemma results_Cons [simp]: "results k (x # xs) (r # rs) = (if same_datagram k x then r # results k xs rs else results k xs rs)"
  by (simp add: results_def)

lemma results_Nil [simp]: "results k [] rs = []"
  by (simp add: results_def)

lemma none_left: "filter (same_datagram k) xs = [] \<Longrightarrow> results k xs rs = []"
proof (induction xs arbitrary: rs)
  case (Cons x xs)
  then show ?case by (cases rs) (auto simp: results_def split: if_splits)
qed simp

lemma reassemble_rest:
  assumes "iob_mem env"
  shows "\<lbrakk>frags_ok (fragments s); list_all (\<lambda>x. 20 \<le> length x) xs; ipv4_fragment k (fragments s) = Some f;
    filter (same_datagram k) xs = c # cs; continues (fr_offset f) (c # cs)\<rbrakk> \<Longrightarrow>
    results k xs (fst (reassemble_all env xs s)) =
      replicate (length cs) None @ [Some (set_ip_len (fr_iobuf f @ concat (map ip_payload (c # cs))))]"
proof (induction xs arbitrary: s f c cs)
  case (Cons x xs)
  obtain r s' where r: "ipv4_reassemble env x s = (r, s')" by fastforce
  have ok: "frags_ok (fragments s')" using reassemble_ok [of s x env] Cons.prems r by simp
  show ?case
  proof (cases "same_datagram k x")
    case False
    then have "ipv4_fragment k (fragments s') = Some f" using reassemble_other [of s k x env] Cons.prems r by simp
    then show ?thesis using Cons.IH [OF ok _ _ _ Cons.prems(5)] Cons.prems False r by simp
  next
    case True
    have fr: "ipv4_fragment k fs = ipv4_fragment x fs" for fs
      using True by (simp add: ipv4_fragment_def same_datagram_def)
    have c: "x = c" "filter (same_datagram k) xs = cs" using Cons.prems(4) True by auto
    have off: "fr_offset f = frag_offset x" and f: "ipv4_fragment x (fragments s) = Some f" using Cons.prems c fr by auto
    note step = reassemble_next [OF Cons.prems(1) f off assms]
    show ?thesis
    proof (cases cs)
      case Nil
      then have "\<not> more_frags x" using Cons.prems(5) c by simp
      then obtain s'' where "ipv4_reassemble env x s = (Some (set_ip_len (fr_iobuf f @ ip_payload x)), s'')" using step by auto
      then show ?thesis using True Nil c none_left [of k xs] by simp
    next
      case (Cons d ds)
      then have "more_frags x" using Cons.prems(5) c by simp
      then obtain f' where f': "r = None" "ipv4_fragment k (fragments s') = Some f'"
        "fr_iobuf f' = set_ip_len (fr_iobuf f @ ip_payload x)" "fr_offset f' = fr_offset f + of_nat (length (ip_payload x))"
        using step r fr by auto
      have "4 \<le> length (fr_iobuf f)"
        using f Cons.prems(1) find_set by (fastforce simp: ipv4_fragment_def frags_ok_def list_all_iff)
      then have "set_ip_len (fr_iobuf f' @ p) = set_ip_len (fr_iobuf f @ ip_payload x @ p)" for p
        using f' by (simp add: set_ip_len_append)
      then show ?thesis
        using Cons.IH [OF ok _ f'(2), of d ds] Cons.prems c True r f' Cons by simp
    qed
  qed
qed simp

lemma reassemble_start:
  assumes "frag_mem env" and "iob_mem env"
  shows "\<lbrakk>frags_ok (fragments s); list_all (\<lambda>x. 20 \<le> length x) xs; ipv4_fragment k (fragments s) = None;
    filter (same_datagram k) xs = b # c # cs; frag_offset b = 0; continues (of_nat (length (ip_payload b))) (c # cs)\<rbrakk> \<Longrightarrow>
    results k xs (fst (reassemble_all env xs s)) =
      replicate (Suc (length cs)) None @ [Some (set_ip_len (b @ concat (map ip_payload (c # cs))))]"
proof (induction xs arbitrary: s)
  case (Cons x xs)
  obtain r s' where r: "ipv4_reassemble env x s = (r, s')" by fastforce
  have ok: "frags_ok (fragments s')" using reassemble_ok [of s x env] Cons.prems r by simp
  show ?case
  proof (cases "same_datagram k x")
    case False
    then have "ipv4_fragment k (fragments s') = None" using reassemble_other [of s k x env] Cons.prems r by simp
    then show ?thesis using Cons.IH [OF ok] Cons.prems False r by simp
  next
    case True
    have fr: "ipv4_fragment k fs = ipv4_fragment x fs" for fs
      using True by (simp add: ipv4_fragment_def same_datagram_def)
    have x: "x = b" "filter (same_datagram k) xs = c # cs" using Cons.prems(4) True by auto
    obtain f' where f': "r = None" "ipv4_fragment k (fragments s') = Some f'" "fr_iobuf f' = x"
      "fr_offset f' = of_nat (length (ip_payload x))"
      using reassemble_first [of x s env] assms(1) Cons.prems x fr r by auto
    then have "results k xs (fst (reassemble_all env xs s')) =
        replicate (length cs) None @ [Some (set_ip_len (fr_iobuf f' @ concat (map ip_payload (c # cs))))]"
      using reassemble_rest [OF assms(2) ok _ f'(2) x(2)] Cons.prems x by simp
    then show ?thesis using True r f' x by simp
  qed
qed simp

section \<open>Headers: lemmas\<close>

lemma join16: "ucast (ucast x :: byte) OR push_bit 8 (ucast (ucast (drop_bit 8 x) :: byte)) = (x :: u16)"
  using load16_stored [of x "[]"] by (simp add: field16_def stored16_def)

lemma join32: "ucast (ucast x :: byte) OR push_bit 8 (ucast (ucast (drop_bit 8 x) :: byte)) OR
    push_bit 16 (ucast (ucast (drop_bit 16 x) :: byte)) OR push_bit 24 (ucast (ucast (drop_bit 24 x) :: byte)) = (x :: u32)"
  using load32_stored [of x "[]"] by (simp add: field32_def stored32_def)

lemma iphdr_fields:
  "verhdrlen (iphdr_bytes l ident proto csum src dest @ b) = 0x45" "ip_len (iphdr_bytes l ident proto csum src dest @ b) = l"
  "ip_ident (iphdr_bytes l ident proto csum src dest @ b) = ident" "ip_frags (iphdr_bytes l ident proto csum src dest @ b) = 0"
  "ip_protocol (iphdr_bytes l ident proto csum src dest @ b) = proto" "ip_src (iphdr_bytes l ident proto csum src dest @ b) = src"
  "ip_dest (iphdr_bytes l ident proto csum src dest @ b) = dest" "ip_hdrlen (iphdr_bytes l ident proto csum src dest @ b) = 20"
  "length (iphdr_bytes l ident proto csum src dest) = 20"
proof -
  have v: "IP_VER OR 5 = 0x45" by (simp add: IP_VER_def)
  then show "verhdrlen (iphdr_bytes l ident proto csum src dest @ b) = 0x45" by (simp add: verhdrlen_def iphdr_bytes_def)
  then show "ip_hdrlen (iphdr_bytes l ident proto csum src dest @ b) = 20" by (simp add: ip_hdrlen_def IP_MASK_HLEN_def)
qed (simp_all add: ip_len_def ip_ident_def ip_frags_def ip_protocol_def ip_src_def ip_dest_def iphdr_bytes_def stored16_def
      stored32_def field16_def field32_def join16 join32)

lemma iphdr_chksum:
  "csum = tcpip_chksum (iphdr_bytes l ident proto 0 src dest) \<Longrightarrow> tcpip_chksum (iphdr_bytes l ident proto csum src dest) = 0"
proof -
  define a where "a = [IP_VER OR 5, IP_TOS] @ stored16 l @ stored16 ident @ stored16 0 @ [IP_TTL, proto]"
  have e: "iphdr_bytes l ident proto c src dest = a @ stored16 c @ (stored32 src @ stored32 dest)" for c
    by (simp add: iphdr_bytes_def a_def)
  have "even (length a)" by (simp add: a_def)
  moreover have "stored16 0 = [0, 0]" by (simp add: stored16_def)
  moreover assume "csum = tcpip_chksum (iphdr_bytes l ident proto 0 src dest)"
  ultimately show ?thesis unfolding e tcpip_chksum_def using chksum_verify [of a csum TCPIP_EMPTY_CSUM] by simp
qed

lemma ip_header_ok_built:
  assumes "length b + 20 < 65536" and "csum = tcpip_chksum (iphdr_bytes (htons (of_nat (20 + length b))) ident proto 0 src dest)"
  shows "ip_header_ok (iphdr_bytes (htons (of_nat (20 + length b))) ident proto csum src dest @ b @ pad)"
    "unat (ntohs (ip_len (iphdr_bytes (htons (of_nat (20 + length b))) ident proto csum src dest @ b @ pad))) = 20 + length b"
proof -
  have "unat (of_nat (20 + length b) :: u16) = 20 + length b" using assms(1) by (simp only: unat_of_nat) simp
  then show l: "unat (ntohs (ip_len (iphdr_bytes (htons (of_nat (20 + length b))) ident proto csum src dest @ b @ pad))) = 20 + length b"
    by (simp add: iphdr_fields)
  show "ip_header_ok (iphdr_bytes (htons (of_nat (20 + length b))) ident proto csum src dest @ b @ pad)"
    using iphdr_chksum [OF assms(2)] l
    by (simp add: ip_header_ok_def iphdr_fields IP_MASK_VER_def IP_VER_def)
qed

section \<open>From one node to another: lemmas\<close>

definition ip_packet :: "u16 \<Rightarrow> byte \<Rightarrow> u32 \<Rightarrow> u32 \<Rightarrow> byte list \<Rightarrow> byte list" where
  "ip_packet ident proto src dest seg =
     (let header = iphdr_bytes (htons (of_nat (20 + length seg))) ident proto in header (tcpip_chksum (header 0 src dest)) src dest @ seg)"

lemma length_complete: "i + 2 \<le> length seg \<Longrightarrow> length (complete_csum h (Some i) seg) = length seg"
  by (simp add: complete_csum_def)

text \<open>The source address of a packet: that of the route's interface, if there is a route.\<close>

definition ipv4_source :: "ip_env \<Rightarrow> 'a ipv4_scheme \<Rightarrow> u32 option \<Rightarrow> u32 \<Rightarrow> u32" where
  "ipv4_source env s sin_src dest =
     (case (if dest \<noteq> INADDR_BROADCAST \<and> \<not> IN_MULTICAST (ntohl dest) then ipv4_route env dest (miniroutes s) else None) of
        None \<Rightarrow> (case sin_src of None \<Rightarrow> 0 | Some a \<Rightarrow> a)
      | Some (miniroute, next_hop) \<Rightarrow> mr_address miniroute)"

lemma ipv4_tx_sends:
  assumes "ip_sent (snd (ipv4_tx env proto sin_src dest netdev (Some i) seg s)) \<noteq> ip_sent s" and "i + 2 \<le> length seg"
  shows "\<exists>ident src nd ll h. ip_sent (snd (ipv4_tx env proto sin_src dest netdev (Some i) seg s)) =
      ip_sent s @ [(nd, ll, ip_packet ident proto src dest (complete_csum h (Some i) seg))] \<and>
    h = iphdr_bytes (htons (of_nat (20 + length seg))) ident proto 0 src dest \<and> src = ipv4_source env s sin_src dest"
proof -
  define R where "R = (case (if dest \<noteq> INADDR_BROADCAST \<and> \<not> IN_MULTICAST (ntohl dest)
        then ipv4_route env dest (miniroutes s) else None) of
      None \<Rightarrow> (case sin_src of None \<Rightarrow> 0 | Some a \<Rightarrow> a, 0, netdev, dest)
    | Some (miniroute, next_hop) \<Rightarrow> (mr_address miniroute, mr_netmask miniroute, mr_netdev miniroute, next_hop))"
  obtain src netmask nd next_hop where r: "R = (src, netmask, nd, next_hop)" by (rule prod_cases4)
  define ident where "ident = htons (push_bit 8 (ucast (next_ident_high s + 1)) OR push_bit 4 (ucast (rx_bad env nd) AND 0xf) OR
    (ucast (rx_good env nd) AND 0xf))"
  define h where "h = iphdr_bytes (htons (of_nat (20 + length seg))) ident proto 0 src dest"
  define P where "P = ip_packet ident proto src dest (complete_csum h (Some i) seg)"
  define S where "S ll = s\<lparr>next_ident_high := next_ident_high s + 1, ip_sent := ip_sent s @ [(nd, ll, P)]\<rparr>" for ll
  have "ipv4_tx env proto sin_src dest netdev (Some i) seg s =
      (if nd = NULL then (Some ENETUNREACH, s)
       else if (next_hop XOR INADDR_BROADCAST) AND NOT netmask = 0 then (link_rc env, S (Link (ll_broadcast env nd)))
       else if IN_MULTICAST (ntohl next_hop)
       then case mc_hash env nd next_hop of Inl rc \<Rightarrow> (Some rc, s\<lparr>next_ident_high := next_ident_high s + 1\<rparr>) | Inr ll \<Rightarrow> (link_rc env, S (Link ll))
       else (link_rc env, S (Via_arp next_hop)))"
    unfolding ipv4_tx_def Let_def R_def [symmetric] r prod.case S_def P_def ip_packet_def length_complete [OF assms(2)] h_def ident_def
    by (simp split: sum.split)
  then have "\<exists>ll. ip_sent (snd (ipv4_tx env proto sin_src dest netdev (Some i) seg s)) = ip_sent s @ [(nd, ll, P)]"
    using assms(1) by (auto simp: S_def split: if_splits sum.splits)
  moreover have "src = ipv4_source env s sin_src dest"
    using r by (auto simp: R_def ipv4_source_def split: option.splits prod.splits if_splits)
  ultimately show ?thesis unfolding P_def h_def by blast
qed

lemma pseudo_header_eq:
  assumes "ip_src a = ip_src b" "ip_dest a = ip_dest b" "ip_protocol a = ip_protocol b" "length a - ip_hdrlen a = length b - ip_hdrlen b"
  shows "pseudo_header a = pseudo_header b"
  using assms by (simp add: pseudo_header_def)

lemma packet_pseudo: "pseudo_header (iphdr_bytes l ident proto c src dest @ seg) =
    stored32 src @ stored32 dest @ [0, proto] @ stored16 (htons (of_nat (length seg)))"
  by (simp add: pseudo_header_def iphdr_fields)

lemma complete_transport:
  assumes "even (length a)" and seg: "seg = a @ stored16 (tcpip_chksum (a @ [0, 0] @ b)) @ b"
    and h: "h = iphdr_bytes l ident proto 0 src dest"
  shows "\<exists>c. complete_csum h (Some (length a)) seg = a @ stored16 c @ b \<and>
    tcpip_continue_chksum (ipv4_pshdr_chksum (ip_packet ident proto src dest (a @ stored16 c @ b)) TCPIP_EMPTY_CSUM) (a @ stored16 c @ b) = 0"
proof -
  define ps where "ps = stored32 src @ stored32 dest @ [0, proto] @ stored16 (htons (of_nat (length seg)))"
  define c where "c = tcpip_continue_chksum (tcpip_chksum (a @ [0, 0] @ b)) ps"
  have "field16 seg (length a) = tcpip_chksum (a @ [0, 0] @ b)"
    unfolding seg by (simp add: field16_def nth_append stored16_def join16)
  then have "complete_csum h (Some (length a)) seg = a @ stored16 c @ b"
    by (simp add: complete_csum_def ipv4_pshdr_chksum_def h packet_pseudo c_def ps_def seg)
  moreover have "tcpip_continue_chksum (tcpip_chksum ps) (a @ stored16 c @ b) = 0"
    using generic_checksum.end_to_end [OF assms(1), of c TCPIP_EMPTY_CSUM b ps] by (simp add: c_def tcpip_chksum_def)
  moreover have "ipv4_pshdr_chksum (ip_packet ident proto src dest (a @ stored16 c @ b)) TCPIP_EMPTY_CSUM = tcpip_chksum ps"
    by (simp add: ipv4_pshdr_chksum_def ip_packet_def packet_pseudo ps_def tcpip_chksum_def seg Let_def)
  ultimately show ?thesis by auto
qed

lemma ipv4_rx_packet:
  assumes "20 + length seg < 65536" and "ipv4_has_any_addr netdev s \<longrightarrow> ipv4_has_addr netdev dest s"
  shows "ipv4_rx env rx netdev flags (ip_packet ident proto src dest seg @ pad) (s, t) =
    (case rx proto src dest (ipv4_pshdr_chksum (ip_packet ident proto src dest seg) TCPIP_EMPTY_CSUM) seg t of (rc, t) \<Rightarrow> (rc, s, t))"
proof -
  define p where "p = ip_packet ident proto src dest seg"
  have ok: "ip_header_ok (p @ pad)" "unat (ntohs (ip_len (p @ pad))) = 20 + length seg"
    using ip_header_ok_built [of seg _ ident proto src dest pad] assms(1) by (simp_all add: p_def ip_packet_def Let_def)
  have p: "length p = 20 + length seg" "ip_dest p = dest" "ip_frags p = 0" "ip_protocol p = proto" "ip_src p = src"
    "drop (ip_hdrlen p) p = seg"
    by (simp_all add: p_def ip_packet_def Let_def iphdr_fields)
  then show ?thesis using ok assms(2) by (auto simp: ipv4_rx_def ip_deliver_def Let_def simp flip: p_def)
qed

section \<open>Addresses as text: lemmas\<close>

lemma dec_loop_append: "dec_loop n p @ q = dec_loop n (p @ q)"
proof (induction n p rule: dec_loop.induct)
  case (1 n p)
  then show ?case by (simp add: dec_loop.simps [of n] Let_def)
qed

lemma byte_sint: "sint (ucast (b :: byte) :: u32) = int (unat b)"
proof -
  have ge: "0 \<le> uint b" by (rule unsigned_greater_eq)
  have less: "uint b < 256" using unsigned_less [where ?'a = int, of b] by simp
  have "signed_take_bit 31 (uint b) = uint b"
    by (rule signed_take_bit_int_eq_self) (rule order_trans [OF _ ge], simp, rule less_trans [OF less], simp)
  then show ?thesis by (simp add: signed_ucast_eq)
qed

lemma dec_loop_length: "n < 10 ^ Suc k \<Longrightarrow> length (dec_loop n p) \<le> Suc k + length p"
proof (induction n p arbitrary: k rule: dec_loop.induct)
  case (1 n p)
  show ?case
  proof (cases "n div 10 = 0")
    case True
    then show ?thesis by (simp add: dec_loop.simps [of n])
  next
    case False
    then obtain j where "k = Suc j" using 1(2) by (cases k) auto
    then show ?thesis using 1 False by (auto simp: dec_loop.simps [of n] Let_def less_mult_imp_div_less)
  qed
qed

lemma printf_byte:
  "vcprintf (0x25 # 0x64 # fmt) (Int32 (ucast (b :: byte)) # args) = map_option (append (dec_loop (unat b) [])) (vcprintf fmt args)"
proof -
  have "unat b < 10 ^ Suc 2" using unsigned_less [where ?'a = nat, of b] by simp
  then have l: "length (dec_loop (unat b) []) \<le> 31" using dec_loop_length [of "unat b" 2 "[]"] by simp
  have "uint b \<noteq> - 2147483648" using unsigned_greater_eq [of b, where ?'a = int] by linarith
  then have f: "format_decimal (sint (ucast b :: u32)) 0 0 = Some (dec_loop (unat b) [])"
    by (simp add: format_decimal_def byte_sint pad_to_def Let_def)
  then have "convert 0 0 2 0x64 (Int32 (ucast b) # args) = Some (dec_loop (unat b) [], args)"
    using l by (simp add: convert_def type_size_def in_tmp_buf_def)
  then show ?thesis by (simp add: vcprintf.simps [of "0x25 # _"] parse_spec_def)
qed

lemma printf_dot: "vcprintf (0x2e # fmt) args = map_option ((#) 0x2e) (vcprintf fmt args)"
  by (simp add: vcprintf.simps [of "0x2e # _"])

lemma ntoa_text:
  assumes "stored32 a = [b0, b1, b2, b3]"
  shows "inet_ntoa a = Some (dec_loop (unat b0) (0x2e # dec_loop (unat b1) (0x2e # dec_loop (unat b2) (0x2e # dec_loop (unat b3) []))))"
  using assms by (simp add: inet_ntoa_def printf_byte printf_dot dec_loop_append vcprintf.simps [of "[]"])

lemma strtoul_byte:
  assumes "p = [] \<or> hd p = 0x2e"
  shows "strtoul (dec_loop (unat (b :: byte)) p) 10 = (ucast b, p)"
proof -
  have "strtoul_charval (scast (0x2e :: byte)) \<ge> 10" by code_simp
  then have "strtoul_loop r 10 p = (r, p)" for r :: u32 using assms by (cases p) (auto simp: Let_def)
  then show ?thesis using dec_loop_strtoul [of "unat b" p, where ?'a = 32] by (simp add: strtoul_plain dec_loop_plain)
qed

lemma put_be32_of: "put_be32 (be32_of a b c d) = [a, b, c, d]"
proof -
  have "\<not> bit (x :: byte) (8 + n)" "\<not> bit x (16 + n)" "\<not> bit x (24 + n)" for x n by (auto dest: bit_imp_le_length)
  then show ?thesis by (auto simp: put_be32_def be32_of_def intro!: bit_word_eqI simp: bit_simps)
qed

lemma aton_bytes:
  assumes "stored32 a = [b0, b1, b2, b3]"
  shows "htonl (push_bit 8 (push_bit 8 (push_bit 8 (push_bit 8 0 OR ucast b0) OR ucast b1) OR ucast b2) OR ucast b3) = a"
proof -
  have "push_bit 8 (push_bit 8 (push_bit 8 (push_bit 8 0 OR ucast b0) OR ucast b1) OR ucast b2) OR ucast b3 = be32_of b0 b1 b2 b3"
    by (intro bit_word_eqI) (auto simp: be32_of_def bit_simps)
  moreover have "stored32 (htonl (be32_of b0 b1 b2 b3)) = stored32 a" by (simp add: assms stored32_htonl put_be32_of)
  then have "htonl (be32_of b0 b1 b2 b3) = a" using load32_stored [of _ "[]"] by (metis append_Nil2)
  ultimately show ?thesis by simp
qed

lemma aton_ntoa: "\<exists>s. inet_ntoa a = Some s \<and> inet_aton s = Some a"
proof -
  obtain b0 b1 b2 b3 where b: "stored32 a = [b0, b1, b2, b3]" by (simp add: stored32_def)
  have small: "\<not> (ucast (c :: byte) :: u32) > 255" for c
    using unsigned_less [where ?'a = nat, of c] by (simp add: word_less_nat_alt unsigned_ucast_eq take_bit_eq_mod)
  have moved: "dec_loop (unat (c :: byte)) p \<noteq> p" for c p
    using dec_loop_append [of "unat c" "[]" p] dec_loop_plain [of "unat c" "[]"] by (auto simp: starts_plain_def)
  show ?thesis
    using aton_bytes [OF b] small moved moved [symmetric]
    by (simp add: ntoa_text [OF b] inet_aton_def strtoul_byte numeral_eq_Suc char_at_def)
qed

section \<open>Routing: lemmas\<close>

definition configured :: "(ptr \<Rightarrow> ip_setting \<Rightarrow> u32) \<Rightarrow> ptr list \<Rightarrow> ipv4_miniroute list" where
  "configured fetch netdevs = map (\<lambda>nd. \<lparr>mr_netdev = nd, mr_address = fetch nd Ip_setting,
     mr_netmask = default_netmask (fetch nd Ip_setting) (fetch nd Netmask_setting), mr_gateway = fetch nd Gateway_setting\<rparr>)
     (filter (\<lambda>nd. fetch nd Ip_setting \<noteq> 0) netdevs)"

lemma miniroutes_refs [simp]: "miniroutes (ref_get p s) = miniroutes s" "miniroutes (ref_put p s) = miniroutes s"
  by (simp_all add: ref_get_def ref_put_def ref_increment_def ref_decrement_def set_count_def Let_def)

lemma fold_del: "miniroutes (fold del_ipv4_miniroute rs s) = fold remove1 rs (miniroutes s)"
  by (induction rs arbitrary: s) (simp_all add: del_ipv4_miniroute_def Let_def)

lemma remove1_all: "fold remove1 xs xs = []"
  by (induction xs) simp_all

lemma create_loop_routes:
  "create_loop env fetch netdevs s = (None, s') \<Longrightarrow>
     miniroutes s' = rev (filter (\<lambda>r. mr_gateway r = 0) (configured fetch netdevs)) @ miniroutes s @
       filter (\<lambda>r. mr_gateway r \<noteq> 0) (configured fetch netdevs)"
proof (induction env fetch netdevs s rule: create_loop.induct)
  case (2 env fetch netdev netdevs s)
  then show ?case
    by (auto simp: Let_def add_ipv4_miniroute_def configured_def split: if_splits)
qed (simp add: configured_def)

lemma ipv4_route_append: "ipv4_route env dest (rs @ rs') = (case ipv4_route env dest rs of None \<Rightarrow> ipv4_route env dest rs' | r \<Rightarrow> r)"
  by (induction rs) (auto simp: Let_def)

lemma ipv4_route_local:
  "list_all (\<lambda>r. mr_gateway r = 0) rs \<Longrightarrow> ipv4_route env dest rs =
     map_option (\<lambda>r. (r, dest)) (find (\<lambda>r. netdev_is_open env (mr_netdev r) \<and> route_local dest r) rs)"
  by (induction rs) (auto simp: Let_def)

lemma ipv4_route_gateway:
  "list_all (\<lambda>r. mr_gateway r \<noteq> 0) rs \<Longrightarrow> ipv4_route env dest rs =
     map_option (\<lambda>r. (r, if route_local dest r then dest else mr_gateway r)) (find (\<lambda>r. netdev_is_open env (mr_netdev r)) rs)"
  by (induction rs) (auto simp: Let_def)

section \<open>What the transport protocols rely on\<close>

text \<open>A network layer that carries segments: \<open>sends proto src dest i seg packet\<close> says that handing over the segment, with its
  checksum at offset \<open>i\<close>, sends the packet, and \<open>receives packet\<close> what the transport layer of the destination is given: the
  protocol, the addresses, the sum over the pseudo-header and the segment.  \<open>source\<close> is the address that packets carry.\<close>

locale datagram_service =
  fixes sends :: "byte \<Rightarrow> u32 option \<Rightarrow> u32 \<Rightarrow> nat \<Rightarrow> byte list \<Rightarrow> byte list \<Rightarrow> bool"
    and receives :: "byte list \<Rightarrow> byte \<Rightarrow> u32 \<Rightarrow> u32 \<Rightarrow> u16 \<Rightarrow> byte list \<Rightarrow> bool"
    and source :: "u32 option \<Rightarrow> u32 \<Rightarrow> u32"
  assumes carried: "\<lbrakk>sends proto sin_src dest (length a) (a @ stored16 (tcpip_chksum (a @ [0, 0] @ b)) @ b) packet;
      even (length a); 22 + length a + length b < 65536\<rbrakk> \<Longrightarrow>
    \<exists>csum c. receives packet proto (source sin_src dest) dest csum (a @ stored16 c @ b) \<and>
      tcpip_continue_chksum csum (a @ stored16 c @ b) = 0"

definition ipv4_sends :: "ip_env \<Rightarrow> 'a ipv4_scheme \<Rightarrow> byte \<Rightarrow> u32 option \<Rightarrow> u32 \<Rightarrow> nat \<Rightarrow> byte list \<Rightarrow> byte list \<Rightarrow> bool" where
  "ipv4_sends env s proto sin_src dest i seg packet \<longleftrightarrow>
     (\<exists>netdev nd ll. ip_sent (snd (ipv4_tx env proto sin_src dest netdev (Some i) seg s)) = ip_sent s @ [(nd, ll, packet)])"

definition ipv4_receives :: "(byte \<Rightarrow> u32 \<Rightarrow> u32 \<Rightarrow> u16 \<Rightarrow> byte list \<Rightarrow> 't \<Rightarrow> rc \<times> 't) \<Rightarrow> byte list \<Rightarrow> byte \<Rightarrow> u32 \<Rightarrow> u32 \<Rightarrow> u16 \<Rightarrow> byte list \<Rightarrow> bool" where
  "ipv4_receives rx packet proto src dest csum seg \<longleftrightarrow>
     (\<forall>env netdev flags pad (s :: ipv4) t. (ipv4_has_any_addr netdev s \<longrightarrow> ipv4_has_addr netdev dest s) \<longrightarrow>
        ipv4_rx env rx netdev flags (packet @ pad) (s, t) = (case rx proto src dest csum seg t of (rc, t) \<Rightarrow> (rc, s, t)))"

interpretation ipv4_net: datagram_service "ipv4_sends env s" "ipv4_receives rx" "ipv4_source env s" for env s rx
proof
  fix proto sin_src dest packet and a b :: "byte list"
  let ?seg = "a @ stored16 (tcpip_chksum (a @ [0, 0] @ b)) @ b"
  assume even: "even (length a)" and small: "22 + length a + length b < 65536"
    and "ipv4_sends env s proto sin_src dest (length a) ?seg packet"
  then obtain netdev nd ll where
    "ip_sent (snd (ipv4_tx env proto sin_src dest netdev (Some (length a)) ?seg s)) = ip_sent s @ [(nd, ll, packet)]"
    by (auto simp: ipv4_sends_def)
  then obtain ident src h where p: "packet = ip_packet ident proto src dest (complete_csum h (Some (length a)) ?seg)"
    and src: "src = ipv4_source env s sin_src dest" and h: "h = iphdr_bytes (htons (of_nat (20 + length ?seg))) ident proto 0 src dest"
    using ipv4_tx_sends [of env proto sin_src dest netdev "length a" ?seg s] by auto
  obtain c where c: "complete_csum h (Some (length a)) ?seg = a @ stored16 c @ b"
    "tcpip_continue_chksum (ipv4_pshdr_chksum (ip_packet ident proto src dest (a @ stored16 c @ b)) TCPIP_EMPTY_CSUM) (a @ stored16 c @ b) = 0"
    using complete_transport [OF even refl h] by blast
  have "20 + length (a @ stored16 c @ b) < 65536" using small by simp
  then have "ipv4_receives rx packet proto src dest
      (ipv4_pshdr_chksum (ip_packet ident proto src dest (a @ stored16 c @ b)) TCPIP_EMPTY_CSUM) (a @ stored16 c @ b)"
    unfolding ipv4_receives_def p c(1) by (intro allI impI ipv4_rx_packet) blast+
  with c(2) show "\<exists>csum c. ipv4_receives rx packet proto (ipv4_source env s sin_src dest) dest csum (a @ stored16 c @ b) \<and>
      tcpip_continue_chksum csum (a @ stored16 c @ b) = 0" unfolding src by blast
qed

section \<open>Properties\<close>


definition demo_ip_env :: ip_env where
  "demo_ip_env = \<lparr>netdev_is_open = \<lambda>_. True, rx_bad = \<lambda>_. 0, rx_good = \<lambda>_. 0, ll_broadcast = \<lambda>_. replicate 6 0xff, mc_hash = \<lambda>_ _. Inl ENOENT,
     link_rc = None, route_mem = True, frag_mem = True, iob_mem = True, ip_now = 0, ip_tps = 18\<rparr>"

definition demo_ip :: ipv4 where
  "demo_ip = \<lparr>refcnts = \<lambda>_. \<lparr>rcount = 0, rfree = None\<rparr>, freed = [], next_ident_high = 0,
     miniroutes = [\<lparr>mr_netdev = 64, mr_address = 0x0100a8c0, mr_netmask = 0x00ffffff, mr_gateway = 0\<rparr>], fragments = [], ip_sent = []\<rparr>"

definition demo_frag :: "byte \<Rightarrow> byte \<Rightarrow> byte \<Rightarrow> byte list \<Rightarrow> byte list" where
  "demo_frag ident mf ofs payload = [0x45, 0, 0, 0, 0, ident, mf, ofs, 64, 17, 0, 0, 192, 168, 0, 2, 192, 168, 0, 1] @ payload"


text \<open>C22: the route to a destination.  After the routing table was made from the settings, a destination on the subnet of an
  open device without a gateway is reached directly through such a device, the last one configured; any other
  destination through the first open device with a gateway, directly if it is on its subnet and by way of the gateway
  otherwise; and otherwise not at all.\<close>

theorem ipv4_route_reference:
  assumes "ipv4_create_routes env fetch netdevs s = (None, s')"
  shows "ipv4_route env dest (miniroutes s') =
    (let C = configured fetch netdevs; up = (\<lambda>r. netdev_is_open env (mr_netdev r))
     in case find (\<lambda>r. up r \<and> route_local dest r) (rev (filter (\<lambda>r. mr_gateway r = 0) C)) of
          Some r \<Rightarrow> Some (r, dest)
        | None \<Rightarrow> (case find up (filter (\<lambda>r. mr_gateway r \<noteq> 0) C) of
            None \<Rightarrow> None | Some r \<Rightarrow> Some (r, if route_local dest r then dest else mr_gateway r)))"
proof -
  have "miniroutes s' = rev (filter (\<lambda>r. mr_gateway r = 0) (configured fetch netdevs)) @
      filter (\<lambda>r. mr_gateway r \<noteq> 0) (configured fetch netdevs)"
    using create_loop_routes [of env fetch netdevs _ s'] assms by (simp add: ipv4_create_routes_def fold_del remove1_all)
  then show ?thesis
    by (simp add: ipv4_route_append ipv4_route_local ipv4_route_gateway list_all_iff split: option.split)
qed

theorem ipv4_route_reference_witness:
  "ipv4_route demo_ip_env 0x08080808 (miniroutes (snd (ipv4_create_routes demo_ip_env
     (\<lambda>nd x. if x = Ip_setting then (if nd = 64 then 0x0100a8c0 else 0x0100000a) else if x = Gateway_setting \<and> nd = 65 then 0xfe00000a else 0)
     [64, 65] demo_ip))) =
   Some (\<lparr>mr_netdev = 65, mr_address = 0x0100000a, mr_netmask = 0x000000ff, mr_gateway = 0xfe00000a\<rparr>, 0xfe00000a)"
proof -
  let ?f = "\<lambda>nd x. if x = Ip_setting then (if nd = 64 then 0x0100a8c0 else 0x0100000a) else if x = Gateway_setting \<and> nd = 65 then 0xfe00000a else 0"
  have "fst (ipv4_create_routes demo_ip_env ?f [64, 65] demo_ip) = None" by code_simp
  then have eq: "ipv4_create_routes demo_ip_env ?f [64, 65] demo_ip = (None, snd (ipv4_create_routes demo_ip_env ?f [64, 65] demo_ip))"
    by (simp only: prod_eq_iff) simp
  show ?thesis unfolding ipv4_route_reference [OF eq] by code_simp
qed

text \<open>The text of an address is read back as that address.\<close>

theorem inet_text_roundtrip: "\<exists>s. inet_ntoa a = Some s \<and> inet_aton s = Some a"
  by (rule aton_ntoa)

text \<open>A ping is answered.  An echo request with a correct checksum is answered by exactly one reply, to its sender, with
  the same identifier, sequence number and data and a correct checksum; a message that is too short or has a wrong
  checksum is refused and any other ignored.\<close>

theorem icmp_echo:
  "icmp_rx tx src dest msg t =
     (if length msg < 4 then (Some EINVAL, t)
      else if tcpip_chksum msg \<noteq> 0 then (Some EINVAL, t)
      else if msg ! 0 \<noteq> 8 then (None, t)
      else tx IP_ICMP dest src ([0, msg ! 1] @ stored16 (tcpip_chksum ([0, msg ! 1] @ [0, 0] @ drop 4 msg)) @ drop 4 msg) t) \<and>
   tcpip_chksum ([0, msg ! 1] @ stored16 (tcpip_chksum ([0, msg ! 1] @ [0, 0] @ drop 4 msg)) @ drop 4 msg) = 0"
  using chksum_verify [of "[0, msg ! 1]" _ TCPIP_EMPTY_CSUM "drop 4 msg"]
  by (auto simp: icmp_rx_def tcpip_chksum_def Let_def)

end
