(* ===== verification/Udp.thy ===== *)
theory Udp
  imports Ipv4 Uri
begin

text \<open>
  UDP (\<open>src/src/net/udp.c\<close>, \<open>src/src/include/ipxe/udp.h\<close>).  A socket address is its family, port and the bytes behind
  them, as in \<open>struct sockaddr_tcpip\<close>.  The network layer, reached through \<open>tcpip_tx()\<close>, is an argument of \<open>udp_tx\<close> that
  works on a state of its own; data handed to an application is an entry of the log \<open>delivered_to\<close>.
\<close>

section \<open>State\<close>

record sockaddr_tcpip =
  sk_family :: u16
  sk_port :: u16
  sk_pad :: "byte list"

record udp_connection =
  udp_key :: ptr
  udp_local :: sockaddr_tcpip
  udp_peer :: sockaddr_tcpip

record udp =
  try_port :: u16
  udp_conns :: "udp_connection list"
  delivered_to :: "(ptr \<times> sockaddr_tcpip \<times> sockaddr_tcpip \<times> byte list) list"

definition udp_init :: udp where
  "udp_init = \<lparr>try_port = 1023, udp_conns = [], delivered_to = []\<rparr>"

definition empty_sockaddr :: sockaddr_tcpip where
  "empty_sockaddr = \<lparr>sk_family = 0, sk_port = 0, sk_pad = replicate 28 0\<rparr>"

definition AF_INET :: u16 where "AF_INET = 1"

text \<open>An IPv4 socket address, as \<open>ipv4_rx()\<close> makes it, and its address.\<close>

definition sockaddr_in :: "u32 \<Rightarrow> u16 \<Rightarrow> sockaddr_tcpip" where
  "sockaddr_in addr pt = \<lparr>sk_family = AF_INET, sk_port = pt, sk_pad = stored32 addr @ replicate 24 0\<rparr>"

definition sin_addr :: "sockaddr_tcpip \<Rightarrow> u32" where
  "sin_addr sa = field32 ((!) (sk_pad sa)) 0"

section \<open>Opening and closing\<close>

definition port_used :: "u16 \<Rightarrow> udp_connection list \<Rightarrow> bool" where
  "port_used pt us = list_ex (\<lambda>existing. sk_port (udp_local existing) = pt) us"

definition set_local_port :: "u16 \<Rightarrow> udp_connection \<Rightarrow> udp_connection" where
  "set_local_port pt u = u\<lparr>udp_local := (udp_local u)\<lparr>sk_port := pt\<rparr>\<rparr>"

function udp_bind_loop :: "u16 \<Rightarrow> udp_connection list \<Rightarrow> udp_connection \<Rightarrow> rc \<times> u16 \<times> udp_connection" where
  "udp_bind_loop tp us u =
     (if tp = 0 then (Some EADDRINUSE, tp, u)
      else let tp = tp + 1
           in if tp < 1024 then udp_bind_loop tp us u
              else let u = set_local_port (htons tp) u
                   in if \<not> port_used (htons tp) us then (None, tp, u) else udp_bind_loop tp us u)"
  by pat_completeness auto

definition ports_left :: "u16 \<Rightarrow> nat" where
  "ports_left tp = (if tp = 0 then 0 else 65536 - unat tp)"

lemma ports_left_less: "tp \<noteq> 0 \<Longrightarrow> ports_left (tp + 1) < ports_left tp"
proof -
  assume "tp \<noteq> 0"
  moreover have "unat tp < 65536" using unsigned_less [where ?'a = nat, of tp] by simp
  moreover have "tp + 1 = 0 \<or> unat (tp + 1) = Suc (unat tp)" by (metis add.commute unatSuc)
  ultimately show ?thesis by (auto simp: ports_left_def)
qed

termination udp_bind_loop
  by (relation "measure (\<lambda>(tp, _). ports_left tp)") (simp_all add: ports_left_less)

declare udp_bind_loop.simps [simp del]

definition udp_bind :: "udp_connection \<Rightarrow> 'a udp_scheme \<Rightarrow> rc \<times> udp_connection \<times> 'a udp_scheme" where
  "udp_bind u s =
     (if sk_port (udp_local u) = 0
      then case udp_bind_loop (try_port s) (udp_conns s) u of (rc, tp, u) \<Rightarrow> (rc, u, s\<lparr>try_port := tp\<rparr>)
      else (if port_used (sk_port (udp_local u)) (udp_conns s) then Some EADDRINUSE else None, u, s))"

definition udp_open_common :: "bool \<Rightarrow> ptr \<Rightarrow> sockaddr_tcpip option \<Rightarrow> sockaddr_tcpip option \<Rightarrow> bool \<Rightarrow> 'a udp_scheme \<Rightarrow> rc \<times> 'a udp_scheme" where
  "udp_open_common avail new st_peer st_local promisc s =
     (if \<not> avail then (Some ENOMEM, s)
      else let u = \<lparr>udp_key = new,
                    udp_local = (case st_local of None \<Rightarrow> empty_sockaddr | Some l \<Rightarrow> l),
                    udp_peer = (case st_peer of None \<Rightarrow> empty_sockaddr | Some p \<Rightarrow> p)\<rparr>;
               (rc, u, s) = (if \<not> promisc then udp_bind u s else (None, u, s))
           in if rc \<noteq> None then (rc, s) else (None, s\<lparr>udp_conns := u # udp_conns s\<rparr>))"

definition udp_open :: "bool \<Rightarrow> ptr \<Rightarrow> sockaddr_tcpip option \<Rightarrow> sockaddr_tcpip option \<Rightarrow> 'a udp_scheme \<Rightarrow> rc \<times> 'a udp_scheme" where
  "udp_open avail new st_peer local s = udp_open_common avail new st_peer local False s"

definition udp_open_promisc :: "bool \<Rightarrow> ptr \<Rightarrow> 'a udp_scheme \<Rightarrow> rc \<times> 'a udp_scheme" where
  "udp_open_promisc avail new s = udp_open_common avail new None None True s"

definition udp_close :: "ptr \<Rightarrow> 'a udp_scheme \<Rightarrow> 'a udp_scheme" where
  "udp_close p s = s\<lparr>udp_conns := filter (\<lambda>u. udp_key u \<noteq> p) (udp_conns s)\<rparr>"

section \<open>Data\<close>

definition udp_header_bytes :: "u16 \<Rightarrow> u16 \<Rightarrow> u16 \<Rightarrow> u16 \<Rightarrow> byte list" where
  "udp_header_bytes src dest len' chksum = stored16 src @ stored16 dest @ stored16 len' @ stored16 chksum"

text \<open>\<open>headroom\<close> is the result of \<open>iob_ensure_headroom()\<close>.\<close>

definition udp_tx :: "(sockaddr_tcpip \<Rightarrow> sockaddr_tcpip \<Rightarrow> ptr \<Rightarrow> nat option \<Rightarrow> byte list \<Rightarrow> 't \<Rightarrow> rc \<times> 't) \<Rightarrow> rc \<Rightarrow> udp_connection \<Rightarrow>
    sockaddr_tcpip option \<Rightarrow> sockaddr_tcpip option \<Rightarrow> ptr \<Rightarrow> byte list \<Rightarrow> 't \<Rightarrow> rc \<times> 't" where
  "udp_tx tx headroom u src dest netdev iobuf t =
     (if headroom \<noteq> None then (headroom, t)
      else let src = (case src of None \<Rightarrow> udp_local u | Some s \<Rightarrow> s);
               dest = (case dest of None \<Rightarrow> udp_peer u | Some d \<Rightarrow> d);
               len = 8 + length iobuf;
               header = udp_header_bytes (sk_port src) (sk_port dest) (htons (of_nat len));
               packet = header (tcpip_chksum (header 0 @ iobuf)) @ iobuf
           in tx src dest netdev (Some 6) packet t)"

definition udp_match :: "sockaddr_tcpip \<Rightarrow> udp_connection \<Rightarrow> bool" where
  "udp_match local u \<longleftrightarrow>
     (sk_family (udp_local u) = sk_family local \<or> sk_family (udp_local u) = 0) \<and>
     (sk_port (udp_local u) = sk_port local \<or> sk_port (udp_local u) = 0) \<and>
     (sk_pad (udp_local u) = sk_pad local \<or> sk_pad (udp_local u) = sk_pad empty_sockaddr)"

definition udp_demux :: "sockaddr_tcpip \<Rightarrow> 'a udp_scheme \<Rightarrow> udp_connection option" where
  "udp_demux local s = find (udp_match local) (udp_conns s)"

definition udp_rx :: "(byte list \<Rightarrow> rc) \<Rightarrow> sockaddr_tcpip \<Rightarrow> sockaddr_tcpip \<Rightarrow> u16 \<Rightarrow> byte list \<Rightarrow> 'a udp_scheme \<Rightarrow> rc \<times> 'a udp_scheme" where
  "udp_rx deliver st_src st_dest pshdr_csum iobuf s =
     (if length iobuf < 8 then (Some EINVAL, s)
      else let ulen = unat (ntohs (field16 iobuf 4))
           in if ulen < 8 then (Some EINVAL, s)
              else if ulen > length iobuf then (Some EINVAL, s)
              else if field16 iobuf 6 \<noteq> 0 \<and> tcpip_continue_chksum pshdr_csum (take ulen iobuf) \<noteq> 0 then (Some EINVAL, s)
              else let st_src = st_src\<lparr>sk_port := field16 iobuf 0\<rparr>;
                       st_dest = st_dest\<lparr>sk_port := field16 iobuf 2\<rparr>;
                       payload = drop 8 (take ulen iobuf)
                   in case udp_demux st_dest s of
                        None \<Rightarrow> (Some ENOTCONN, s)
                      | Some u \<Rightarrow> (deliver payload, s\<lparr>delivered_to := delivered_to s @ [(udp_key u, st_src, st_dest, payload)]\<rparr>))"

definition MAX_LL_NET_HEADER_LEN :: nat where "MAX_LL_NET_HEADER_LEN = 36 + 40"

text \<open>The headroom and the tailroom of the new buffer.\<close>

definition udp_xfer_alloc_iob :: "bool \<Rightarrow> nat \<Rightarrow> (nat \<times> nat) option" where
  "udp_xfer_alloc_iob avail len = (if \<not> avail then None else Some (MAX_LL_NET_HEADER_LEN, len))"

definition udp_xfer_deliver :: "(sockaddr_tcpip \<Rightarrow> sockaddr_tcpip \<Rightarrow> ptr \<Rightarrow> nat option \<Rightarrow> byte list \<Rightarrow> 't \<Rightarrow> rc \<times> 't) \<Rightarrow> rc \<Rightarrow> udp_connection \<Rightarrow>
    sockaddr_tcpip option \<Rightarrow> sockaddr_tcpip option \<Rightarrow> ptr \<Rightarrow> byte list \<Rightarrow> 't \<Rightarrow> rc \<times> 't" where
  "udp_xfer_deliver tx headroom u meta_src meta_dest meta_netdev iobuf t = udp_tx tx headroom u meta_src meta_dest meta_netdev iobuf t"

text \<open>Opening a named socket resolves the name, an argument.\<close>

definition udp_open_uri :: "(sockaddr_tcpip \<Rightarrow> byte list \<Rightarrow> 't \<Rightarrow> rc \<times> 't) \<Rightarrow> uri \<Rightarrow> 't \<Rightarrow> rc \<times> 't" where
  "udp_open_uri open_named uri t =
     (case host uri of
        None \<Rightarrow> (Some EINVAL, t)
      | Some h \<Rightarrow> open_named (empty_sockaddr\<lparr>sk_port := htons (ucast (uri_port (Some uri) 0))\<rparr>) h t)"

section \<open>Lemmas: datagrams\<close>

definition udp_packet :: "u16 \<Rightarrow> u16 \<Rightarrow> byte list \<Rightarrow> byte list" where
  "udp_packet sp dp payload =
     (let header = udp_header_bytes sp dp (htons (of_nat (8 + length payload))) in header (tcpip_chksum (header 0 @ payload)) @ payload)"

text \<open>The effect of a datagram that is accepted.\<close>

definition udp_result :: "(byte list \<Rightarrow> rc) \<Rightarrow> sockaddr_tcpip \<Rightarrow> sockaddr_tcpip \<Rightarrow> byte list \<Rightarrow> 'a udp_scheme \<Rightarrow> rc \<times> 'a udp_scheme" where
  "udp_result deliver src dest payload s =
     (case udp_demux dest s of
        None \<Rightarrow> (Some ENOTCONN, s)
      | Some u \<Rightarrow> (deliver payload, s\<lparr>delivered_to := delivered_to s @ [(udp_key u, src, dest, payload)]\<rparr>))"

lemma udp_header_fields:
  "field16 (udp_header_bytes sp dp l c @ b) 0 = sp" "field16 (udp_header_bytes sp dp l c @ b) 2 = dp"
  "field16 (udp_header_bytes sp dp l c @ b) 4 = l" "length (udp_header_bytes sp dp l c) = 8"
  by (simp_all add: udp_header_bytes_def field16_def stored16_def join16)

lemma udp_rx_accepts:
  assumes "8 + length payload < 65536" and "seg = udp_header_bytes sp dp (htons (of_nat (8 + length payload))) c @ payload"
    and "tcpip_continue_chksum csum seg = 0"
  shows "udp_rx deliver (sockaddr_in src 0) (sockaddr_in dest 0) csum seg s =
    udp_result deliver (sockaddr_in src sp) (sockaddr_in dest dp) payload s"
proof -
  have "unat (of_nat (8 + length payload) :: u16) = 8 + length payload" using assms(1) by (simp only: unat_of_nat) simp
  then have "unat (ntohs (field16 seg 4)) = 8 + length payload" by (simp add: assms(2) udp_header_fields)
  then show ?thesis
    using assms(3) by (simp add: udp_rx_def udp_result_def sockaddr_in_def assms(2) udp_header_fields Let_def)
qed

context datagram_service
begin

lemma udp_carried:
  assumes "sends IP_UDP sin_src dest 6 (udp_packet sp dp payload) packet" and "28 + length payload < 65536"
  shows "\<exists>csum seg. receives packet IP_UDP (source sin_src dest) dest csum seg \<and>
    (\<forall>s. udp_rx deliver (sockaddr_in (source sin_src dest) 0) (sockaddr_in dest 0) csum seg s =
       udp_result deliver (sockaddr_in (source sin_src dest) sp) (sockaddr_in dest dp) payload s)"
proof -
  define a where "a = stored16 sp @ stored16 dp @ stored16 (htons (of_nat (8 + length payload)))"
  have h: "udp_header_bytes sp dp (htons (of_nat (8 + length payload))) c = a @ stored16 c" for c
    by (simp add: udp_header_bytes_def a_def)
  have a: "length a = 6" by (simp add: a_def)
  have "udp_packet sp dp payload = a @ stored16 (tcpip_chksum (a @ [0, 0] @ payload)) @ payload"
    unfolding udp_packet_def Let_def h by (simp add: stored16_def)
  then obtain csum c where "receives packet IP_UDP (source sin_src dest) dest csum (a @ stored16 c @ payload)"
    "tcpip_continue_chksum csum (a @ stored16 c @ payload) = 0"
    using carried [of IP_UDP sin_src dest a payload packet] assms a by auto
  moreover from this(2) have "\<forall>s. udp_rx deliver (sockaddr_in src 0) (sockaddr_in dest 0) csum (a @ stored16 c @ payload) s =
       udp_result deliver (sockaddr_in src sp) (sockaddr_in dest dp) payload s" for src
    using assms(2) by (intro allI udp_rx_accepts [of _ _ _ _ c]) (simp, simp only: h append_assoc, simp)
  ultimately show ?thesis by blast
qed

end

section \<open>Lemmas: ports\<close>

definition udp_ok :: "'a udp_scheme \<Rightarrow> bool" where
  "udp_ok s = distinct (filter (\<lambda>p. p \<noteq> 0) (map (sk_port \<circ> udp_local) (udp_conns s)))"

lemma port_used_map: "port_used p us \<longleftrightarrow> p \<in> set (map (sk_port \<circ> udp_local) us)"
  by (auto simp: port_used_def list_ex_iff)

text \<open>The search ends at the first port from 1024 on that is free, or at the last one.\<close>

lemma bind_loop_result:
  "udp_bind_loop tp us u = (rc, tp', u') \<Longrightarrow>
     (case rc of None \<Rightarrow> u' = set_local_port (htons tp') u \<and> \<not> port_used (htons tp') us \<and> 1024 \<le> tp' \<and> tp' \<noteq> 0
      | Some e \<Rightarrow> e = EADDRINUSE \<and> tp' = 0)"
proof (induction tp us u arbitrary: u' rule: udp_bind_loop.induct)
  case (1 tp us u)
  show ?case
  proof (cases "tp = 0")
    case True
    then show ?thesis using "1.prems" by (subst (asm) udp_bind_loop.simps) auto
  next
    case nz: False
    show ?thesis
    proof (cases "tp + 1 < 1024")
      case True
      then show ?thesis
        using "1.prems" nz by (intro "1.IH"(1) [OF nz refl True]) (subst (asm) udp_bind_loop.simps, simp add: Let_def)
    next
      case big: False
      then have "tp + 1 \<noteq> 0" by auto
      show ?thesis
      proof (cases "port_used (htons (tp + 1)) us")
        case True
        have "udp_bind_loop (tp + 1) us (set_local_port (htons (tp + 1)) u) = (rc, tp', u')"
          using "1.prems" nz big True by (subst (asm) udp_bind_loop.simps) (simp add: Let_def)
        from "1.IH"(2) [OF nz refl big refl _ this] True show ?thesis by (simp add: set_local_port_def split: option.splits)
      next
        case False
        then show ?thesis
          using "1.prems" nz big \<open>tp + 1 \<noteq> 0\<close> by (subst (asm) udp_bind_loop.simps) (auto simp: Let_def not_less)
      qed
    qed
  qed
qed

lemma htons_zero_iff: "htons p = 0 \<longleftrightarrow> p = 0"
proof -
  have "htons 0 = 0" "htons (htons p) = p" by (simp_all add: htons_def bswap_16_16) (simp add: bswap_16_def)
  then show ?thesis by metis
qed

lemma udp_bind_unused:
  assumes "udp_bind u s = (None, u', s')"
  shows "\<exists>p. u' = set_local_port p u \<and> p \<noteq> 0 \<and> \<not> port_used p (udp_conns s)"
proof (cases "sk_port (udp_local u) = 0")
  case True
  then obtain tp where "udp_bind_loop (try_port s) (udp_conns s) u = (None, tp, u')"
    using assms by (auto simp: udp_bind_def split: prod.splits)
  from bind_loop_result [OF this] show ?thesis by (auto simp: htons_zero_iff)
next
  case False
  moreover have "set_local_port (sk_port (udp_local u)) u = u" by (simp add: set_local_port_def)
  ultimately show ?thesis
    using assms by (intro exI [of _ "sk_port (udp_local u)"]) (auto simp: udp_bind_def split: if_splits)
qed

lemma udp_bind_keeps:
  "udp_conns (snd (snd (udp_bind u s))) = udp_conns s" "delivered_to (snd (snd (udp_bind u s))) = delivered_to s"
  by (simp_all add: udp_bind_def split: prod.split)

text \<open>A new connection has no port, or one that no other has.\<close>

lemma udp_open_common_conns:
  assumes "promisc \<Longrightarrow> st_local = None"
  shows "(fst (udp_open_common avail new st_peer st_local promisc s) \<noteq> None \<and>
      udp_conns (snd (udp_open_common avail new st_peer st_local promisc s)) = udp_conns s) \<or>
    (\<exists>u. udp_conns (snd (udp_open_common avail new st_peer st_local promisc s)) = u # udp_conns s \<and> udp_key u = new \<and>
      (if promisc then sk_port (udp_local u) = 0 else sk_port (udp_local u) \<noteq> 0 \<and> \<not> port_used (sk_port (udp_local u)) (udp_conns s)))"
proof (cases "avail \<and> \<not> promisc")
  case True
  define u where "u = \<lparr>udp_key = new, udp_local = (case st_local of None \<Rightarrow> empty_sockaddr | Some l \<Rightarrow> l),
    udp_peer = (case st_peer of None \<Rightarrow> empty_sockaddr | Some p \<Rightarrow> p)\<rparr>"
  obtain rc u' s' where b: "udp_bind u s = (rc, u', s')" by (rule prod_cases3)
  have "udp_conns s' = udp_conns s" using udp_bind_keeps(1) [of u s] by (simp add: b)
  then show ?thesis
    using True b udp_bind_unused [of u s u' s'] by (auto simp: udp_open_common_def set_local_port_def simp flip: u_def) (auto simp: u_def)
next
  case False
  then show ?thesis using assms by (auto simp: udp_open_common_def empty_sockaddr_def)
qed

text \<open>What an application and the network do to the sockets.\<close>

inductive udp_reach :: "udp \<Rightarrow> bool" where
  start: "udp_reach udp_init"
| opens: "udp_reach s \<Longrightarrow> udp_reach (snd (udp_open avail new st_peer st_local s))"
| opens_promisc: "udp_reach s \<Longrightarrow> udp_reach (snd (udp_open_promisc avail new s))"
| closes: "udp_reach s \<Longrightarrow> udp_reach (udp_close p s)"
| receives: "udp_reach s \<Longrightarrow> udp_reach (snd (udp_rx deliver st_src st_dest csum iobuf s))"

lemma udp_ok_open:
  assumes "udp_ok s" and "promisc \<Longrightarrow> st_local = None"
  shows "udp_ok (snd (udp_open_common avail new st_peer st_local promisc s))"
  using assms(1) udp_open_common_conns [OF assms(2), of promisc avail new st_peer s]
  by (auto simp: udp_ok_def port_used_map split: if_splits)

lemma distinct_filter_sub: "distinct (map f (filter P us)) \<Longrightarrow> distinct (map f (filter P (filter Q us)))"
  by (induction us) auto

lemma udp_ok_close: "udp_ok s \<Longrightarrow> udp_ok (udp_close p s)"
  by (simp add: udp_ok_def udp_close_def filter_map distinct_filter_sub del: filter_filter)

lemma udp_rx_conns: "udp_conns (snd (udp_rx deliver st_src st_dest csum iobuf s)) = udp_conns s"
  by (simp add: udp_rx_def Let_def split: option.split)

lemma udp_reach_ok: "udp_reach s \<Longrightarrow> udp_ok s"
proof (induction rule: udp_reach.induct)
  case start
  show ?case by (simp add: udp_ok_def udp_init_def)
next
  case (receives s deliver st_src st_dest csum iobuf)
  then show ?case by (simp add: udp_ok_def udp_rx_conns)
qed (simp_all add: udp_open_def udp_open_promisc_def udp_ok_open udp_ok_close)

lemma distinct_port_owner:
  "distinct (filter (\<lambda>p. p \<noteq> 0) (map f us)) \<Longrightarrow> u \<in> set us \<Longrightarrow> v \<in> set us \<Longrightarrow> f u = f v \<Longrightarrow> f u \<noteq> (0 :: u16) \<Longrightarrow> u = v"
  by (auto simp: filter_map distinct_map inj_on_def)

lemma udp_tx_packet:
  "udp_tx tx None u src dest netdev payload t =
     (let src = (case src of None \<Rightarrow> udp_local u | Some s \<Rightarrow> s); dest = (case dest of None \<Rightarrow> udp_peer u | Some d \<Rightarrow> d)
      in tx src dest netdev (Some 6) (udp_packet (sk_port src) (sk_port dest) payload) t)"
  by (simp add: udp_tx_def udp_packet_def Let_def)

text \<open>The tables of network and transport protocols, with IPv4 and UDP in them.\<close>

definition udp_tcpip_tx :: "ip_env \<Rightarrow> sockaddr_tcpip \<Rightarrow> sockaddr_tcpip \<Rightarrow> ptr \<Rightarrow> nat option \<Rightarrow> byte list \<Rightarrow> 'a ipv4_scheme \<Rightarrow> rc \<times> 'a ipv4_scheme" where
  "udp_tcpip_tx env src dest netdev trans_csum seg s =
     (if sk_family dest = AF_INET then ipv4_tx env IP_UDP (Some (sin_addr src)) (sin_addr dest) netdev trans_csum seg s
      else (Some EAFNOSUPPORT, s))"

definition udp_tcpip_rx :: "(byte list \<Rightarrow> rc) \<Rightarrow> (byte \<Rightarrow> u32 \<Rightarrow> u32 \<Rightarrow> u16 \<Rightarrow> byte list \<Rightarrow> 'a udp_scheme \<Rightarrow> rc \<times> 'a udp_scheme) \<Rightarrow>
    byte \<Rightarrow> u32 \<Rightarrow> u32 \<Rightarrow> u16 \<Rightarrow> byte list \<Rightarrow> 'a udp_scheme \<Rightarrow> rc \<times> 'a udp_scheme" where
  "udp_tcpip_rx deliver rest_rx proto src dest csum seg t =
     (if proto = IP_UDP then udp_rx deliver (sockaddr_in src 0) (sockaddr_in dest 0) csum seg t else rest_rx proto src dest csum seg t)"

text \<open>Opening a socket with an automatic port and closing it again.\<close>

definition udp_cycle :: "ptr \<Rightarrow> udp \<Rightarrow> udp" where
  "udp_cycle p s = udp_close p (snd (udp_open True p None None s))"

lemma udp_open_auto:
  assumes "udp_conns s = []"
  shows "udp_open True p None None s =
    (if try_port s = 0 then (Some EADDRINUSE, s)
     else if try_port s + 1 < 1024 then udp_open True p None None (s\<lparr>try_port := try_port s + 1\<rparr>)
     else (None, s\<lparr>try_port := try_port s + 1, udp_conns := [\<lparr>udp_key = p, udp_local = empty_sockaddr\<lparr>sk_port := htons (try_port s + 1)\<rparr>, udp_peer = empty_sockaddr\<rparr>]\<rparr>))"
  using assms
  by (subst (1 2) udp_open_def, subst (1 2) udp_open_common_def)
    (simp add: udp_bind_def empty_sockaddr_def udp_bind_loop.simps [of "try_port s"] port_used_def set_local_port_def Let_def
      split: prod.split)

lemma udp_cycles:
  "(udp_cycle p ^^ n) udp_init = udp_init\<lparr>try_port := if n \<le> 64512 then of_nat (1023 + n) else 0\<rparr>"
proof (induction n)
  case 0
  show ?case by (simp add: udp_init_def)
next
  case (Suc n)
  define tp :: u16 where "tp = of_nat (1023 + n)"
  have open0: "udp_cycle p (udp_init\<lparr>try_port := 0\<rparr>) = udp_init\<lparr>try_port := 0\<rparr>"
    by (simp add: udp_cycle_def udp_open_auto udp_init_def udp_close_def)
  have last: "udp_cycle p (udp_init\<lparr>try_port := 65535\<rparr>) = udp_init\<lparr>try_port := 0\<rparr>"
    by (simp add: udp_cycle_def udp_open_auto udp_init_def udp_close_def)
  consider "n < 64512" | "n = 64512" | "n > 64512" by linarith
  then show ?case
  proof cases
    case 1
    have "unat tp = 1023 + n" "unat (tp + 1) = 1024 + n" using 1 by (simp_all add: tp_def unat_of_nat unat_word_ariths)
    then have "tp \<noteq> 0" "\<not> tp + 1 < 1024" by (auto simp: word_less_nat_alt)
    then have "udp_cycle p (udp_init\<lparr>try_port := tp\<rparr>) = udp_init\<lparr>try_port := tp + 1\<rparr>"
      by (simp add: udp_cycle_def udp_open_auto udp_init_def udp_close_def)
    then show ?thesis using Suc 1 by (simp add: tp_def add.commute)
  next
    case 2
    have "(udp_cycle p ^^ n) udp_init = udp_init\<lparr>try_port := 65535\<rparr>" unfolding Suc using 2 by simp
    with last have "(udp_cycle p ^^ Suc n) udp_init = udp_init\<lparr>try_port := 0\<rparr>" unfolding funpow.simps comp_apply by simp
    moreover have "\<not> Suc n \<le> 64512" using 2 by simp
    ultimately show ?thesis by (simp only: if_False)
  next
    case 3
    then show ?thesis using Suc open0 by simp
  qed
qed

section \<open>Properties\<close>

text \<open>C10: a datagram reaches its socket.  Whatever an application sends on a socket, once \<open>udp_tx()\<close> and \<open>ipv4_tx()\<close> have put it
  on the wire, is taken by \<open>ipv4_rx()\<close> and \<open>udp_rx()\<close> of the destination as exactly the data that was sent, whatever padding
  the link adds: the socket that is demultiplexed from the destination gets it, with the address of the sending interface
  and the ports of both ends, and where no socket matches, the error is ENOTCONN.\<close>

theorem udp_end_to_end:
  fixes t :: "'a udp_scheme"
  assumes sent: "ip_sent (snd (udp_xfer_deliver (udp_tcpip_tx env) None u src dest netdev payload s)) = ip_sent s @ [(nd, ll, packet)]"
    and small: "28 + length payload < 65536"
    and ends: "st_src = (case src of None \<Rightarrow> udp_local u | Some x \<Rightarrow> x)" "st_dest = (case dest of None \<Rightarrow> udp_peer u | Some x \<Rightarrow> x)"
    and own: "ipv4_has_any_addr netdev' s' \<Longrightarrow> ipv4_has_addr netdev' (sin_addr st_dest) s'"
  shows "ipv4_rx env' (udp_tcpip_rx deliver rest_rx) netdev' flags (packet @ pad) (s' :: ipv4, t) =
    (let from = sockaddr_in (ipv4_source env s (Some (sin_addr st_src)) (sin_addr st_dest)) (sk_port st_src);
         to = sockaddr_in (sin_addr st_dest) (sk_port st_dest)
     in case udp_demux to t of
          None \<Rightarrow> (Some ENOTCONN, s', t)
        | Some u' \<Rightarrow> (deliver payload, s', t\<lparr>delivered_to := delivered_to t @ [(udp_key u', from, to, payload)]\<rparr>))"
proof -
  have "ipv4_sends env s IP_UDP (Some (sin_addr st_src)) (sin_addr st_dest) 6 (udp_packet (sk_port st_src) (sk_port st_dest) payload) packet"
    using sent unfolding ipv4_sends_def udp_xfer_deliver_def udp_tx_packet udp_tcpip_tx_def Let_def ends
    by (auto split: if_splits)
  then obtain csum seg where
    r: "ipv4_receives (udp_tcpip_rx deliver rest_rx) packet IP_UDP (ipv4_source env s (Some (sin_addr st_src)) (sin_addr st_dest)) (sin_addr st_dest) csum seg"
    and u: "\<forall>t :: 'a udp_scheme. udp_rx deliver (sockaddr_in (ipv4_source env s (Some (sin_addr st_src)) (sin_addr st_dest)) 0) (sockaddr_in (sin_addr st_dest) 0) csum seg t =
       udp_result deliver (sockaddr_in (ipv4_source env s (Some (sin_addr st_src)) (sin_addr st_dest)) (sk_port st_src)) (sockaddr_in (sin_addr st_dest) (sk_port st_dest)) payload t"
    using ipv4_net.udp_carried [OF _ small] by blast
  from r own have "ipv4_rx env' (udp_tcpip_rx deliver rest_rx) netdev' flags (packet @ pad) (s', t) =
      (case udp_tcpip_rx deliver rest_rx IP_UDP (ipv4_source env s (Some (sin_addr st_src)) (sin_addr st_dest)) (sin_addr st_dest) csum seg t of (rc, t) \<Rightarrow> (rc, s', t))"
    unfolding ipv4_receives_def by blast
  then show ?thesis by (simp add: udp_tcpip_rx_def u udp_result_def Let_def split: option.split)
qed

definition demo_socket :: udp_connection where
  "demo_socket = \<lparr>udp_key = 0x1000, udp_local = sockaddr_in 0 (htons 1024), udp_peer = sockaddr_in 0x0200a8c0 (htons 69)\<rparr>"

definition demo_server :: udp where
  "demo_server = \<lparr>try_port = 1023, udp_conns = [\<lparr>udp_key = 0x2000, udp_local = empty_sockaddr\<lparr>sk_port := htons 69\<rparr>, udp_peer = empty_sockaddr\<rparr>], delivered_to = []\<rparr>"

theorem udp_end_to_end_witness:
  "\<exists>packet. ip_sent (snd (udp_xfer_deliver (udp_tcpip_tx demo_ip_env) None demo_socket None None NULL [1, 2, 3] demo_ip)) = [(64, Via_arp 0x0200a8c0, packet)] \<and>
    ipv4_rx demo_ip_env (udp_tcpip_rx (\<lambda>_. None) (\<lambda>_ _ _ _ _ t. (None, t))) 7 0 (packet @ [0, 0, 0]) (demo_ip, demo_server) =
    (None, demo_ip, demo_server\<lparr>delivered_to := [(0x2000, sockaddr_in 0x0100a8c0 (htons 1024), sockaddr_in 0x0200a8c0 (htons 69), [1, 2, 3])]\<rparr>)"
proof -
  define packet where "packet = snd (snd (hd (ip_sent (snd (udp_xfer_deliver (udp_tcpip_tx demo_ip_env) None demo_socket None None NULL [1, 2, 3] demo_ip)))))"
  have sent: "ip_sent (snd (udp_xfer_deliver (udp_tcpip_tx demo_ip_env) None demo_socket None None NULL [1, 2, 3] demo_ip)) = [(64, Via_arp 0x0200a8c0, packet)]"
    unfolding packet_def by code_simp
  have s: "ip_sent (snd (udp_xfer_deliver (udp_tcpip_tx demo_ip_env) None demo_socket None None NULL [1, 2, 3] demo_ip)) =
      ip_sent demo_ip @ [(64, Via_arp 0x0200a8c0, packet)]"
    unfolding sent by (simp add: demo_ip_def)
  have e: "ipv4_has_any_addr 7 demo_ip \<Longrightarrow> ipv4_has_addr 7 (sin_addr (udp_peer demo_socket)) demo_ip"
    by (simp add: demo_ip_def ipv4_has_any_addr_def)
  have a: "sin_addr (udp_peer demo_socket) = 0x0200a8c0" "sk_port (udp_peer demo_socket) = htons 69"
    "sk_port (udp_local demo_socket) = htons 1024" "ipv4_source demo_ip_env demo_ip (Some (sin_addr (udp_local demo_socket))) 0x0200a8c0 = 0x0100a8c0"
    by code_simp+
  have d: "udp_demux (sockaddr_in 0x0200a8c0 (htons 69)) demo_server = Some (hd (udp_conns demo_server))" "udp_key (hd (udp_conns demo_server)) = 0x2000"
    by code_simp+
  have "ipv4_rx demo_ip_env (udp_tcpip_rx (\<lambda>_. None) (\<lambda>_ _ _ _ _ t. (None, t))) 7 0 (packet @ [0, 0, 0]) (demo_ip, demo_server) =
    (None, demo_ip, demo_server\<lparr>delivered_to := [(0x2000, sockaddr_in 0x0100a8c0 (htons 1024), sockaddr_in 0x0200a8c0 (htons 69), [1, 2, 3])]\<rparr>)"
    using udp_end_to_end [OF s _ _ _ e, where t = demo_server and env' = demo_ip_env and deliver = "\<lambda>_. None" and rest_rx = "\<lambda>_ _ _ _ _ t. (None, t)" and flags = 0 and pad = "[0, 0, 0]"]
    by (simp add: a d Let_def) (simp add: demo_server_def)
  with sent show ?thesis by blast
qed

text \<open>C23: a port belongs to one socket.  In every state that opening, closing and receiving lead to, while no promiscuous socket
  is open, a datagram that matches a socket is handed to that socket and to no other.\<close>

theorem udp_port_owner:
  assumes "udp_reach s" and "u \<in> set (udp_conns s)" and "udp_match dest u" and "\<forall>v \<in> set (udp_conns s). sk_port (udp_local v) \<noteq> 0"
  shows "udp_demux dest s = Some u"
proof -
  obtain v where v: "udp_demux dest s = Some v" using assms(2,3) by (cases "udp_demux dest s") (auto simp: udp_demux_def find_None_iff)
  then have m: "v \<in> set (udp_conns s)" "udp_match dest v" by (auto simp: udp_demux_def find_Some_iff)
  moreover have "distinct (filter (\<lambda>p. p \<noteq> 0) (map (\<lambda>u. sk_port (udp_local u)) (udp_conns s)))"
    using udp_reach_ok [OF assms(1)] by (simp add: udp_ok_def comp_def)
  moreover from m assms(2-4) have "sk_port (udp_local v) = sk_port (udp_local u)" "sk_port (udp_local v) \<noteq> 0"
    by (auto simp: udp_match_def)
  ultimately have "v = u" using distinct_port_owner [where f = "\<lambda>u. sk_port (udp_local u)"] assms(2) by blast
  with v show ?thesis by simp
qed

theorem udp_port_owner_witness:
  "\<exists>u. udp_demux (sockaddr_in 0x0100a8c0 (htons 1024)) (snd (udp_open True 0x1000 None None (snd (udp_open True 0x2000 None (Some (sockaddr_in 0 (htons 69))) udp_init)))) = Some u"
proof -
  define s where "s = snd (udp_open True 0x1000 None None (snd (udp_open True 0x2000 None (Some (sockaddr_in 0 (htons 69))) udp_init)))"
  define u where "u = hd (udp_conns s)"
  have "udp_reach s" unfolding s_def by (intro udp_reach.intros)
  moreover have "u \<in> set (udp_conns s)" "udp_match (sockaddr_in 0x0100a8c0 (htons 1024)) u" "\<forall>v \<in> set (udp_conns s). sk_port (udp_local v) \<noteq> 0"
    unfolding u_def s_def by code_simp+
  ultimately show ?thesis unfolding s_def [symmetric] by (intro exI udp_port_owner)
qed

text \<open>C34: automatic ports run out.  The search for a free port never starts again from 1024: opening a socket with an automatic
  port and closing it works 64512 times, and from then on every such call fails with EADDRINUSE although no socket is open.\<close>

theorem udp_ports_run_out:
  "udp_conns ((udp_cycle p ^^ n) udp_init) = [] \<and>
   fst (udp_open True p None None ((udp_cycle p ^^ n) udp_init)) = (if n < 64512 then None else Some EADDRINUSE)"
proof -
  have "unat (1023 + of_nat n :: u16) = 1023 + n" "unat (1023 + of_nat n + 1 :: u16) = 1024 + n" if "n < 64512"
    using that by (simp_all add: unat_of_nat unat_word_ariths)
  then have "1023 + of_nat n \<noteq> (0 :: u16) \<and> \<not> 1023 + of_nat n + 1 < (1024 :: u16)" if "n < 64512"
    using that by (auto simp: word_less_nat_alt)
  moreover consider "n < 64512" | "n = 64512" | "n > 64512" by linarith
  ultimately show ?thesis unfolding udp_cycles by cases (simp_all add: udp_open_auto udp_init_def)
qed

end
