(* ===== verification/Arp.thy ===== *)
theory Arp
  imports Ipv4 "HOL-Library.Multiset"
begin

text \<open>
  The address resolution protocol (\<open>src/src/net/arp.c\<close>, \<open>src/src/include/ipxe/if_arp.h\<close>).  An entry of the cache and its timer
  have one address; the timers and reference counts are those of \<open>Retry\<close> and \<open>Refcnt\<close>.  What is handed to \<open>net_tx()\<close> is an
  entry of the log \<open>arp_sent\<close>, with the network protocol or \<open>None\<close> for ARP itself; a packet given up with \<open>netdev_tx_err()\<close>
  is an entry of \<open>arp_dropped\<close>.  Network devices, protocols and allocation are an environment.  \<open>arp_rx\<close> is \<open>None\<close> where the
  code reads or writes behind the end of the packet.
\<close>

section \<open>State\<close>

record arp_entry =
  arp_key :: ptr
  arp_netdev :: ptr
  arp_proto :: ptr
  net_dest :: "byte list"
  net_source :: "byte list"
  arp_ll_dest :: "byte list"
  arp_queue :: "byte list list"

record arp = timers +
  arp_entries :: "arp_entry list"
  arp_sent :: "(ptr \<times> ptr option \<times> byte list \<times> byte list) list"
  arp_dropped :: "(ptr \<times> errno \<times> byte list) list"

record arp_env = ip_env +
  net_proto :: "ptr \<Rightarrow> u16"
  net_addr_len :: "ptr \<Rightarrow> nat"
  ll_proto :: "ptr \<Rightarrow> u16"
  ll_addr_len :: "ptr \<Rightarrow> nat"
  ll_addr :: "ptr \<Rightarrow> byte list"
  entry_mem :: bool
  arp_net_protocols :: "ptr list"
  arp_check :: "ptr \<Rightarrow> ptr \<Rightarrow> byte list \<Rightarrow> rc"

definition ARP_MIN_TIMEOUT :: "'e arp_env_scheme \<Rightarrow> u32" where
  "ARP_MIN_TIMEOUT env = ip_tps env div 8"

definition ARP_MAX_TIMEOUT :: "'e arp_env_scheme \<Rightarrow> u32" where
  "ARP_MAX_TIMEOUT env = ip_tps env * 3"

definition ARPOP_REQUEST :: u16 where "ARPOP_REQUEST = 1"
definition ARPOP_REPLY :: u16 where "ARPOP_REPLY = 2"

definition ARP_FREE :: nat where "ARP_FREE = 0"

definition net_tx :: "'e arp_env_scheme \<Rightarrow> ptr \<Rightarrow> ptr option \<Rightarrow> byte list \<Rightarrow> byte list \<Rightarrow> 'a arp_scheme \<Rightarrow> rc \<times> 'a arp_scheme" where
  "net_tx env netdev proto ll iobuf s = (link_rc env, s\<lparr>arp_sent := arp_sent s @ [(netdev, proto, ll, iobuf)]\<rparr>)"

definition upd_entry :: "ptr \<Rightarrow> (arp_entry \<Rightarrow> arp_entry) \<Rightarrow> 'a arp_scheme \<Rightarrow> 'a arp_scheme" where
  "upd_entry p f s = s\<lparr>arp_entries := map (\<lambda>e. if arp_key e = p then f e else e) (arp_entries s)\<rparr>"

section \<open>The cache\<close>

text \<open>The new entry is zeroed memory at the address \<open>new\<close>.\<close>

definition arp_create :: "'e arp_env_scheme \<Rightarrow> ptr \<Rightarrow> ptr \<Rightarrow> ptr \<Rightarrow> byte list \<Rightarrow> byte list \<Rightarrow> 'a arp_scheme \<Rightarrow> (arp_entry \<times> 'a arp_scheme) option" where
  "arp_create env new netdev proto dest source s =
     (if \<not> entry_mem env then None
      else let s = s\<lparr>refcnts := (refcnts s)(new := \<lparr>rcount = 0, rfree = None\<rparr>)\<rparr>;
               s = ref_init new (Some ARP_FREE) s;
               arp = \<lparr>arp_key = new, arp_netdev = netdev, arp_proto = proto, net_dest = take (net_addr_len env proto) dest,
                      net_source = take (net_addr_len env proto) source, arp_ll_dest = replicate 20 0, arp_queue = []\<rparr>;
               s = timer_init new new (set_timer new zero_timer s);
               s = set_timer new ((timer_of s new)\<lparr>min_timeout := ARP_MIN_TIMEOUT env, max_timeout := ARP_MAX_TIMEOUT env\<rparr>) s;
               s = start_timer_nodelay (ip_tps env) (ip_now env) new s
           in Some (arp, s\<lparr>arp_entries := arp # arp_entries s\<rparr>))"

definition arp_matches :: "'e arp_env_scheme \<Rightarrow> ptr \<Rightarrow> ptr \<Rightarrow> byte list \<Rightarrow> arp_entry \<Rightarrow> bool" where
  "arp_matches env netdev proto dest arp \<longleftrightarrow>
     arp_netdev arp = netdev \<and> arp_proto arp = proto \<and> take (net_addr_len env proto) (net_dest arp) = take (net_addr_len env proto) dest"

definition arp_find :: "'e arp_env_scheme \<Rightarrow> ptr \<Rightarrow> ptr \<Rightarrow> byte list \<Rightarrow> 'a arp_scheme \<Rightarrow> arp_entry option \<times> 'a arp_scheme" where
  "arp_find env netdev proto dest s =
     (case find (arp_matches env netdev proto dest) (arp_entries s) of
        None \<Rightarrow> (None, s)
      | Some arp \<Rightarrow> (Some arp, s\<lparr>arp_entries := arp # remove1 arp (arp_entries s)\<rparr>))"

definition arp_destroy :: "'e arp_env_scheme \<Rightarrow> arp_entry \<Rightarrow> errno \<Rightarrow> 'a arp_scheme \<Rightarrow> 'a arp_scheme" where
  "arp_destroy env arp rc s =
     (let s = s\<lparr>arp_entries := remove1 arp (arp_entries s)\<rparr>;
          s = stop_timer (ip_now env) (arp_key arp) s;
          s = s\<lparr>arp_dropped := arp_dropped s @ map (\<lambda>iobuf. (arp_netdev arp, rc, iobuf)) (arp_queue arp)\<rparr>
      in ref_put (arp_key arp) s)"

definition arp_resolved :: "arp_entry \<Rightarrow> 'a arp_scheme \<Rightarrow> bool" where
  "arp_resolved arp s \<longleftrightarrow> \<not> timer_running (arp_key arp) s"

text \<open>The link layer reads as many bytes of the address as it has.\<close>

definition arp_send :: "'e arp_env_scheme \<Rightarrow> byte list \<Rightarrow> ptr \<Rightarrow> ptr \<Rightarrow> arp_entry \<Rightarrow> 'a arp_scheme \<Rightarrow> rc \<times> 'a arp_scheme" where
  "arp_send env iobuf netdev proto arp s =
     (if arp_resolved arp s then net_tx env netdev (Some proto) (take (ll_addr_len env netdev) (arp_ll_dest arp)) iobuf s
      else (Some EAGAIN, upd_entry (arp_key arp) (\<lambda>arp. arp\<lparr>arp_queue := arp_queue arp @ [iobuf]\<rparr>) s))"

definition arp_tx :: "'e arp_env_scheme \<Rightarrow> ptr \<Rightarrow> byte list \<Rightarrow> ptr \<Rightarrow> ptr \<Rightarrow> byte list \<Rightarrow> byte list \<Rightarrow> 'a arp_scheme \<Rightarrow> rc \<times> 'a arp_scheme" where
  "arp_tx env new iobuf netdev proto dest source s =
     (case arp_find env netdev proto dest s of
        (Some arp, s) \<Rightarrow> arp_send env iobuf netdev proto arp s
      | (None, s) \<Rightarrow>
          (case arp_create env new netdev proto dest source s of
             None \<Rightarrow> (Some ENOMEM, s)
           | Some (arp, s) \<Rightarrow> arp_send env iobuf netdev proto arp s))"

fun transmit_deferred :: "'e arp_env_scheme \<Rightarrow> arp_entry \<Rightarrow> byte list \<Rightarrow> byte list list \<Rightarrow> 'a arp_scheme \<Rightarrow> 'a arp_scheme" where
  "transmit_deferred env arp ll [] s = s"
| "transmit_deferred env arp ll (iobuf # queue) s =
     (let s = upd_entry (arp_key arp) (\<lambda>arp. arp\<lparr>arp_queue := queue\<rparr>) s;
          (rc, s) = net_tx env (arp_netdev arp) (Some (arp_proto arp)) ll iobuf s
      in transmit_deferred env arp ll queue s)"

definition arp_update :: "'e arp_env_scheme \<Rightarrow> arp_entry \<Rightarrow> byte list \<Rightarrow> 'a arp_scheme \<Rightarrow> 'a arp_scheme" where
  "arp_update env arp ll s =
     (let ll = take (ll_addr_len env (arp_netdev arp)) ll;
          s = upd_entry (arp_key arp) (\<lambda>arp. arp\<lparr>arp_ll_dest := ll @ drop (length ll) (arp_ll_dest arp)\<rparr>) s;
          s = stop_timer (ip_now env) (arp_key arp) s;
          s = ref_get (arp_key arp) s;
          s = transmit_deferred env arp ll (arp_queue arp) s
      in ref_put (arp_key arp) s)"

section \<open>Packets\<close>

definition arp_packet :: "u16 \<Rightarrow> u16 \<Rightarrow> byte \<Rightarrow> byte \<Rightarrow> u16 \<Rightarrow> byte list \<Rightarrow> byte list \<Rightarrow> byte list \<Rightarrow> byte list \<Rightarrow> byte list" where
  "arp_packet ar_hrd ar_pro ar_hln ar_pln ar_op sha spa tha tpa =
     stored16 ar_hrd @ stored16 ar_pro @ [ar_hln, ar_pln] @ stored16 ar_op @ sha @ spa @ tha @ tpa"

definition arp_request :: "'e arp_env_scheme \<Rightarrow> arp_entry \<Rightarrow> byte list" where
  "arp_request env arp =
     (let netdev = arp_netdev arp; h = ll_addr_len env netdev; p = net_addr_len env (arp_proto arp)
      in arp_packet (ll_proto env netdev) (net_proto env (arp_proto arp)) (of_nat h) (of_nat p) (htons ARPOP_REQUEST)
           (take h (ll_addr env netdev)) (take p (net_source arp)) (replicate h 0) (take p (net_dest arp)))"

definition arp_expired :: "'e arp_env_scheme \<Rightarrow> ptr \<Rightarrow> bool \<Rightarrow> 'a arp_scheme \<Rightarrow> 'a arp_scheme" where
  "arp_expired env p fail s =
     (case find (\<lambda>arp. arp_key arp = p) (arp_entries s) of
        None \<Rightarrow> s
      | Some arp \<Rightarrow>
          if fail then arp_destroy env arp ETIMEDOUT s
          else let s = start_timer (ip_tps env) (ip_now env) p s
               in if \<not> iob_mem env then s
                  else snd (net_tx env (arp_netdev arp) None (ll_broadcast env (arp_netdev arp)) (arp_request env arp) s))"

definition arp_find_protocol :: "'e arp_env_scheme \<Rightarrow> u16 \<Rightarrow> ptr option" where
  "arp_find_protocol env proto = find (\<lambda>np. net_proto env np = proto) (arp_net_protocols env)"

definition arp_reply :: "byte list \<Rightarrow> nat \<Rightarrow> nat \<Rightarrow> byte list \<Rightarrow> byte list" where
  "arp_reply ll_address h p iobuf =
     (let sender = take (h + p) (drop 8 iobuf); target = take (h + p) (drop (8 + h + p) iobuf)
      in take 6 iobuf @ stored16 (htons ARPOP_REPLY) @ take h ll_address @ drop h target @ sender @ drop (8 + 2 * (h + p)) iobuf)"

definition arp_rx :: "'e arp_env_scheme \<Rightarrow> ptr \<Rightarrow> byte list \<Rightarrow> 'a arp_scheme \<Rightarrow> (rc \<times> 'a arp_scheme) option" where
  "arp_rx env netdev iobuf s =
     (if length iobuf < 8 then None
      else case arp_find_protocol env (field16 iobuf 2) of
        None \<Rightarrow> Some (Some EPROTONOSUPPORT, s)
      | Some proto \<Rightarrow>
          let h = unat (iobuf ! 4); p = unat (iobuf ! 5)
          in if field16 iobuf 0 \<noteq> ll_proto env netdev \<or> h \<noteq> ll_addr_len env netdev \<or> p \<noteq> net_addr_len env proto
             then Some (Some EINVAL, s)
             else if length iobuf < 8 + h + p then None
             else
               let (arp, s) = arp_find env netdev proto (drop (8 + h) iobuf) s;
                   s = (case arp of None \<Rightarrow> s | Some arp \<Rightarrow> arp_update env arp (drop 8 iobuf) s)
               in if field16 iobuf 6 \<noteq> htons ARPOP_REQUEST then Some (None, s)
                  else if length iobuf < 8 + 2 * (h + p) then None
                  else if arp_check env proto netdev (take p (drop (8 + 2 * h + p) iobuf)) \<noteq> None then Some (None, s)
                  else let reply = arp_reply (ll_addr env netdev) h p iobuf
                       in Some (net_tx env netdev None (take h (drop (8 + h + p) reply)) reply s))"

section \<open>Events from outside\<close>

definition arp_flush :: "'e arp_env_scheme \<Rightarrow> ptr \<Rightarrow> 'a arp_scheme \<Rightarrow> 'a arp_scheme" where
  "arp_flush env netdev s =
     (if \<not> netdev_is_open env netdev then fold (\<lambda>arp. arp_destroy env arp ENODEV) (arp_entries s) s else s)"

definition arp_discard :: "'e arp_env_scheme \<Rightarrow> 'a arp_scheme \<Rightarrow> u32 \<times> 'a arp_scheme" where
  "arp_discard env s =
     (if arp_entries s = [] then (0, s) else (1, arp_destroy env (last (arp_entries s)) ENOBUFS s))"

definition arp_poll :: "'e arp_env_scheme \<Rightarrow> 'a arp_scheme \<Rightarrow> 'a arp_scheme" where
  "arp_poll env s = retry_poll (arp_expired env) (ip_tps env) (ip_now env) s"

section \<open>Lemmas\<close>

lemma arp_fields_refs [simp]:
  "arp_entries (ref_get p s) = arp_entries s" "arp_entries (ref_put p s) = arp_entries s" "arp_entries (ref_init p f s) = arp_entries s"
  "arp_sent (ref_get p s) = arp_sent s" "arp_sent (ref_put p s) = arp_sent s" "arp_sent (ref_init p f s) = arp_sent s"
  "arp_dropped (ref_get p s) = arp_dropped s" "arp_dropped (ref_put p s) = arp_dropped s" "arp_dropped (ref_init p f s) = arp_dropped s"
  by (simp_all add: ref_get_def ref_increment_def ref_put_def ref_decrement_def ref_init_def set_count_def Let_def split: option.split)

lemma arp_fields_timers [simp]:
  "arp_entries (set_timer p t s) = arp_entries s" "arp_sent (set_timer p t s) = arp_sent s" "arp_dropped (set_timer p t s) = arp_dropped s"
  "arp_entries (start_timer tk tm p s) = arp_entries s" "arp_sent (start_timer tk tm p s) = arp_sent s"
  "arp_dropped (start_timer tk tm p s) = arp_dropped s"
  "arp_entries (stop_timer tm p s) = arp_entries s" "arp_sent (stop_timer tm p s) = arp_sent s"
  "arp_dropped (stop_timer tm p s) = arp_dropped s"
  by (simp_all add: set_timer_def start_timer_def stop_timer_def Let_def)

lemma refcnts_set_timer [simp]: "refcnts (set_timer p t s) = refcnts s"
  by (simp add: set_timer_def)

lemma rcount_refs:
  "rcount (refcnts (ref_get p s) q) = (if q = p \<and> p \<noteq> NULL then rcount (refcnts s q) + 1 else rcount (refcnts s q))"
  "rcount (refcnts (ref_put p s) q) = (if q = p \<and> p \<noteq> NULL then rcount (refcnts s q) - 1 else rcount (refcnts s q))"
  by (simp_all add: ref_get_def ref_increment_def ref_put_def ref_decrement_def set_count_def Let_def)

lemma stop_timer_at:
  "timer_of (stop_timer tm p s) q = (if q = p then stop_fields tm (timer_of s q) else timer_of s q)"
  "rcount (refcnts (stop_timer tm p s) q) =
     (if q = trefcnt (timer_of s p) \<and> q \<noteq> NULL \<and> running (timer_of s p) then rcount (refcnts s q) - 1 else rcount (refcnts s q))"
proof -
  have "trefcnt (stop_fields tm t) = trefcnt t" for t by (simp add: stop_fields_def Let_def)
  then show "rcount (refcnts (stop_timer tm p s) q) =
     (if q = trefcnt (timer_of s p) \<and> q \<noteq> NULL \<and> running (timer_of s p) then rcount (refcnts s q) - 1 else rcount (refcnts s q))"
    by (auto simp: stop_timer_def rcount_refs Let_def)
qed (simp add: stop_timer_def stop_fields_def Let_def)

lemma start_timer_at:
  "timer_of (start_timer tk tm p s) q = (if q = p then start_fields tk tm (timer_of s q) else timer_of s q)"
  "rcount (refcnts (start_timer tk tm p s) q) =
     (if q = trefcnt (timer_of s p) \<and> q \<noteq> NULL \<and> \<not> running (timer_of s p) then rcount (refcnts s q) + 1 else rcount (refcnts s q))"
  by (auto simp: start_timer_def rcount_refs Let_def)

lemma trefcnt_fields [simp]:
  "trefcnt (start_fields tk tm t) = trefcnt t" "trefcnt (stop_fields tm t) = trefcnt t"
  "trefcnt (snd (expire_fields tk t)) = trefcnt t"
  by (simp_all add: start_fields_def stop_fields_def expire_fields_def Let_def)

section \<open>The invariant\<close>

text \<open>\<open>given\<close> are the packets that \<open>arp_tx\<close> took over, with their destination; \<open>heard\<close> are the pairs of addresses that ARP
  packets announced.  \<open>hold\<close> is the entry whose timer just expired, on which the timer code still has a reference.\<close>

type_synonym bindings = "(ptr \<times> ptr \<times> byte list \<times> byte list) set"

definition entry_ok :: "(ptr \<Rightarrow> nat) \<Rightarrow> (ptr \<Rightarrow> nat) \<Rightarrow> bool \<Rightarrow> bindings \<Rightarrow> bindings \<Rightarrow> retry_timer \<Rightarrow> u32 \<Rightarrow> arp_entry \<Rightarrow> bool" where
  "entry_ok nal lal hold given heard t cnt arp \<longleftrightarrow>
     arp_key arp \<noteq> NULL \<and> trefcnt t = arp_key arp \<and>
     cnt = (if running t then 1 else 0) + (if hold then 1 else 0) \<and>
     take (nal (arp_proto arp)) (net_dest arp) = net_dest arp \<and>
     (\<forall>iobuf \<in> set (arp_queue arp). (arp_netdev arp, arp_proto arp, net_dest arp, iobuf) \<in> given) \<and>
     (\<not> running t \<and> \<not> hold \<longrightarrow>
        arp_queue arp = [] \<and> (arp_netdev arp, arp_proto arp, net_dest arp, take (lal (arp_netdev arp)) (arp_ll_dest arp)) \<in> heard)"

definition frame_ok :: "bindings \<Rightarrow> bindings \<Rightarrow> ptr \<times> ptr option \<times> byte list \<times> byte list \<Rightarrow> bool" where
  "frame_ok given heard = (\<lambda>(netdev, proto, ll, iobuf).
     case proto of
       None \<Rightarrow> True
     | Some proto \<Rightarrow> \<exists>dest. (netdev, proto, dest, iobuf) \<in> given \<and> (netdev, proto, dest, ll) \<in> heard)"

definition arp_data :: "'a arp_scheme \<Rightarrow> byte list multiset" where
  "arp_data s =
     mset (map (\<lambda>(netdev, proto, ll, iobuf). iobuf) (filter (\<lambda>(netdev, proto, ll, iobuf). proto \<noteq> None) (arp_sent s))) +
     mset (concat (map arp_queue (arp_entries s))) + mset (map (\<lambda>(netdev, rc, iobuf). iobuf) (arp_dropped s))"

definition arp_inv :: "(ptr \<Rightarrow> nat) \<Rightarrow> (ptr \<Rightarrow> nat) \<Rightarrow> ptr option \<Rightarrow> bindings \<Rightarrow> bindings \<Rightarrow> 'a arp_scheme \<Rightarrow> bool" where
  "arp_inv nal lal hold given heard s \<longleftrightarrow>
     distinct (map arp_key (arp_entries s)) \<and> timers_ok s \<and>
     (\<forall>p. running (timer_of s p) \<longrightarrow> p \<in> arp_key ` set (arp_entries s)) \<and>
     (\<forall>arp \<in> set (arp_entries s).
        entry_ok nal lal (hold = Some (arp_key arp)) given heard (timer_of s (arp_key arp)) (rcount (refcnts s (arp_key arp))) arp) \<and>
     (\<forall>frame \<in> set (arp_sent s). frame_ok given heard frame)"

lemma arp_inv_mono:
  "arp_inv nal lal hold given heard s \<Longrightarrow> given \<subseteq> given' \<Longrightarrow> heard \<subseteq> heard' \<Longrightarrow> arp_inv nal lal hold given' heard' s"
proof -
  assume i: "arp_inv nal lal hold given heard s" and sub: "given \<subseteq> given'" "heard \<subseteq> heard'"
  have "entry_ok nal lal h given heard t c e \<Longrightarrow> entry_ok nal lal h given' heard' t c e" for h t c e
    using sub by (auto simp: entry_ok_def)
  moreover have "frame_ok given heard f \<Longrightarrow> frame_ok given' heard' f" for f
    using sub by (auto simp: frame_ok_def split: option.splits) blast
  ultimately show ?thesis using i by (simp add: arp_inv_def)
qed

lemma remove1_keys:
  assumes "distinct (map arp_key es)" and "arp \<in> set es"
  shows "distinct (map arp_key (remove1 arp es))" "set (remove1 arp es) = {e \<in> set es. arp_key e \<noteq> arp_key arp}"
    "mset (concat (map arp_queue es)) = mset (arp_queue arp) + mset (concat (map arp_queue (remove1 arp es)))"
proof -
  have d: "distinct es" "inj_on arp_key (set es)" using assms(1) by (simp_all add: distinct_map)
  then show "distinct (map arp_key (remove1 arp es))" by (auto simp: distinct_map intro: inj_on_subset)
  show "set (remove1 arp es) = {e \<in> set es. arp_key e \<noteq> arp_key arp}"
    using inj_onD [OF d(2)] assms(2) unfolding set_remove1_eq [OF d(1)] by auto
  show "mset (concat (map arp_queue es)) = mset (arp_queue arp) + mset (concat (map arp_queue (remove1 arp es)))"
    using assms(2) by (induction es) auto
qed

lemma find_entry: "find (arp_matches env netdev proto dest) es = Some arp \<Longrightarrow> arp \<in> set es \<and> arp_matches env netdev proto dest arp"
  by (auto simp: find_Some_iff)

lemma arp_inv_entries:
  assumes "arp_inv nal lal hold given heard s" and "distinct (map arp_key es)" and "set es = set (arp_entries s)"
  shows "arp_inv nal lal hold given heard (s\<lparr>arp_entries := es\<rparr>)"
  using assms by (simp add: arp_inv_def timers_ok_def)

lemma arp_find_inv:
  assumes "arp_inv nal lal hold given heard s" and "arp_find env netdev proto dest s = (r, s')"
  shows "arp_inv nal lal hold given heard s'" "arp_data s' = arp_data s" "timer_of s' = timer_of s"
    "\<forall>arp. r = Some arp \<longrightarrow> arp \<in> set (arp_entries s') \<and> arp_matches env netdev proto dest arp"
proof -
  have "arp_inv nal lal hold given heard s' \<and> arp_data s' = arp_data s \<and> timer_of s' = timer_of s \<and>
    (\<forall>arp. r = Some arp \<longrightarrow> arp \<in> set (arp_entries s') \<and> arp_matches env netdev proto dest arp)"
  proof (cases "find (arp_matches env netdev proto dest) (arp_entries s)")
    case None
    then show ?thesis using assms by (simp add: arp_find_def)
  next
    case (Some arp)
    define es where "es = arp # remove1 arp (arp_entries s)"
    have d: "distinct (map arp_key (arp_entries s))" using assms(1) by (simp add: arp_inv_def)
    have m: "arp \<in> set (arp_entries s)" "arp_matches env netdev proto dest arp" using find_entry [OF Some] by auto
    note k = remove1_keys [OF d m(1)]
    have "distinct (map arp_key es)" using k(1) unfolding es_def by (auto simp: k(2))
    moreover have "set es = set (arp_entries s)"
    proof -
      have "e = arp" if "e \<in> set (arp_entries s)" "arp_key e = arp_key arp" for e
        using d m(1) that by (auto simp: distinct_map inj_on_def)
      then show ?thesis using m(1) unfolding es_def list.set k(2) by blast
    qed
    ultimately have "arp_inv nal lal hold given heard (s\<lparr>arp_entries := es\<rparr>)" by (rule arp_inv_entries [OF assms(1)])
    then show ?thesis using assms(2) Some m k(3) by (simp add: arp_find_def arp_data_def flip: es_def) (auto simp: es_def arp_data_def)
  qed
  then show "arp_inv nal lal hold given heard s'" "arp_data s' = arp_data s" "timer_of s' = timer_of s"
    "\<forall>arp. r = Some arp \<longrightarrow> arp \<in> set (arp_entries s') \<and> arp_matches env netdev proto dest arp" by auto
qed

lemma arp_destroy_inv:
  assumes "arp_inv nal lal hold given heard s" and "arp \<in> set (arp_entries s)" and "hold = None \<or> hold = Some (arp_key arp)"
  shows "arp_inv nal lal None given heard (arp_destroy env arp rc s)" "arp_data (arp_destroy env arp rc s) = arp_data s"
proof -
  have d: "distinct (map arp_key (arp_entries s))" using assms(1) by (simp add: arp_inv_def)
  note k = remove1_keys [OF d assms(2)]
  have t: "trefcnt (timer_of s (arp_key arp)) = arp_key arp" using assms(1,2) by (simp add: arp_inv_def entry_ok_def)
  let ?s = "arp_destroy env arp rc s"
  have e: "arp_entries ?s = remove1 arp (arp_entries s)" "arp_sent ?s = arp_sent s" by (simp_all add: arp_destroy_def Let_def)
  have r: "timer_of ?s q = timer_of s q" "rcount (refcnts ?s q) = rcount (refcnts s q)" if "q \<noteq> arp_key arp" for q
    using that t by (simp_all add: arp_destroy_def Let_def stop_timer_at rcount_refs)
  have n: "\<not> running (timer_of ?s (arp_key arp))" by (simp add: arp_destroy_def Let_def stop_timer_at)
  have "timers_ok (stop_timer (ip_now env) (arp_key arp) (s\<lparr>arp_entries := remove1 arp (arp_entries s)\<rparr>))"
    using assms(1) by (intro stop_timer_ok) (simp add: arp_inv_def timers_ok_def)
  then have "timers_ok ?s" by (simp add: arp_destroy_def Let_def timers_ok_def)
  moreover have "\<forall>p. running (timer_of ?s p) \<longrightarrow> p \<in> arp_key ` set (arp_entries ?s)"
    using assms(1) r(1) n unfolding e k(2) arp_inv_def by (auto simp: image_iff) metis
  ultimately show "arp_inv nal lal None given heard ?s"
    using assms(1,3) k(1) unfolding arp_inv_def e(2) by (auto simp: e(1) k(2) r)
  show "arp_data ?s = arp_data s"
    using k(3) by (simp add: arp_data_def e arp_destroy_def Let_def comp_def)
qed

text \<open>An operation that works on one entry.\<close>

lemma arp_inv_at:
  assumes inv: "arp_inv nal lal hold given heard s"
    and es: "arp_entries s' = map (\<lambda>e. if arp_key e = p then f e else e) (arp_entries s)" and key: "\<And>e. arp_key (f e) = arp_key e"
    and ok: "timers_ok s'" and other: "\<And>q. q \<noteq> p \<Longrightarrow> timer_of s' q = timer_of s q \<and> rcount (refcnts s' q) = rcount (refcnts s q)"
    and at: "\<And>e. e \<in> set (arp_entries s) \<Longrightarrow> arp_key e = p \<Longrightarrow>
      entry_ok nal lal (hold' = Some p) given heard (timer_of s' p) (rcount (refcnts s' p)) (f e)"
    and run: "running (timer_of s' p) \<Longrightarrow> p \<in> arp_key ` set (arp_entries s)"
    and frames: "\<And>frame. frame \<in> set (arp_sent s') \<Longrightarrow> frame \<in> set (arp_sent s) \<or> frame_ok given heard frame"
    and hold: "hold = None \<or> hold = Some p" "hold' = None \<or> hold' = Some p"
  shows "arp_inv nal lal hold' given heard s'"
proof -
  let ?g = "\<lambda>e. if arp_key e = p then f e else e"
  have keys: "arp_key (?g e) = arp_key e" for e using key by simp
  have "map arp_key (arp_entries s') = map arp_key (arp_entries s)" by (simp add: es comp_def keys)
  then have k: "distinct (map arp_key (arp_entries s'))" "arp_key ` set (arp_entries s') = arp_key ` set (arp_entries s)"
    using inv by (auto simp: arp_inv_def simp flip: set_map)
  have e: "entry_ok nal lal (hold' = Some (arp_key (?g e))) given heard (timer_of s' (arp_key (?g e))) (rcount (refcnts s' (arp_key (?g e)))) (?g e)"
    if e: "e \<in> set (arp_entries s)" for e
  proof (cases "arp_key e = p")
    case True
    then show ?thesis using at [OF e] key by simp
  next
    case False
    then show ?thesis using inv e other [of "arp_key e"] hold by (auto simp: arp_inv_def)
  qed
  have "\<forall>arp \<in> set (arp_entries s').
      entry_ok nal lal (hold' = Some (arp_key arp)) given heard (timer_of s' (arp_key arp)) (rcount (refcnts s' (arp_key arp))) arp"
    unfolding es set_map using e by blast
  moreover have "\<forall>q. running (timer_of s' q) \<longrightarrow> q \<in> arp_key ` set (arp_entries s)"
    using inv run other unfolding arp_inv_def by metis
  moreover have "\<forall>frame \<in> set (arp_sent s'). frame_ok given heard frame" using inv frames unfolding arp_inv_def by blast
  ultimately show ?thesis using k ok unfolding arp_inv_def k(2) by blast
qed

lemma queue_at:
  assumes "distinct (map arp_key es)" and "arp \<in> set es"
  shows "mset (concat (map arp_queue (map (\<lambda>e. if arp_key e = arp_key arp then f e else e) es))) + mset (arp_queue arp) =
    mset (concat (map arp_queue es)) + mset (arp_queue (f arp))"
  using assms
proof (induction es)
  case (Cons e es)
  show ?case
  proof (cases "e = arp")
    case True
    have "arp_key x \<noteq> arp_key arp" if "x \<in> set es" for x
      using Cons.prems(1) True imageI [OF that, of arp_key] by auto
    then have "map (\<lambda>e. if arp_key e = arp_key arp then f e else e) es = es" by (intro map_idI) simp
    then show ?thesis by (simp add: True ac_simps)
  next
    case False
    then have "arp \<in> set es" "arp_key e \<noteq> arp_key arp" using Cons.prems by auto
    then show ?thesis using Cons by (simp add: ac_simps)
  qed
qed simp

lemma transmit_deferred_eq:
  "transmit_deferred env arp ll queue s =
     (if queue = [] then s
      else (upd_entry (arp_key arp) (\<lambda>arp. arp\<lparr>arp_queue := []\<rparr>) s)
        \<lparr>arp_sent := arp_sent s @ map (\<lambda>iobuf. (arp_netdev arp, Some (arp_proto arp), ll, iobuf)) queue\<rparr>)"
proof (induction queue arbitrary: s)
  case (Cons iobuf queue)
  have "(\<lambda>e. if arp_key (if arp_key e = k then e\<lparr>arp_queue := q\<rparr> else e) = k then (if arp_key e = k then e\<lparr>arp_queue := q\<rparr> else e)\<lparr>arp_queue := []\<rparr>
      else if arp_key e = k then e\<lparr>arp_queue := q\<rparr> else e) = (\<lambda>e. if arp_key e = k then e\<lparr>arp_queue := []\<rparr> else e)" for k q
    by auto
  then show ?case using Cons by (cases "queue = []") (simp_all add: net_tx_def upd_entry_def Let_def comp_def)
qed simp

lemma arp_send_inv:
  assumes inv: "arp_inv nal lal None given heard s" and arp: "arp \<in> set (arp_entries s)" "arp_netdev arp = netdev" "arp_proto arp = proto"
    and lal: "ll_addr_len env = lal" and given: "(netdev, proto, net_dest arp, iobuf) \<in> given"
  shows "arp_inv nal lal None given heard (snd (arp_send env iobuf netdev proto arp s))"
    "arp_data (snd (arp_send env iobuf netdev proto arp s)) = add_mset iobuf (arp_data s)"
proof -
  let ?t = "timer_of s (arp_key arp)" and ?c = "rcount (refcnts s (arp_key arp))"
  have d: "distinct (map arp_key (arp_entries s))" using inv by (simp add: arp_inv_def)
  have e: "entry_ok nal lal False given heard ?t ?c arp" using inv arp(1) by (simp add: arp_inv_def)
  have u: "e = arp" if "e \<in> set (arp_entries s)" "arp_key e = arp_key arp" for e
    using d arp(1) that by (auto simp: distinct_map inj_on_def)
  show "arp_inv nal lal None given heard (snd (arp_send env iobuf netdev proto arp s))"
  proof (cases "arp_resolved arp s")
    case True
    then have "frame_ok given heard (netdev, Some proto, take (lal netdev) (arp_ll_dest arp), iobuf)"
      using e arp given by (auto simp: arp_resolved_def timer_running_def entry_ok_def frame_ok_def)
    then show ?thesis using inv True lal by (simp add: arp_send_def net_tx_def arp_inv_def timers_ok_def)
  next
    case False
    then show ?thesis
      using e inv arp given u
      by (intro arp_inv_at [OF inv, where p = "arp_key arp" and f = "\<lambda>arp. arp\<lparr>arp_queue := arp_queue arp @ [iobuf]\<rparr>"])
        (auto simp: arp_send_def upd_entry_def arp_inv_def timers_ok_def arp_resolved_def timer_running_def entry_ok_def)
  qed
  show "arp_data (snd (arp_send env iobuf netdev proto arp s)) = add_mset iobuf (arp_data s)"
    using queue_at [OF d arp(1), of "\<lambda>arp. arp\<lparr>arp_queue := arp_queue arp @ [iobuf]\<rparr>"]
    by (auto simp: arp_send_def net_tx_def upd_entry_def arp_data_def)
qed

lemma arp_create_inv:
  assumes inv: "arp_inv nal lal None given heard s" and new: "new \<noteq> NULL" "new \<notin> arp_key ` set (arp_entries s)"
    and nal: "net_addr_len env = nal" and "entry_mem env"
  shows "\<exists>arp s'. arp_create env new netdev proto dest source s = Some (arp, s') \<and> arp_inv nal lal None given heard s' \<and>
    arp_data s' = arp_data s \<and> arp \<in> set (arp_entries s') \<and> arp_netdev arp = netdev \<and> arp_proto arp = proto \<and> net_dest arp = take (nal proto) dest"
proof -
  define arp where "arp = \<lparr>arp_key = new, arp_netdev = netdev, arp_proto = proto, net_dest = take (nal proto) dest,
    net_source = take (nal proto) source, arp_ll_dest = replicate 20 0, arp_queue = []\<rparr>"
  define T where "T = zero_timer\<lparr>trefcnt := new, min_timeout := ARP_MIN_TIMEOUT env, max_timeout := ARP_MAX_TIMEOUT env\<rparr>"
  define s0 where "s0 = set_timer new T (set_timer new (zero_timer\<lparr>trefcnt := new\<rparr>) (set_timer new zero_timer
    (ref_init new (Some ARP_FREE) (s\<lparr>refcnts := (refcnts s)(new := \<lparr>rcount = 0, rfree = None\<rparr>)\<rparr>))))"
  define s1 where "s1 = start_timer_nodelay (ip_tps env) (ip_now env) new s0"
  have c: "arp_create env new netdev proto dest source s = Some (arp, s1\<lparr>arp_entries := arp # arp_entries s1\<rparr>)"
    using assms(5) by (simp add: arp_create_def timer_init_def s1_def s0_def T_def arp_def nal Let_def)
  have t0: "\<not> running T" "trefcnt T = new" by (simp_all add: T_def zero_timer_def)
  have z: "timer_of s0 q = (if q = new then T else timer_of s q)" "rcount (refcnts s0 q) = (if q = new then 0 else rcount (refcnts s q))"
    "timer_list s0 = timer_list s" for q
    by (simp_all add: s0_def ref_init_def)
  have idle: "\<not> running (timer_of s new)" using inv new(2) by (auto simp: arp_inv_def)
  then have "timers_ok s0" using inv t0(1) by (auto simp: arp_inv_def timers_ok_def z)
  then have ok: "timers_ok s1" unfolding s1_def start_timer_nodelay_def by (rule start_timer_fixed_ok)
  have a: "timer_of s1 q = (if q = new then (start_fields (ip_tps env) (ip_now env) T)\<lparr>timeout := 0\<rparr> else timer_of s q)"
    "rcount (refcnts s1 q) = (if q = new then 1 else rcount (refcnts s q))" for q
    using t0 new(1) by (simp_all add: s1_def start_timer_nodelay_def start_timer_fixed_def Let_def start_timer_at z)
  have b: "arp_entries s1 = arp_entries s" "arp_sent s1 = arp_sent s" "arp_dropped s1 = arp_dropped s"
    by (simp_all add: s1_def start_timer_nodelay_def start_timer_fixed_def Let_def s0_def)
  have "entry_ok nal lal False given heard (timer_of s1 new) (rcount (refcnts s1 new)) arp"
    using new(1) t0 by (simp add: entry_ok_def a arp_def)
  moreover have "entry_ok nal lal False given heard (timer_of s1 (arp_key e)) (rcount (refcnts s1 (arp_key e))) e" if "e \<in> set (arp_entries s)" for e
    using inv new(2) that by (auto simp: arp_inv_def a)
  ultimately have "arp_inv nal lal None given heard (s1\<lparr>arp_entries := arp # arp_entries s1\<rparr>)"
    using inv new(2) ok by (auto simp: arp_inv_def b a timers_ok_def) (simp_all add: arp_def)
  moreover have "arp_data (s1\<lparr>arp_entries := arp # arp_entries s1\<rparr>) = arp_data s" by (simp add: arp_data_def b) (simp add: arp_def)
  ultimately show ?thesis unfolding c by (auto simp: arp_def)
qed

lemma arp_update_fields:
  assumes ok: "timers_ok s" and arp: "arp \<in> set (arp_entries s)" "distinct (map arp_key (arp_entries s))"
    and t: "trefcnt (timer_of s (arp_key arp)) = arp_key arp" "arp_key arp \<noteq> NULL"
    and s': "s' = arp_update env arp ll s" and l: "l = take (ll_addr_len env (arp_netdev arp)) ll"
  shows "arp_entries s' = map (\<lambda>e. if arp_key e = arp_key arp then e\<lparr>arp_ll_dest := l @ drop (length l) (arp_ll_dest e), arp_queue := []\<rparr> else e) (arp_entries s)"
    "arp_sent s' = arp_sent s @ map (\<lambda>iobuf. (arp_netdev arp, Some (arp_proto arp), l, iobuf)) (arp_queue arp)"
    "arp_dropped s' = arp_dropped s" "timers_ok s'"
    "timer_of s' q = (if q = arp_key arp then stop_fields (ip_now env) (timer_of s q) else timer_of s q)"
    "rcount (refcnts s' q) = (if q = arp_key arp \<and> running (timer_of s q) then rcount (refcnts s q) - 1 else rcount (refcnts s q))"
proof -
  let ?f = "\<lambda>arp. arp\<lparr>arp_ll_dest := l @ drop (length l) (arp_ll_dest arp)\<rparr>"
  define s1 where "s1 = ref_get (arp_key arp) (stop_timer (ip_now env) (arp_key arp) (upd_entry (arp_key arp) ?f s))"
  have eq: "s' = ref_put (arp_key arp) (transmit_deferred env arp l (arp_queue arp) s1)"
    by (simp add: s' arp_update_def l s1_def Let_def)
  have u: "arp_queue e = arp_queue arp" if "e \<in> set (arp_entries s)" "arp_key e = arp_key arp" for e
    using arp that by (auto simp: distinct_map inj_on_def)
  show "arp_entries s' = map (\<lambda>e. if arp_key e = arp_key arp then e\<lparr>arp_ll_dest := l @ drop (length l) (arp_ll_dest e), arp_queue := []\<rparr> else e) (arp_entries s)"
    using u by (auto simp: eq transmit_deferred_eq s1_def upd_entry_def)
  show "arp_sent s' = arp_sent s @ map (\<lambda>iobuf. (arp_netdev arp, Some (arp_proto arp), l, iobuf)) (arp_queue arp)" "arp_dropped s' = arp_dropped s"
    by (simp_all add: eq transmit_deferred_eq s1_def upd_entry_def)
  have "timers_ok (stop_timer (ip_now env) (arp_key arp) (upd_entry (arp_key arp) ?f s))"
    using ok by (intro stop_timer_ok) (simp add: timers_ok_def upd_entry_def)
  then show "timers_ok s'" by (simp add: eq transmit_deferred_eq s1_def upd_entry_def timers_ok_def)
  show "timer_of s' q = (if q = arp_key arp then stop_fields (ip_now env) (timer_of s q) else timer_of s q)"
    by (simp add: eq transmit_deferred_eq s1_def upd_entry_def stop_timer_at)
  show "rcount (refcnts s' q) = (if q = arp_key arp \<and> running (timer_of s q) then rcount (refcnts s q) - 1 else rcount (refcnts s q))"
    using t by (auto simp: eq transmit_deferred_eq s1_def upd_entry_def stop_timer_at rcount_refs)
qed

lemma arp_update_inv:
  assumes inv: "arp_inv nal lal None given heard s" and arp: "arp \<in> set (arp_entries s)" and lal: "ll_addr_len env = lal"
    and ll: "lal (arp_netdev arp) \<le> length ll" "(arp_netdev arp, arp_proto arp, net_dest arp, take (lal (arp_netdev arp)) ll) \<in> heard"
  shows "arp_inv nal lal None given heard (arp_update env arp ll s)" "arp_data (arp_update env arp ll s) = arp_data s"
proof -
  define l where "l = take (lal (arp_netdev arp)) ll"
  let ?f = "\<lambda>e. e\<lparr>arp_ll_dest := l @ drop (length l) (arp_ll_dest e), arp_queue := []\<rparr>" and ?s = "arp_update env arp ll s"
  have d: "distinct (map arp_key (arp_entries s))" "timers_ok s" using inv by (simp_all add: arp_inv_def)
  have e: "entry_ok nal lal False given heard (timer_of s (arp_key arp)) (rcount (refcnts s (arp_key arp))) arp"
    using inv arp by (simp add: arp_inv_def)
  then have t: "trefcnt (timer_of s (arp_key arp)) = arp_key arp" "arp_key arp \<noteq> NULL" by (simp_all add: entry_ok_def)
  have l: "l = take (ll_addr_len env (arp_netdev arp)) ll" "length l = lal (arp_netdev arp)" using ll(1) by (simp_all add: l_def lal)
  note f = arp_update_fields [OF d(2) arp d(1) t refl l(1)]
  have u: "x = arp" if "x \<in> set (arp_entries s)" "arp_key x = arp_key arp" for x
    using d arp that by (auto simp: distinct_map inj_on_def)
  have "entry_ok nal lal False given heard (timer_of ?s (arp_key arp)) (rcount (refcnts ?s (arp_key arp))) (?f arp)"
    using e ll(2) l(2) by (simp add: entry_ok_def f(5,6) l_def)
  then have "entry_ok nal lal False given heard (timer_of ?s (arp_key arp)) (rcount (refcnts ?s (arp_key arp))) (?f x)"
    if "x \<in> set (arp_entries s)" "arp_key x = arp_key arp" for x
    using u [OF that] by simp
  moreover have "frame_ok given heard (arp_netdev arp, Some (arp_proto arp), l, iobuf)" if "iobuf \<in> set (arp_queue arp)" for iobuf
    using e ll(2) that by (auto simp: entry_ok_def frame_ok_def l_def)
  ultimately show "arp_inv nal lal None given heard ?s"
    using arp by (intro arp_inv_at [OF inv f(1) _ f(4)]) (auto simp: f(2,5,6))
  show "arp_data ?s = arp_data s"
    using queue_at [OF d(1) arp, of ?f] by (simp add: arp_data_def f(1-3) comp_def ac_simps)
qed

lemma arp_put_gone: "arp_inv nal lal None given heard s \<Longrightarrow> p \<notin> arp_key ` set (arp_entries s) \<Longrightarrow> arp_inv nal lal None given heard (ref_put p s)"
  by (auto simp: arp_inv_def timers_ok_def rcount_refs image_iff)

lemma arp_timer_expired_inv:
  assumes inv: "arp_inv nal lal None given heard s" and p: "running (timer_of s p)"
  shows "arp_inv nal lal None given heard (timer_expired (arp_expired env) tk p s)" "arp_data (timer_expired (arp_expired env) tk p s) = arp_data s"
proof -
  obtain fail t where x: "expire_fields tk (timer_of s p) = (fail, t)" by (rule prod.exhaust)
  have t: "\<not> running t" "trefcnt t = trefcnt (timer_of s p)"
    using running_fields(3) [of tk "timer_of s p"] trefcnt_fields(3) [of tk "timer_of s p"] by (simp_all add: x)
  define s1 where "s1 = set_timer p t (s\<lparr>timer_list := remove1 p (timer_list s)\<rparr>)"
  have ok: "timers_ok s" and d: "distinct (map arp_key (arp_entries s))" and k: "p \<in> arp_key ` set (arp_entries s)"
    using inv p by (auto simp: arp_inv_def)
  have ok1: "timers_ok s1" using ok t(1) by (auto simp: timers_ok_def s1_def)
  have inv1: "arp_inv nal lal (Some p) given heard s1"
  proof (rule arp_inv_at [OF inv _ _ ok1, where p = p and f = "\<lambda>e. e"])
    fix e assume "e \<in> set (arp_entries s)" "arp_key e = p"
    then show "entry_ok nal lal (Some p = Some p) given heard (timer_of s1 p) (rcount (refcnts s1 p)) e"
      using inv p t by (auto simp: arp_inv_def entry_ok_def s1_def)
  qed (simp_all add: s1_def t(1))
  have data1: "arp_data s1 = arp_data s" by (simp add: arp_data_def s1_def)
  obtain arp where arp: "find (\<lambda>arp. arp_key arp = p) (arp_entries s1) = Some arp"
    using k by (cases "find (\<lambda>arp. arp_key arp = p) (arp_entries s1)") (auto simp: find_None_iff s1_def)
  then have a: "arp \<in> set (arp_entries s1)" "arp_key arp = p" by (auto simp: find_Some_iff)
  have pn: "p \<noteq> NULL" "trefcnt (timer_of s p) = p" using inv a by (auto simp: arp_inv_def entry_ok_def s1_def)
  have eq: "timer_expired (arp_expired env) tk p s = ref_put p (arp_expired env p fail s1)"
    using pn by (simp add: timer_expired_def x Let_def s1_def)
  have "arp_inv nal lal None given heard (ref_put p (arp_expired env p fail s1)) \<and> arp_data (ref_put p (arp_expired env p fail s1)) = arp_data s1"
  proof (cases fail)
    case True
    have "arp_entries (arp_destroy env arp ETIMEDOUT s1) = remove1 arp (arp_entries s1)" by (simp add: arp_destroy_def Let_def)
    then have "p \<notin> arp_key ` set (arp_entries (arp_destroy env arp ETIMEDOUT s1))"
      using remove1_keys(2) [of "arp_entries s1" arp] inv1 a by (auto simp: arp_inv_def)
    moreover have "arp_inv nal lal None given heard (arp_destroy env arp ETIMEDOUT s1)" "arp_data (arp_destroy env arp ETIMEDOUT s1) = arp_data s1"
      using arp_destroy_inv [OF inv1 a(1), of env ETIMEDOUT] a(2) by auto
    ultimately show ?thesis using True by (simp add: arp_expired_def arp arp_put_gone) (simp add: arp_data_def)
  next
    case False
    define s2 where "s2 = ref_put p (arp_expired env p fail s1)"
    have f: "arp_entries s2 = map (\<lambda>e. if arp_key e = p then e else e) (arp_entries s1)" "arp_dropped s2 = arp_dropped s1"
      "arp_sent s2 = arp_sent s1 @ (if iob_mem env then [(arp_netdev arp, None, ll_broadcast env (arp_netdev arp), arp_request env arp)] else [])"
      "timer_of s2 q = (if q = p then start_fields (ip_tps env) (ip_now env) (timer_of s1 q) else timer_of s1 q)"
      "rcount (refcnts s2 q) = rcount (refcnts s1 q)" for q
      using False pn t by (simp_all add: s2_def arp_expired_def arp net_tx_def Let_def start_timer_at rcount_refs) (simp_all add: s1_def)
    have k1: "p \<in> arp_key ` set (arp_entries s1)" using k by (simp add: s1_def)
    have "timers_ok s2"
      using start_timer_ok [OF ok1, of "ip_tps env" "ip_now env" p] False by (simp add: s2_def arp_expired_def arp net_tx_def Let_def timers_ok_def)
    moreover have "entry_ok nal lal False given heard (timer_of s2 p) (rcount (refcnts s2 p)) e" if "e \<in> set (arp_entries s1)" "arp_key e = p" for e
      using inv1 that t pn unfolding f by (auto simp: arp_inv_def entry_ok_def s1_def)
    ultimately have "arp_inv nal lal None given heard s2"
      using k1 by (intro arp_inv_at [OF inv1 f(1)]) (auto simp: f(3-5) frame_ok_def split: if_splits)
    moreover have "arp_data s2 = arp_data s1" by (simp add: arp_data_def f(1-3))
    ultimately show ?thesis by (simp add: s2_def)
  qed
  then show "arp_inv nal lal None given heard (timer_expired (arp_expired env) tk p s)"
    "arp_data (timer_expired (arp_expired env) tk p s) = arp_data s" by (simp_all add: eq data1)
qed

lemma arp_poll_inv:
  assumes "arp_inv nal lal None given heard s"
  shows "arp_inv nal lal None given heard (arp_poll env s)" "arp_data (arp_poll env s) = arp_data s"
proof -
  have "arp_inv nal lal None given heard (arp_poll env s) \<and> arp_data (arp_poll env s) = arp_data s"
  proof (cases "dropWhile (\<lambda>p. \<not> overdue (ip_now env) s p) (timer_list s)")
    case Nil
    then show ?thesis using assms unfolding arp_poll_def retry_poll_def Nil by simp
  next
    case (Cons p ps)
    then have "p \<in> set (timer_list s)" by (metis list.set_intros(1) set_dropWhileD)
    then have "running (timer_of s p)" using assms by (simp add: arp_inv_def timers_ok_def)
    from arp_timer_expired_inv [OF assms this, of env "ip_tps env"] show ?thesis unfolding arp_poll_def retry_poll_def Cons by simp
  qed
  then show "arp_inv nal lal None given heard (arp_poll env s)" "arp_data (arp_poll env s) = arp_data s" by auto
qed

lemma arp_destroy_all_inv:
  "arp_inv nal lal None given heard s \<Longrightarrow> set es \<subseteq> set (arp_entries s) \<Longrightarrow> distinct es \<Longrightarrow>
     arp_inv nal lal None given heard (fold (\<lambda>arp. arp_destroy env arp rc) es s) \<and> arp_data (fold (\<lambda>arp. arp_destroy env arp rc) es s) = arp_data s"
proof (induction es arbitrary: s)
  case (Cons e es)
  have i: "arp_inv nal lal None given heard (arp_destroy env e rc s)" "arp_data (arp_destroy env e rc s) = arp_data s"
    using arp_destroy_inv [OF Cons.prems(1)] Cons.prems(2) by auto
  have "arp_entries (arp_destroy env e rc s) = remove1 e (arp_entries s)" by (simp add: arp_destroy_def Let_def)
  moreover have "x \<in> set (remove1 e (arp_entries s))" if "x \<in> set es" for x
    using that Cons.prems(2,3) by (cases "x = e") auto
  ultimately have "set es \<subseteq> set (arp_entries (arp_destroy env e rc s))" by auto
  from Cons.IH [OF i(1) this] show ?case using Cons.prems(3) i(2) by simp
qed simp

lemma arp_flush_inv:
  assumes "arp_inv nal lal None given heard s"
  shows "arp_inv nal lal None given heard (arp_flush env netdev s)" "arp_data (arp_flush env netdev s) = arp_data s"
proof -
  have "distinct (arp_entries s)" using assms by (simp add: arp_inv_def distinct_map)
  from arp_destroy_all_inv [OF assms subset_refl this]
  show "arp_inv nal lal None given heard (arp_flush env netdev s)" "arp_data (arp_flush env netdev s) = arp_data s"
    using assms by (auto simp: arp_flush_def)
qed

lemma arp_discard_inv:
  assumes "arp_inv nal lal None given heard s"
  shows "arp_inv nal lal None given heard (snd (arp_discard env s))" "arp_data (snd (arp_discard env s)) = arp_data s"
  using assms arp_destroy_inv [OF assms, of "last (arp_entries s)"] by (auto simp: arp_discard_def)

text \<open>The pair of addresses that a packet announces.\<close>

definition arp_announces :: "'e arp_env_scheme \<Rightarrow> ptr \<Rightarrow> byte list \<Rightarrow> bindings" where
  "arp_announces env netdev iobuf =
     (let h = unat (iobuf ! 4); p = unat (iobuf ! 5)
      in case arp_find_protocol env (field16 iobuf 2) of
           None \<Rightarrow> {}
         | Some proto \<Rightarrow>
             if field16 iobuf 0 = ll_proto env netdev \<and> h = ll_addr_len env netdev \<and> p = net_addr_len env proto
             then {(netdev, proto, take p (drop (8 + h) iobuf), take h (drop 8 iobuf))} else {})"

lemma arp_rx_inv:
  assumes inv: "arp_inv nal lal None given heard s" and lens: "net_addr_len env = nal" "ll_addr_len env = lal"
    and rx: "arp_rx env netdev iobuf s = Some (rc, s')"
  shows "arp_inv nal lal None given (heard \<union> arp_announces env netdev iobuf) s'" "arp_data s' = arp_data s"
proof -
  define h p where "h = unat (iobuf ! 4)" and "p = unat (iobuf ! 5)"
  let ?H = "heard \<union> arp_announces env netdev iobuf"
  have inv1: "arp_inv nal lal None given ?H s" using inv by (rule arp_inv_mono) auto
  have "arp_inv nal lal None given ?H s' \<and> arp_data s' = arp_data s"
  proof (cases "s' = s")
    case True
    then show ?thesis using inv1 by simp
  next
    case False
    then obtain proto where pr: "arp_find_protocol env (field16 iobuf 2) = Some proto" "h = lal netdev" "p = nal proto" "8 + h + p \<le> length iobuf"
      and hrd: "field16 iobuf 0 = ll_proto env netdev"
      using rx lens by (auto simp: arp_rx_def h_def p_def Let_def split: if_splits option.splits)
    obtain r s1 where f: "arp_find env netdev proto (drop (8 + h) iobuf) s = (r, s1)" by (rule prod.exhaust)
    define s2 where "s2 = (case r of None \<Rightarrow> s1 | Some arp \<Rightarrow> arp_update env arp (drop 8 iobuf) s1)"
    note g = arp_find_inv [OF inv1 f]
    have "arp_inv nal lal None given ?H s2 \<and> arp_data s2 = arp_data s1"
    proof (cases r)
      case None
      then show ?thesis using g by (simp add: s2_def)
    next
      case (Some arp)
      then have a: "arp \<in> set (arp_entries s1)" "arp_netdev arp = netdev" "arp_proto arp = proto"
        "take p (net_dest arp) = take p (drop (8 + h) iobuf)"
        using g(4) lens pr(3) by (auto simp: arp_matches_def)
      moreover have "take p (net_dest arp) = net_dest arp" using g(1) a(1,3) pr(3) by (auto simp: arp_inv_def entry_ok_def)
      ultimately have "(arp_netdev arp, arp_proto arp, net_dest arp, take (lal (arp_netdev arp)) (drop 8 iobuf)) \<in> ?H"
        using pr hrd lens by (simp add: arp_announces_def Let_def flip: h_def p_def)
      then show ?thesis using arp_update_inv [OF g(1) a(1) lens(2)] pr(2,4) a(2) Some by (auto simp: s2_def)
    qed
    moreover have "s' = s2 \<or> (\<exists>ll reply. s' = snd (net_tx env netdev None ll reply s2))"
      using rx pr f lens False by (auto simp: arp_rx_def s2_def Let_def net_tx_def simp flip: h_def p_def split: if_splits)
    ultimately show ?thesis using g(2) by (auto simp: net_tx_def arp_inv_def timers_ok_def frame_ok_def arp_data_def)
  qed
  then show "arp_inv nal lal None given ?H s'" "arp_data s' = arp_data s" by auto
qed

text \<open>What the network protocols, the network and time do to the cache.  \<open>nal\<close> and \<open>lal\<close> are the lengths of addresses.\<close>

definition arp_init :: arp where
  "arp_init = \<lparr>refcnts = \<lambda>_. \<lparr>rcount = 0, rfree = None\<rparr>, freed = [], timer_list = [], timer_of = \<lambda>_. zero_timer,
     arp_entries = [], arp_sent = [], arp_dropped = []\<rparr>"

definition arp_accepts :: "'e arp_env_scheme \<Rightarrow> ptr \<Rightarrow> ptr \<Rightarrow> byte list \<Rightarrow> 'a arp_scheme \<Rightarrow> bool" where
  "arp_accepts env netdev proto dest s \<longleftrightarrow> entry_mem env \<or> fst (arp_find env netdev proto dest s) \<noteq> None"

inductive arp_reach :: "(ptr \<Rightarrow> nat) \<Rightarrow> (ptr \<Rightarrow> nat) \<Rightarrow> (ptr \<times> ptr \<times> byte list \<times> byte list) list \<Rightarrow> bindings \<Rightarrow> arp \<Rightarrow> bool"
  for nal lal where
  start: "arp_reach nal lal [] {} arp_init"
| transmit: "arp_reach nal lal given heard s \<Longrightarrow> net_addr_len (env :: arp_env) = nal \<Longrightarrow> ll_addr_len env = lal \<Longrightarrow> new \<noteq> NULL \<Longrightarrow>
    new \<notin> arp_key ` set (arp_entries s) \<Longrightarrow>
    arp_reach nal lal (if arp_accepts env netdev proto dest s then given @ [(netdev, proto, take (nal proto) dest, iobuf)] else given) heard
      (snd (arp_tx env new iobuf netdev proto dest source s))"
| receive: "arp_reach nal lal given heard s \<Longrightarrow> net_addr_len (env :: arp_env) = nal \<Longrightarrow> ll_addr_len env = lal \<Longrightarrow>
    arp_rx env netdev iobuf s = Some (rc, s') \<Longrightarrow> arp_reach nal lal given (heard \<union> arp_announces env netdev iobuf) s'"
| poll: "arp_reach nal lal given heard s \<Longrightarrow> arp_reach nal lal given heard (arp_poll (env :: arp_env) s)"
| flush: "arp_reach nal lal given heard s \<Longrightarrow> arp_reach nal lal given heard (arp_flush (env :: arp_env) netdev s)"
| discard: "arp_reach nal lal given heard s \<Longrightarrow> arp_reach nal lal given heard (snd (arp_discard (env :: arp_env) s))"

lemma arp_tx_inv:
  assumes inv: "arp_inv nal lal None (set given) heard s" and lens: "net_addr_len env = nal" "ll_addr_len env = lal"
    and new: "new \<noteq> NULL" "new \<notin> arp_key ` set (arp_entries s)"
    and given': "given' = (if arp_accepts env netdev proto dest s then given @ [(netdev, proto, take (nal proto) dest, iobuf)] else given)"
  shows "arp_inv nal lal None (set given') heard (snd (arp_tx env new iobuf netdev proto dest source s))"
    "arp_data (snd (arp_tx env new iobuf netdev proto dest source s)) =
      (if arp_accepts env netdev proto dest s then add_mset iobuf (arp_data s) else arp_data s)"
proof -
  obtain r s1 where f: "arp_find env netdev proto dest s = (r, s1)" by (rule prod.exhaust)
  note g = arp_find_inv [OF inv f]
  have inv1: "arp_inv nal lal None (set given') heard s1" using g(1) by (rule arp_inv_mono) (auto simp: given')
  have new1: "new \<notin> arp_key ` set (arp_entries s1)" if "r = None"
    using f that new(2) by (auto simp: arp_find_def split: option.splits)
  have "arp_inv nal lal None (set given') heard (snd (arp_tx env new iobuf netdev proto dest source s)) \<and>
    arp_data (snd (arp_tx env new iobuf netdev proto dest source s)) = (if arp_accepts env netdev proto dest s then add_mset iobuf (arp_data s) else arp_data s)"
  proof (cases r)
    case (Some arp)
    then have a: "arp \<in> set (arp_entries s1)" "arp_netdev arp = netdev" "arp_proto arp = proto" "take (nal proto) (net_dest arp) = take (nal proto) dest"
      using g(4) lens by (auto simp: arp_matches_def)
    have "take (nal proto) (net_dest arp) = net_dest arp" using g(1) a(1,3) by (auto simp: arp_inv_def entry_ok_def)
    moreover have "arp_accepts env netdev proto dest s" using f Some by (simp add: arp_accepts_def)
    ultimately show ?thesis
      using arp_send_inv [OF inv1 a(1-3) lens(2), of iobuf] a(4) f g(2) Some by (simp add: arp_tx_def given')
  next
    case None
    show ?thesis
    proof (cases "entry_mem env")
      case True
      obtain arp s2 where c: "arp_create env new netdev proto dest source s1 = Some (arp, s2)" "arp_inv nal lal None (set given') heard s2"
        "arp_data s2 = arp_data s1" "arp \<in> set (arp_entries s2)" "arp_netdev arp = netdev" "arp_proto arp = proto" "net_dest arp = take (nal proto) dest"
        using arp_create_inv [OF inv1 new(1) new1 [OF None] lens(1) True] by blast
      show ?thesis
        using arp_send_inv [OF c(2,4-6) lens(2), of iobuf] c f g(2) None True by (simp add: arp_tx_def arp_accepts_def given')
    next
      case False
      then show ?thesis using inv1 f g(2) None by (simp add: arp_tx_def arp_create_def arp_accepts_def)
    qed
  qed
  then show "arp_inv nal lal None (set given') heard (snd (arp_tx env new iobuf netdev proto dest source s))"
    "arp_data (snd (arp_tx env new iobuf netdev proto dest source s)) =
      (if arp_accepts env netdev proto dest s then add_mset iobuf (arp_data s) else arp_data s)" by auto
qed

lemma arp_reach_inv:
  "arp_reach nal lal given heard s \<Longrightarrow>
     arp_inv nal lal None (set given) heard s \<and> arp_data s = mset (map (\<lambda>(netdev, proto, dest, iobuf). iobuf) given)"
proof (induction rule: arp_reach.induct)
  case start
  show ?case by (simp add: arp_inv_def arp_data_def arp_init_def timers_ok_def zero_timer_def)
next
  case (transmit given heard s env new netdev proto dest iobuf source)
  then show ?case using arp_tx_inv [OF _ transmit.hyps(2-5) refl] by auto
next
  case (receive given heard s env netdev iobuf rc s')
  then show ?case using arp_rx_inv [OF conjunct1 [OF receive.IH] receive.hyps(2-4)] by simp
qed (metis arp_poll_inv, metis arp_flush_inv, metis arp_discard_inv)

lemma arp_packet_fields:
  assumes "length sha = unat h" "length spa = unat p" "length tha = unat h" "length tpa = unat p"
    and b_def: "b = arp_packet hrd pro h p aop sha spa tha tpa"
  shows "length b = 8 + 2 * (unat h + unat p)" "field16 b 0 = hrd" "field16 b 2 = pro" "b ! 4 = h" "b ! 5 = p" "field16 b 6 = aop"
    "drop 8 b = sha @ spa @ tha @ tpa" "drop (8 + unat h) b = spa @ tha @ tpa"
    "take (unat h) (drop (8 + unat h + unat p) b) = tha" "take (unat p) (drop (8 + 2 * unat h + unat p) b) = tpa"
proof -
  show d: "drop 8 b = sha @ spa @ tha @ tpa" by (simp add: b_def arp_packet_def stored16_def)
  then have e: "drop (8 + n) b = drop n (sha @ spa @ tha @ tpa)" for n by (simp only: add.commute [of 8] flip: drop_drop)
  show "drop (8 + unat h) b = spa @ tha @ tpa" using assms(1-4) by (simp add: e)
  show "take (unat h) (drop (8 + unat h + unat p) b) = tha" "take (unat p) (drop (8 + 2 * unat h + unat p) b) = tpa"
    using assms(1-4) by (simp_all add: e add.assoc)
qed (use assms in \<open>simp_all add: b_def arp_packet_def field16_def stored16_def join16 nth_append\<close>)

lemma arp_reply_packet:
  assumes "length sha = unat h" "length spa = unat p" "length tha = unat h" "length tpa = unat p" "length ll = unat h"
  shows "arp_reply ll (unat h) (unat p) (arp_packet hrd pro h p aop sha spa tha tpa) = arp_packet hrd pro h p (htons ARPOP_REPLY) ll tpa sha spa"
proof -
  define b where "b = arp_packet hrd pro h p aop sha spa tha tpa"
  have d: "drop 8 b = sha @ spa @ tha @ tpa" by (simp add: b_def arp_packet_def stored16_def)
  then have e: "drop (8 + n) b = drop n (sha @ spa @ tha @ tpa)" for n by (simp only: add.commute [of 8] flip: drop_drop)
  have "take 6 b = stored16 hrd @ stored16 pro @ [h, p]" by (simp add: b_def arp_packet_def stored16_def)
  moreover have "drop (8 + 2 * (unat h + unat p)) b = []" "drop (8 + unat h + unat p) b = tha @ tpa" using assms by (simp_all add: e add.assoc)
  ultimately show ?thesis
    unfolding b_def [symmetric] arp_reply_def Let_def d using assms by (simp add: arp_packet_def)
qed

text \<open>A valid packet updates the entry of its sender.\<close>

lemma arp_rx_packet:
  assumes "arp_find_protocol env pro = Some proto" "ll_proto env netdev = hrd" "ll_addr_len env netdev = unat h" "net_addr_len env proto = unat p"
    and len: "length sha = unat h" "length spa = unat p" "length tha = unat h" "length tpa = unat p" "length (ll_addr env netdev) = unat h"
    and f: "arp_find env netdev proto (spa @ tha @ tpa) s = (r, s1)" and s2: "s2 = (case r of None \<Rightarrow> s1 | Some arp \<Rightarrow> arp_update env arp (sha @ spa @ tha @ tpa) s1)"
  shows "arp_rx env netdev (arp_packet hrd pro h p aop sha spa tha tpa) s =
    Some (if aop \<noteq> htons ARPOP_REQUEST \<or> arp_check env proto netdev tpa \<noteq> None then (None, s2)
      else net_tx env netdev None sha (arp_reply (ll_addr env netdev) (unat h) (unat p) (arp_packet hrd pro h p aop sha spa tha tpa)) s2)"
proof -
  note b = arp_packet_fields [OF len(1-4) refl, of hrd pro aop]
  note r = arp_packet_fields(9) [OF len(5,4,1,2) refl, of hrd pro "htons ARPOP_REPLY"]
  show ?thesis
    unfolding arp_rx_def b(1-8,10) Let_def assms(1) option.case f prod.case s2 [symmetric] arp_reply_packet [OF len]
    by (simp add: assms(2-4) r)
qed

section \<open>Properties\<close>

text \<open>C9: no packet is lost, and each goes to the right host.  Whatever is sent, received, timed out, flushed and discarded, the
  packets that \<open>arp_tx()\<close> took over are exactly those handed to the link layer, those waiting for an address and those given
  up with an error; every one handed to the link layer went to a link-layer address that an ARP packet announced for its
  destination; and an entry of the cache has exactly the references of the cache and of its running timer.\<close>

theorem arp_packets:
  assumes "arp_reach nal lal given heard s"
  shows "mset (map (\<lambda>(netdev, proto, dest, iobuf). iobuf) given) =
      mset (map (\<lambda>(netdev, proto, ll, iobuf). iobuf) (filter (\<lambda>(netdev, proto, ll, iobuf). proto \<noteq> None) (arp_sent s))) +
      mset (concat (map arp_queue (arp_entries s))) + mset (map (\<lambda>(netdev, rc, iobuf). iobuf) (arp_dropped s)) \<and>
    (\<forall>netdev proto ll iobuf. (netdev, Some proto, ll, iobuf) \<in> set (arp_sent s) \<longrightarrow>
      (\<exists>dest. (netdev, proto, dest, iobuf) \<in> set given \<and> (netdev, proto, dest, ll) \<in> heard)) \<and>
    (\<forall>arp \<in> set (arp_entries s). rcount (refcnts s (arp_key arp)) = (if running (timer_of s (arp_key arp)) then 1 else 0))"
proof (intro conjI)
  note r = arp_reach_inv [OF assms]
  then show "mset (map (\<lambda>(netdev, proto, dest, iobuf). iobuf) given) =
      mset (map (\<lambda>(netdev, proto, ll, iobuf). iobuf) (filter (\<lambda>(netdev, proto, ll, iobuf). proto \<noteq> None) (arp_sent s))) +
      mset (concat (map arp_queue (arp_entries s))) + mset (map (\<lambda>(netdev, rc, iobuf). iobuf) (arp_dropped s))"
    unfolding arp_data_def by simp
  show "\<forall>netdev proto ll iobuf. (netdev, Some proto, ll, iobuf) \<in> set (arp_sent s) \<longrightarrow>
      (\<exists>dest. (netdev, proto, dest, iobuf) \<in> set given \<and> (netdev, proto, dest, ll) \<in> heard)"
    using r unfolding arp_inv_def frame_ok_def by fastforce
  show "\<forall>arp \<in> set (arp_entries s). rcount (refcnts s (arp_key arp)) = (if running (timer_of s (arp_key arp)) then 1 else 0)"
    using r by (simp add: arp_inv_def entry_ok_def)
qed

definition demo_arp_env :: arp_env where
  "demo_arp_env = ip_env.extend demo_ip_env \<lparr>net_proto = \<lambda>_. 0x0008, net_addr_len = \<lambda>_. 4, ll_proto = \<lambda>_. 0x0100, ll_addr_len = \<lambda>_. 6,
     ll_addr = \<lambda>_. [2, 0, 0, 0, 0, 1], entry_mem = True, arp_net_protocols = [0x50], arp_check = \<lambda>_ _ _. None\<rparr>"

definition demo_arp_reply :: "byte list" where
  "demo_arp_reply = arp_packet 0x0100 0x0008 6 4 (htons ARPOP_REPLY) [2, 0, 0, 0, 0, 9] [192, 168, 0, 2] [2, 0, 0, 0, 0, 1] [192, 168, 0, 1]"

lemma demo_arp_env_fields:
  "net_addr_len demo_arp_env = (\<lambda>_. 4)" "ll_addr_len demo_arp_env = (\<lambda>_. 6)" "ll_proto demo_arp_env = (\<lambda>_. 0x0100)"
  "arp_find_protocol demo_arp_env 0x0008 = Some 0x50" "ll_addr demo_arp_env = (\<lambda>_. [2, 0, 0, 0, 0, 1])" "entry_mem demo_arp_env"
  by (simp_all add: demo_arp_env_def ip_env.defs arp_find_protocol_def)

lemmas arp_eval = arp_tx_def arp_find_def arp_create_def arp_send_def arp_resolved_def timer_running_def upd_entry_def net_tx_def
  demo_arp_env_fields ref_init_def timer_init_def start_timer_nodelay_def start_timer_fixed_def start_timer_def
  ref_get_def ref_increment_def set_count_def set_timer_def Let_def zero_timer_def

text \<open>A packet waits for the address of 192.168.0.2, the address arrives, and the next packet, for 192.168.0.3, waits.\<close>

definition demo_arp1 :: arp where
  "demo_arp1 = snd (arp_tx demo_arp_env 0x1000 [7] 64 0x50 [192, 168, 0, 2] [192, 168, 0, 1] arp_init)"

definition demo_arp2 :: arp where
  "demo_arp2 = snd (the (arp_rx demo_arp_env 64 demo_arp_reply demo_arp1))"

definition demo_arp3 :: arp where
  "demo_arp3 = snd (arp_tx demo_arp_env 0x2000 [8] 64 0x50 [192, 168, 0, 3] [192, 168, 0, 1] demo_arp2)"

lemma demo_arp1_entry:
  "arp_entries demo_arp1 = [\<lparr>arp_key = 0x1000, arp_netdev = 64, arp_proto = 0x50, net_dest = [192, 168, 0, 2],
    net_source = [192, 168, 0, 1], arp_ll_dest = replicate 20 0, arp_queue = [[7]]\<rparr>]" "arp_sent demo_arp1 = []"
  unfolding demo_arp1_def by (simp_all add: arp_eval arp_init_def)

lemma demo_arp1_reach: "arp_reach (\<lambda>_. 4) (\<lambda>_. 6) [(64, 0x50, [192, 168, 0, 2], [7])] {} demo_arp1"
  using arp_reach.transmit [OF arp_reach.start demo_arp_env_fields(1,2), of "0x1000" 64 "0x50" "[192, 168, 0, 2]" "[7]" "[192, 168, 0, 1]"]
  by (simp add: arp_accepts_def demo_arp_env_fields demo_arp1_def arp_init_def)

lemma demo_arp2_eq:
  "arp_rx demo_arp_env 64 demo_arp_reply demo_arp1 = Some (None, demo_arp2)"
  "demo_arp2 = arp_update demo_arp_env (hd (arp_entries demo_arp1)) (drop 8 demo_arp_reply) demo_arp1"
proof -
  have "arp_rx demo_arp_env 64 demo_arp_reply demo_arp1 =
      Some (None, arp_update demo_arp_env (hd (arp_entries demo_arp1)) (drop 8 demo_arp_reply) demo_arp1)"
    unfolding demo_arp_reply_def
    by (subst arp_rx_packet [where r = "Some (hd (arp_entries demo_arp1))" and ?s1.0 = demo_arp1 and proto = "0x50", OF _ _ _ _ _ _ _ _ _ _ refl])
      (simp_all add: demo_arp_env_fields arp_find_def arp_matches_def demo_arp1_entry arp_packet_def stored16_def ARPOP_REPLY_def ARPOP_REQUEST_def htons_def bswap_16_def)
  then show "arp_rx demo_arp_env 64 demo_arp_reply demo_arp1 = Some (None, demo_arp2)"
    "demo_arp2 = arp_update demo_arp_env (hd (arp_entries demo_arp1)) (drop 8 demo_arp_reply) demo_arp1"
    by (simp_all add: demo_arp2_def)
qed

lemma demo_arp2_entry:
  "map arp_key (arp_entries demo_arp2) = [0x1000]" "map net_dest (arp_entries demo_arp2) = [[192, 168, 0, 2]]"
  "arp_sent demo_arp2 = [(64, Some 0x50, [2, 0, 0, 0, 0, 9], [7])]"
proof -
  have "arp_inv (\<lambda>_. 4) (\<lambda>_. 6) None {(64, 0x50, [192, 168, 0, 2], [7])} {} demo_arp1" using arp_reach_inv [OF demo_arp1_reach] by simp
  then have "timers_ok demo_arp1" "trefcnt (timer_of demo_arp1 0x1000) = 0x1000" by (simp_all add: arp_inv_def entry_ok_def demo_arp1_entry)
  then have f: "arp_entries demo_arp2 = map (\<lambda>e. if arp_key e = 0x1000 then e\<lparr>arp_ll_dest := [2, 0, 0, 0, 0, 9] @ drop 6 (arp_ll_dest e), arp_queue := []\<rparr> else e) (arp_entries demo_arp1)"
    "arp_sent demo_arp2 = arp_sent demo_arp1 @ map (\<lambda>iobuf. (64, Some 0x50, [2, 0, 0, 0, 0, 9], iobuf)) [[7]]"
    using arp_update_fields(1,2) [OF _ _ _ _ _ demo_arp2_eq(2) refl]
    by (simp_all add: demo_arp1_entry demo_arp_env_fields demo_arp_reply_def arp_packet_def stored16_def)
  show "map arp_key (arp_entries demo_arp2) = [0x1000]" "map net_dest (arp_entries demo_arp2) = [[192, 168, 0, 2]]"
    "arp_sent demo_arp2 = [(64, Some 0x50, [2, 0, 0, 0, 0, 9], [7])]" by (simp_all add: f demo_arp1_entry)
qed

theorem arp_packets_witness:
  "{#[7], [8]#} = mset (map (\<lambda>(netdev, proto, ll, iobuf). iobuf) (filter (\<lambda>(netdev, proto, ll, iobuf). proto \<noteq> None) (arp_sent demo_arp3))) +
      mset (concat (map arp_queue (arp_entries demo_arp3))) + mset (map (\<lambda>(netdev, rc, iobuf). iobuf) (arp_dropped demo_arp3)) \<and>
   arp_sent demo_arp3 = [(64, Some 0x50, [2, 0, 0, 0, 0, 9], [7])]"
proof -
  have k: "arp_key ` set (arp_entries demo_arp2) = {0x1000}" "net_dest ` set (arp_entries demo_arp2) = {[192, 168, 0, 2]}"
    using demo_arp2_entry(1,2) by (metis list.simps(15) set_empty set_map)+
  have "arp_reach (\<lambda>_. 4) (\<lambda>_. 6) [(64, 0x50, [192, 168, 0, 2], [7])] ({} \<union> arp_announces demo_arp_env 64 demo_arp_reply) demo_arp2"
    by (rule arp_reach.receive [OF demo_arp1_reach demo_arp_env_fields(1,2) demo_arp2_eq(1)])
  from arp_reach.transmit [OF this demo_arp_env_fields(1,2), of "0x2000" 64 "0x50" "[192, 168, 0, 3]" "[8]" "[192, 168, 0, 1]"]
  have "arp_reach (\<lambda>_. 4) (\<lambda>_. 6) [(64, 0x50, [192, 168, 0, 2], [7]), (64, 0x50, [192, 168, 0, 3], [8])]
      (arp_announces demo_arp_env 64 demo_arp_reply) demo_arp3"
    by (simp add: arp_accepts_def demo_arp_env_fields demo_arp3_def k)
  moreover have d: "net_dest x = [192, 168, 0, 2]" if "x \<in> set (arp_entries demo_arp2)" for x
    using imageI [OF that, of net_dest] k(2) by auto
  have "find (arp_matches demo_arp_env 64 0x50 [192, 168, 0, 3]) (arp_entries demo_arp2) = None"
    by (auto simp: find_None_iff arp_matches_def demo_arp_env_fields dest!: d)
  then have "arp_sent demo_arp3 = [(64, Some 0x50, [2, 0, 0, 0, 0, 9], [7])]"
    by (simp add: demo_arp3_def arp_eval demo_arp2_entry)
  ultimately show ?thesis using arp_packets [of "\<lambda>_. 4" "\<lambda>_. 6"] by fastforce
qed

definition arp_host :: "'e arp_env_scheme \<Rightarrow> ptr \<Rightarrow> ptr \<Rightarrow> u16 \<Rightarrow> u16 \<Rightarrow> byte \<Rightarrow> byte \<Rightarrow> bool" where
  "arp_host env netdev proto pro hrd h p \<longleftrightarrow>
     arp_find_protocol env pro = Some proto \<and> ll_proto env netdev = hrd \<and> ll_addr_len env netdev = unat h \<and>
     net_addr_len env proto = unat p \<and> length (ll_addr env netdev) = unat h"

text \<open>Once an address has arrived, packets are sent to it at once.\<close>

lemma arp_updated_tx:
  assumes inv: "arp_inv nal lal None given heard s" and found: "arp_find env netdev proto dest s = (Some arp, s1)"
    and ll: "length ll = ll_addr_len env netdev" and s2: "s2 = arp_update env arp (ll @ rest) s1"
  shows "arp_sent s2 = arp_sent s @ map (\<lambda>iobuf. (netdev, Some proto, ll, iobuf)) (arp_queue arp)"
    "arp_tx env new iobuf netdev proto dest src s2 = net_tx env netdev (Some proto) ll iobuf s2"
proof -
  note g = arp_find_inv [OF inv found]
  have a: "arp \<in> set (arp_entries s1)" "arp_netdev arp = netdev" "arp_proto arp = proto" "arp_matches env netdev proto dest arp"
    using g(4) by (simp_all add: arp_matches_def)
  have ok: "timers_ok s1" "distinct (map arp_key (arp_entries s1))" "trefcnt (timer_of s1 (arp_key arp)) = arp_key arp" "arp_key arp \<noteq> NULL"
    using g(1) a(1) by (simp_all add: arp_inv_def entry_ok_def)
  have l: "ll = take (ll_addr_len env (arp_netdev arp)) (ll @ rest)" using ll a(2) by simp
  note f = arp_update_fields [OF ok(1) a(1) ok(2-4) s2 l]
  have s1: "arp_sent s1 = arp_sent s" "\<exists>es. arp_entries s1 = arp # es" using found by (auto simp: arp_find_def split: option.splits)
  then show "arp_sent s2 = arp_sent s @ map (\<lambda>iobuf. (netdev, Some proto, ll, iobuf)) (arp_queue arp)" using f(2) a(2,3) by simp
  define arp' where "arp' = arp\<lparr>arp_ll_dest := ll @ drop (length ll) (arp_ll_dest arp), arp_queue := []\<rparr>"
  obtain es where "arp_entries s2 = arp' # es" using f(1) s1(2) by (auto simp: arp'_def)
  moreover have "arp_matches env netdev proto dest arp'" using a(4) by (simp add: arp_matches_def arp'_def)
  ultimately have "arp_find env netdev proto dest s2 = (Some arp', s2)" by (simp add: arp_find_def)
  moreover have "\<not> running (timer_of s2 (arp_key arp'))" by (simp add: f(5) arp'_def)
  moreover have "take (ll_addr_len env netdev) (arp_ll_dest arp') = ll" using ll by (simp add: arp'_def)
  ultimately show "arp_tx env new iobuf netdev proto dest src s2 = net_tx env netdev (Some proto) ll iobuf s2"
    by (simp add: arp_tx_def arp_send_def arp_resolved_def timer_running_def)
qed

text \<open>C13: an address is resolved.  The request of a node for an unresolved entry makes the node that owns the address send back
  one reply; when the reply arrives, all deferred packets of the entry are transmitted in order to the link-layer address of
  the owner, and so are all later ones, at once.\<close>

theorem arp_resolves:
  fixes sA :: arp
  assumes A: "arp_host envA nd proto pro hrd h p" "net_proto envA proto = pro" and B: "arp_host envB ndB protoB pro hrd h p"
    and reach: "arp_reach nal lal given heard sA" and found: "arp_find envA nd proto (net_dest arp) sA = (Some arp, s1)"
    and len: "length (net_dest arp) = unat p" "length (net_source arp) = unat p"
    and owner: "arp_check envB protoB ndB (net_dest arp) = None"
  shows "\<exists>sB' reply sA'. arp_rx envB ndB (arp_request envA arp) sB = Some (link_rc envB, sB') \<and>
    last (arp_sent sB') = (ndB, None, ll_addr envA nd, reply) \<and> arp_rx envA nd reply sA = Some (None, sA') \<and>
    arp_sent sA' = arp_sent sA @ map (\<lambda>iobuf. (nd, Some proto, ll_addr envB ndB, iobuf)) (arp_queue arp) \<and>
    (\<forall>new iobuf source. arp_sent (snd (arp_tx envA new iobuf nd proto (net_dest arp) source sA')) =
       arp_sent sA' @ [(nd, Some proto, ll_addr envB ndB, iobuf)])"
proof -
  have inv: "arp_inv nal lal None (set given) heard sA" using arp_reach_inv [OF reach] by blast
  have a: "arp_netdev arp = nd" "arp_proto arp = proto" using arp_find_inv(4) [OF inv found] by (simp_all add: arp_matches_def)
  note hA = A(1) [unfolded arp_host_def] and hB = B [unfolded arp_host_def]
  have lA: "arp_find_protocol envA pro = Some proto" "ll_proto envA nd = hrd" "ll_addr_len envA nd = unat h" "net_addr_len envA proto = unat p"
    "length (ll_addr envA nd) = unat h" using hA by blast+
  have lB: "arp_find_protocol envB pro = Some protoB" "ll_proto envB ndB = hrd" "ll_addr_len envB ndB = unat h" "net_addr_len envB protoB = unat p"
    "length (ll_addr envB ndB) = unat h" using hB by blast+
  let ?req = "arp_packet hrd pro h p (htons ARPOP_REQUEST) (ll_addr envA nd) (net_source arp) (replicate (unat h) 0) (net_dest arp)"
  have req: "arp_request envA arp = ?req" using A(2) lA len a by (simp add: arp_request_def Let_def)
  define reply where "reply = arp_packet hrd pro h p (htons ARPOP_REPLY) (ll_addr envB ndB) (net_dest arp) (ll_addr envA nd) (net_source arp)"
  obtain r t where fB: "arp_find envB ndB protoB (net_source arp @ replicate (unat h) 0 @ net_dest arp) sB = (r, t)" by (rule prod.exhaust)
  define t2 where "t2 = (case r of None \<Rightarrow> t | Some x \<Rightarrow> arp_update envB x (ll_addr envA nd @ net_source arp @ replicate (unat h) 0 @ net_dest arp) t)"
  have rx: "arp_rx envB ndB (arp_request envA arp) sB = Some (net_tx envB ndB None (ll_addr envA nd) reply t2)"
    unfolding req arp_rx_packet [OF lB(1-4) lA(5) len(2) length_replicate len(1) lB(5) fB t2_def]
      arp_reply_packet [OF lA(5) len(2) length_replicate len(1) lB(5)] reply_def by (simp add: owner)
  have m: "arp_matches envA nd proto (net_dest arp @ x) = arp_matches envA nd proto (net_dest arp)" for x
    by (rule ext) (simp add: arp_matches_def lA len)
  then have fA: "arp_find envA nd proto (net_dest arp @ x) sA = (Some arp, s1)" for x using found by (simp add: arp_find_def)
  define s2 where "s2 = arp_update envA arp (ll_addr envB ndB @ net_dest arp @ ll_addr envA nd @ net_source arp) s1"
  have s2: "s2 = (case Some arp of None \<Rightarrow> s1 | Some x \<Rightarrow> arp_update envA x (ll_addr envB ndB @ net_dest arp @ ll_addr envA nd @ net_source arp) s1)"
    by (simp add: s2_def)
  have op: "htons ARPOP_REPLY \<noteq> htons ARPOP_REQUEST" by (simp add: ARPOP_REPLY_def ARPOP_REQUEST_def htons_def bswap_16_def)
  have rxA: "arp_rx envA nd reply sA = Some (None, s2)"
    unfolding reply_def arp_rx_packet [OF lA(1-4) lB(5) len(1) lA(5) len(2) lA(5) fA s2] using op by simp
  note u = arp_updated_tx [OF inv found _ s2_def, unfolded lA(3), OF lB(5)]
  show ?thesis
    using rx rxA u by (intro exI [of _ "snd (net_tx envB ndB None (ll_addr envA nd) reply t2)"] exI [of _ reply] exI [of _ s2]) (simp add: net_tx_def)
qed

theorem arp_resolves_witness:
  "\<exists>sB' reply sA'. arp_rx (demo_arp_env\<lparr>ll_addr := \<lambda>_. [2, 0, 0, 0, 0, 9]\<rparr>) 64 (arp_request demo_arp_env (hd (arp_entries demo_arp1))) arp_init = Some (None, sB') \<and>
    last (arp_sent sB') = (64, None, [2, 0, 0, 0, 0, 1], reply) \<and> arp_rx demo_arp_env 64 reply demo_arp1 = Some (None, sA') \<and>
    arp_sent sA' = [(64, Some 0x50, [2, 0, 0, 0, 0, 9], [7])]"
proof -
  let ?B = "demo_arp_env\<lparr>ll_addr := \<lambda>_. [2, 0, 0, 0, 0, 9]\<rparr>" and ?e = "hd (arp_entries demo_arp1)"
  have "arp_host demo_arp_env 64 0x50 0x0008 0x0100 6 4" "net_proto demo_arp_env 0x50 = 0x0008"
    by (simp_all add: arp_host_def demo_arp_env_fields) (simp add: demo_arp_env_def ip_env.defs)
  moreover have "arp_host ?B 64 0x50 0x0008 0x0100 6 4"
    by (simp add: arp_host_def demo_arp_env_def ip_env.defs arp_find_protocol_def)
  moreover have "arp_find demo_arp_env 64 0x50 (net_dest ?e) demo_arp1 = (Some ?e, demo_arp1)"
    by (simp add: arp_find_def demo_arp1_entry arp_matches_def)
  moreover have "length (net_dest ?e) = unat (4 :: byte)" "length (net_source ?e) = unat (4 :: byte)" by (simp_all add: demo_arp1_entry)
  moreover have "arp_check ?B 0x50 64 (net_dest ?e) = None" "link_rc ?B = None" by (simp_all add: demo_arp_env_def ip_env.defs demo_ip_env_def)
  ultimately show ?thesis
    using arp_resolves [where envA = demo_arp_env and envB = ?B and arp = ?e and sA = demo_arp1 and sB = arp_init and nd = 64 and ndB = 64, OF _ _ _ demo_arp1_reach]
    by (fastforce simp: demo_arp1_entry demo_arp_env_fields)
qed

end
