(* ===== verification/Tcp_Ip.thy ===== *)
theory Tcp_Ip
  imports Ipv4
begin

text \<open>
  TCP (\<open>src/src/net/tcp.c\<close>) on top of IPv4 (\<open>src/src/net/ipv4.c\<close>): what a segment goes through between the two protocols, by
  way of the interface \<open>datagram_service\<close>.
\<close>

section \<open>TCP over IPv4\<close>

text \<open>The receive path does not look at the value of the checksum, only at whether it is right.\<close>

lemma tcp_rx_checksum_field:
  assumes a: "length a = 16" and b: "b = a @ stored16 x @ r" and b': "b' = a @ stored16 y @ r" and r: "2 \<le> length r"
    and valid: "rx_valid csum b" and sum: "tcpip_continue_chksum csum' b' = 0"
  shows "tcp_rx env b' st_src csum' w = tcp_rx env b st_src csum w"
proof -
  have low: "b' ! i = b ! i" if "i < 16" for i using that a by (simp add: b b' nth_append)
  have "b' ! i = b ! i" if "18 \<le> i" for i using that a by (simp add: b b' nth_append stored16_def)
  then have opts: "opt_memory env b' = opt_memory env b" by (intro ext) (simp add: opt_memory_def b b')
  have hl: "header_len b' = header_len b" by (simp add: header_len_def low)
  have ph: "parse_header b' = parse_header b" by (simp add: parse_header_def field16_def field32_def low)
  have "drop n b' = drop n b" if "18 \<le> n" for n using that a by (simp add: b b')
  then have pay: "drop (header_len b) b' = drop (header_len b) b" using valid by (simp add: rx_valid_def)
  have "rx_valid csum' b'" using valid sum a r by (simp add: rx_valid_def hl) (simp add: b b')
  then show ?thesis unfolding tcp_rx_def Let_def opts hl ph pay using valid by simp
qed

lemma build_segment_parts:
  "\<exists>a r. length a = 16 \<and> 2 \<le> length r \<and> build_segment env flags len payload c = a @ stored16 (tcpip_chksum (a @ [0, 0] @ r)) @ r"
proof -
  define a where "a = stored16 (htons (ucast (local_port c))) @ stored16 (st_port (peer c)) @ stored32 (htonl (snd_seq c)) @ stored32 (htonl (rcv_ack c)) @
    [push_bit 2 (of_nat (20 + length (seg_opts env flags c))), ucast (if len \<noteq> 0 then flags OR TCP_PSH else flags)] @
    stored16 (htons (ucast (drop_bit (unat (rcv_win_scale c)) (rcv_win c))))"
  define r where "r = stored16 0 @ seg_opts env flags c @ payload"
  have z: "stored16 0 = [0, 0]" by (simp add: stored16_def)
  have "build_segment env flags len payload c = a @ stored16 (tcpip_chksum (a @ stored16 0 @ r)) @ r"
    unfolding build_segment_def Let_def seg_opts_def [unfolded Let_def, symmetric] a_def r_def tcp_header_bytes_def by simp
  moreover have "length a = 16" by (simp add: a_def)
  moreover have "2 \<le> length r" by (simp add: r_def)
  ultimately show ?thesis unfolding z by blast
qed

context datagram_service
begin

lemma tcp_carried:
  assumes "sends IP_TCP sin_src dest 16 (build_segment tenv flags len payload c) packet"
    and "20 + length (build_segment tenv flags len payload c) < 65536"
  shows "\<exists>csum seg. receives packet IP_TCP (source sin_src dest) dest csum seg \<and>
    (\<forall>tenv' st_src w. tcp_rx tenv' seg st_src csum w = tcp_rx tenv' (build_segment tenv flags len payload c) st_src TCPIP_EMPTY_CSUM w)"
proof -
  obtain a r where a: "length a = 16" "2 \<le> length r"
    and b: "build_segment tenv flags len payload c = a @ stored16 (tcpip_chksum (a @ [0, 0] @ r)) @ r"
    using build_segment_parts by blast
  obtain csum x where x: "receives packet IP_TCP (source sin_src dest) dest csum (a @ stored16 x @ r)"
    "tcpip_continue_chksum csum (a @ stored16 x @ r) = 0"
    using carried [of IP_TCP sin_src dest a r packet] assms a by (auto simp: b)
  moreover have "rx_valid TCPIP_EMPTY_CSUM (build_segment tenv flags len payload c)" by (rule segment_wire(1) [OF refl])
  ultimately show ?thesis using tcp_rx_checksum_field [OF a(1) b refl a(2)] by blast
qed

end

text \<open>The entry of TCP in the table of transport protocols; \<open>None\<close> in the state is a call that does not return.\<close>

definition tcp_tcpip_rx :: "tcp_env \<Rightarrow> byte \<Rightarrow> u32 \<Rightarrow> u32 \<Rightarrow> u16 \<Rightarrow> byte list \<Rightarrow> tcp_world option \<Rightarrow> rc \<times> tcp_world option" where
  "tcp_tcpip_rx env proto src dest csum seg t =
     (if proto \<noteq> IP_TCP then (Some EPROTONOSUPPORT, t)
      else case Option.bind t (tcp_rx env seg \<lparr>st_addr = unat src, st_port = 0\<rparr> csum) of
             None \<Rightarrow> (None, None)
           | Some (rc, w) \<Rightarrow> (rc, Some w))"

text \<open>C11: IP is transparent to TCP.  When \<open>ipv4_tx()\<close> has put a segment that TCP built on the wire, completing its checksum with
  the pseudo-header, then \<open>ipv4_rx()\<close> and \<open>tcp_rx()\<close> of the destination do exactly what \<open>tcp_rx()\<close> does with the segment itself,
  coming from the address of the sending interface, whatever padding the link adds.\<close>

theorem tcp_over_ip:
  assumes sent: "ip_sent (snd (ipv4_tx env IP_TCP sin_src dest netdev (Some 16) (build_segment tenv flags len payload c) s)) = ip_sent s @ [(nd, ll, packet)]"
    and small: "20 + length (build_segment tenv flags len payload c) < 65536"
    and own: "ipv4_has_any_addr netdev' s' \<Longrightarrow> ipv4_has_addr netdev' dest s'"
  shows "ipv4_rx env' (tcp_tcpip_rx tenv') netdev' rxflags (packet @ pad) (s' :: ipv4, Some w) =
    (case tcp_rx tenv' (build_segment tenv flags len payload c) \<lparr>st_addr = unat (ipv4_source env s sin_src dest), st_port = 0\<rparr> TCPIP_EMPTY_CSUM w of
       None \<Rightarrow> (None, s', None)
     | Some (rc, w') \<Rightarrow> (rc, s', Some w'))"
proof -
  have "ipv4_sends env s IP_TCP sin_src dest 16 (build_segment tenv flags len payload c) packet" using sent by (auto simp: ipv4_sends_def)
  then obtain csum seg where r: "ipv4_receives (tcp_tcpip_rx tenv') packet IP_TCP (ipv4_source env s sin_src dest) dest csum seg"
    and t: "\<forall>tenv' st_src w. tcp_rx tenv' seg st_src csum w = tcp_rx tenv' (build_segment tenv flags len payload c) st_src TCPIP_EMPTY_CSUM w"
    using ipv4_net.tcp_carried [OF _ small] by blast
  from r own have "ipv4_rx env' (tcp_tcpip_rx tenv') netdev' rxflags (packet @ pad) (s', Some w) =
      (case tcp_tcpip_rx tenv' IP_TCP (ipv4_source env s sin_src dest) dest csum seg (Some w) of (rc, t) \<Rightarrow> (rc, s', t))"
    unfolding ipv4_receives_def by blast
  then show ?thesis by (simp add: tcp_tcpip_rx_def t split: option.split prod.split)
qed

theorem tcp_over_ip_witness:
  "\<exists>packet. ip_sent (snd (ipv4_tx demo_ip_env IP_TCP None 0x0200a8c0 NULL (Some 16) (build_segment demo_env TCP_ACK 2 [1, 2] (demo_rx 7)) demo_ip)) =
      [(64, Via_arp 0x0200a8c0, packet)] \<and>
    ipv4_rx demo_ip_env (tcp_tcpip_rx demo_env) 7 0 (packet @ [0]) (demo_ip, Some ((empty_world 0)\<lparr>conns := [(0x1000, zero_conn)]\<rparr>)) =
    (case tcp_rx demo_env (build_segment demo_env TCP_ACK 2 [1, 2] (demo_rx 7)) \<lparr>st_addr = unat (0x0100a8c0 :: u32), st_port = 0\<rparr> TCPIP_EMPTY_CSUM
        ((empty_world 0)\<lparr>conns := [(0x1000, zero_conn)]\<rparr>) of
       None \<Rightarrow> (None, demo_ip, None)
     | Some (rc, w') \<Rightarrow> (rc, demo_ip, Some w'))"
proof -
  define b where "b = build_segment demo_env TCP_ACK 2 [1, 2] (demo_rx 7)"
  have route: "ipv4_route demo_ip_env 0x0200a8c0 (miniroutes demo_ip) = Some (hd (miniroutes demo_ip), 0x0200a8c0)"
    "INADDR_BROADCAST \<noteq> 0x0200a8c0" "\<not> IN_MULTICAST (ntohl 0x0200a8c0)" by code_simp+
  have "\<exists>packet. ip_sent (snd (ipv4_tx demo_ip_env IP_TCP None 0x0200a8c0 NULL (Some 16) b demo_ip)) = [(64, Via_arp 0x0200a8c0, packet)]"
    using route by (simp add: ipv4_tx_def Let_def) (simp add: demo_ip_def INADDR_BROADCAST_def)
  then obtain packet where sent: "ip_sent (snd (ipv4_tx demo_ip_env IP_TCP None 0x0200a8c0 NULL (Some 16) b demo_ip)) = [(64, Via_arp 0x0200a8c0, packet)]" ..
  then have s: "ip_sent (snd (ipv4_tx demo_ip_env IP_TCP None 0x0200a8c0 NULL (Some 16) b demo_ip)) = ip_sent demo_ip @ [(64, Via_arp 0x0200a8c0, packet)]"
    by (simp add: demo_ip_def)
  obtain h where "length h = 20" "b = h @ seg_opts demo_env TCP_ACK (demo_rx 7) @ [1, 2]" using segment_wire(5) [OF b_def] by blast
  then have l: "20 + length b < 65536" using seg_opts_len [of demo_env TCP_ACK "demo_rx 7"] by auto
  have e: "ipv4_has_any_addr 7 demo_ip \<Longrightarrow> ipv4_has_addr 7 0x0200a8c0 demo_ip" by (simp add: demo_ip_def ipv4_has_any_addr_def)
  have src: "ipv4_source demo_ip_env demo_ip None 0x0200a8c0 = 0x0100a8c0" by code_simp
  show ?thesis
    using tcp_over_ip [OF s [unfolded b_def] l [unfolded b_def] e, where env' = demo_ip_env and tenv' = demo_env and rxflags = 0 and pad = "[0]"] sent
    unfolding src b_def by blast
qed

end
