(* ===== verification/Spec2Isabelle.thy ===== *)
theory Spec2Isabelle
  imports Linked_Lists Malloc_Correct Tcpip Process Tcp_Stream Bittorrent_Correct Udp Arp Tcp_Ip
begin

text \<open>
  \<^bold>\<open>wPXE: a network boot firmware with a BitTorrent client.\<close>  The program is a version of the iPXE firmware
  (\<open>src/src/\<close>): C code without an operating system below it that brings up a network device, speaks IP, and fetches and
  starts an image.  To this the repository adds a BitTorrent client, with a bitmap of received pieces and a TCP that can
  listen.  The development models the part of the program from the allocator up to this client.

  \<^bold>\<open>Platform.\<close>  The i386 build: pointers, \<open>size_t\<close> and \<open>long\<close> have 32 bits, memory is little-endian.  Machine integers are
  words of their width (\<open>u32\<close>, \<open>u16\<close>, \<open>byte\<close>), so that wrap-around is that of the program; where the C code uses a signed
  \<open>int\<close> as a small number the model uses \<open>int\<close>.  A C string is the list of its bytes without the terminating NUL.  A
  status code is an \<open>errno option\<close> (\<open>None\<close> is 0).  What the program can only obtain from outside (whether memory is
  available, what a network device accepts, random numbers, clocks, the contents of uninitialised memory) is a field of an
  environment record or an argument; no theorem assumes more of it than its statement says.

  \<^bold>\<open>The parts and how they interact.\<close>

  \<^item> \<open>Prelude\<close>: the types, error numbers and general lemmas that the other theories share.
  \<^item> \<open>Linked_Lists\<close>: \<open>include/ipxe/list.h\<close>, the circular lists that all queues of the program are made of, at the level of
    the pointers stored in memory.  The operations refine those on lists (\<open>list_edit_refines\<close>,
    \<open>list_splice_cut_refines\<close>), by way of the locale \<open>ring_ops\<close>; this justifies that the theories
    below model queues as lists.
  \<^item> \<open>Memory\<close>: flat memory and the routines of \<open>core/string.c\<close>; \<open>memmove\<close> is right for overlapping blocks, the string
    routines agree with their definitions on lists.
  \<^item> \<open>Malloc\<close>, \<open>Malloc_Correct\<close>: \<open>core/malloc.c\<close>.  The free list as a list of blocks with addresses; allocation splits a
    block, freeing merges with neighbours, and cache discarders run when no block fits.  Shown: no byte has two owners
    and none is lost over any sequence of operations (\<open>heap_ownership\<close>); an allocated block is aligned, disjoint from
    everything else and inside the heap; allocation terminates, and fails only when no free block fits; a huge request,
    whose rounding wraps around, wrongly succeeds (\<open>alloc_huge_succeeds\<close>).
  \<^item> \<open>Iobuf\<close>: \<open>include/ipxe/iobuf.h\<close>, \<open>core/iobuf.c\<close>, \<open>net/iobpad.c\<close>.  Packet buffers on that heap, refined to byte lists.
  \<^item> \<open>Byteorder\<close>, \<open>Tcpip\<close>: byte swapping, the Internet checksum against its definition in RFC 1071, and the dispatch to
    transport protocols of \<open>net/tcpip.c\<close>.
  \<^item> \<open>Refcnt\<close>, \<open>Process\<close>, \<open>Retry\<close>: reference counts, the cooperative scheduler with pending operations, and the retry
    timers (\<open>core/refcnt.c\<close>, \<open>core/process.c\<close>, \<open>core/pending.c\<close>, \<open>net/retry.c\<close>).  An object is freed exactly when its last
    reference goes; every queued process runs after finitely many steps; timers on the list are exactly the running
    ones, with exponential backoff.
  \<^item> \<open>Tcp\<close>: \<open>net/tcp.c\<close>, all entry points: \<open>tcp_open\<close>, \<open>tcp_rx\<close>, both timers, \<open>tcp_xfer_deliver\<close>, \<open>tcp_xfer_close\<close>,
    discarding and shutdown.  A connection is the record \<open>tcp_conn\<close> of the fields of \<open>struct tcp_connection\<close>; while it is
    worked on it is a \<open>tcp_ctx\<close> with a log of what was sent and delivered.  \<open>Tcp_Invariant\<close> proves an invariant of all
    reachable states, \<open>Tcp_Stream\<close> what happens to data: received data reaches the application in order and once,
    transmission and acknowledgement, the format of segments, resets, options, and the choice of the connection.
  \<^item> \<open>Ipv4\<close>: \<open>net/ipv4.c\<close>, \<open>net/icmp.c\<close> and the texts of addresses.  Routing, transmission with the checksum of the
    pseudo-header, reception with its checks and the reassembly of fragments.  Shown: fragments in order, mixed with those
    of other datagrams, give back the packet; the route is the reference choice from the settings; texts of addresses are
    read back.  The locale \<open>datagram_service\<close> is what a transport protocol relies on, and IPv4 provides it.
  \<^item> \<open>Udp\<close>: \<open>net/udp.c\<close> on top of it.  Shown: a datagram arrives at the socket of its destination as it was sent; a port
    has one socket; automatic ports run out for good after 64512 sockets.
  \<^item> \<open>Arp\<close>: \<open>net/arp.c\<close>, with the timers of \<open>Retry\<close> and the counts of \<open>Refcnt\<close>.  Shown, for all sequences of events: no packet
    that waits for an address is lost or sent twice, and each goes to an address announced for its destination; a request
    is answered and the answer releases the waiting packets.
  \<^item> \<open>Tcp_Ip\<close> and this theory put the parts together: a segment carried by IP is to TCP what it was when it was sent
    (\<open>tcp_over_ip\<close>), and a PIECE message that arrives over TCP, in segments in any order, is taken by the client
    (\<open>piece_over_tcp\<close>).
  \<^item> \<open>Bitmap\<close>: \<open>core/bitmap.c\<close> refines finite sets; the locale \<open>bit_set\<close> is its interface.
  \<^item> \<open>Vsprintf\<close>, \<open>Encoding\<close>, \<open>Uri\<close>: formatted output, number parsing, Base16 and Base64, and URIs (\<open>core/vsprintf.c\<close>,
    \<open>core/asprintf.c\<close>, \<open>core/misc.c\<close>, \<open>core/base16.c\<close>, \<open>core/base64.c\<close>, \<open>core/uri.c\<close>, \<open>core/cwuri.c\<close>); the encoders are
    programs in the format language of \<open>vcprintf\<close>, as in the source.
  \<^item> \<open>Bittorrent\<close>, \<open>Bittorrent_Correct\<close>: \<open>net/tcp/bittorrent.c\<close>.  The request and its peers, the background process, the
    receive handler and all messages.  Sockets are a parameter (\<open>bt_env\<close>) and what is sent is a log.  Shown: all reachable
    states are well typed; the receive handler returns, except that a wrong handshake makes it loop for ever; a piece
    may arrive in any number of buffers; a request is answered by the piece; a download from a peer that answers
    completes.

  \<^bold>\<open>Loops.\<close>  Loops over lists and counters are recursive functions with termination proofs.  Loops that the source does not
  bound are \<open>partial_function (option)\<close>, where \<open>None\<close> is running for ever: the allocator's retry after discarding
  (shown to end), the wait for pending operations (ends when the processes end them), TCP option parsing (ends unless an
  option has length zero) and the BitTorrent receive loop.  The only fuel is that of \<open>bind_loop\<close>, which the
  source bounds by the number of ports as well.

  \<^bold>\<open>Errors.\<close>  A branch that reads or writes outside of what the program owns is a separate result (\<open>None\<close> of the list and heap
  operations, \<open>Undefined\<close> of the client), so theorems that exclude it are memory safety statements.

  \<^bold>\<open>Not modelled.\<close>  Device drivers, platform interfaces (BIOS, EFI) and assembler, because their behaviour is that of
  hardware and firmware that cannot be read from the sources; consoles and user interface, because they are pure input and
  output; wireless, Infiniband, Fibre Channel and the storage protocols; cryptography and TLS, whose correctness is
  agreement with external standards; the object interfaces of \<open>core/interface.c\<close> and \<open>core/xfer.c\<close>, which appear as
  parameters and logs; and, for now, the link layers below IP, the applications of UDP, HTTP, the settings
  tree and the loading of images.  Messages on the console are left out of the modelled functions.
\<close>

section \<open>BitTorrent over TCP\<close>

text \<open>The buffers that TCP hands to the application, and the arrival of segments.\<close>

fun chunks :: "tcp_event list \<Rightarrow> byte list list" where
  "chunks [] = []"
| "chunks (Deliver b # es) = b # chunks es"
| "chunks (e # es) = chunks es"

definition receive_all :: "tcp_env \<Rightarrow> (u32 \<times> u32 \<times> byte list) list \<Rightarrow> 'a tcp_ctx_scheme \<Rightarrow> 'a tcp_ctx_scheme" where
  "receive_all env segs c = fold (\<lambda>(seq, flags, iobuf) c. tcp_process_rx_queue env (tcp_rx_enqueue seq flags iobuf c)) segs c"

lemma concat_chunks: "concat (chunks es) = delivered es"
  by (induction es rule: chunks.induct) simp_all

lemma chunks_append: "chunks (es @ fs) = chunks es @ chunks fs"
  by (induction es rule: chunks.induct) simp_all

lemma close_log: "log (tcp_close env rc c) = log c @ [XferClose rc]"
  by (simp add: tcp_close_def Let_def)

text \<open>TCP never delivers an empty buffer.\<close>

lemma process_chunks: "[] \<notin> set (chunks (log c)) \<Longrightarrow> [] \<notin> set (chunks (log (tcp_process_rx_queue env c)))"
proof (induction env c rule: tcp_process_rx_queue.induct)
  case (1 env c)
  have data: "[] \<notin> set (chunks (log (snd (tcp_rx_data env seq iobuf d))))" if "[] \<notin> set (chunks (log d))" for seq iobuf and d :: "'a tcp_ctx_scheme"
  proof -
    have "unat (rcv_ack d - seq) < length iobuf" if "rcv_ack d - seq < of_nat (length iobuf)"
    proof -
      have "unat (of_nat (length iobuf) :: u32) \<le> length iobuf" by (simp add: unat_of_nat take_bit_eq_mod)
      with that show ?thesis unfolding word_less_nat_alt by linarith
    qed
    then show ?thesis using that by (auto simp: tcp_rx_data_def Let_def chunks_append not_le)
  qed
  have fin: "[] \<notin> set (chunks (log (snd (tcp_rx_fin env seq d))))" if "[] \<notin> set (chunks (log d))" for seq and d :: "'a tcp_ctx_scheme"
    using that by (simp add: tcp_rx_fin_def Let_def close_log chunks_append)
  show ?case
  proof (cases "rx_queue c")
    case Nil
    then show ?thesis using "1.prems" by (simp add: tcp_process_rx_queue.simps [of env c])
  next
    case (Cons p q)
    show ?thesis
    proof (cases "tcp_cmp (qseq p) (rcv_ack c) > 0")
      case True
      then show ?thesis using Cons "1.prems" by (simp add: tcp_process_rx_queue.simps [of env c])
    next
      case False
      define c1 where "c1 = c\<lparr>rx_queue := q\<rparr>"
      define c2 where "c2 = snd (tcp_rx_data env (qseq p) (qdata p) c1)"
      define c3 where "c3 = (if qflags p AND TCP_FIN \<noteq> 0 then snd (tcp_rx_fin env (qseq p + of_nat (length (qdata p))) c2) else c2)"
      have "[] \<notin> set (chunks (log c3))" using data fin "1.prems" by (simp add: c3_def c2_def c1_def)
      then have "[] \<notin> set (chunks (log (tcp_process_rx_queue env c3)))"
        by (intro "1.IH" [OF Cons False c1_def refl refl c2_def refl]) (simp_all add: c3_def)
      moreover have "tcp_process_rx_queue env c = tcp_process_rx_queue env c3"
        using Cons False by (simp add: tcp_process_rx_queue.simps [of env c] c3_def c2_def c1_def Let_def)
      ultimately show ?thesis by simp
    qed
  qed
qed

lemma receive_chunks: "[] \<notin> set (chunks (log c)) \<Longrightarrow> [] \<notin> set (chunks (log (receive_all env segs c)))"
proof (induction segs arbitrary: c)
  case (Cons s segs)
  obtain seq flags iobuf where s: "s = (seq, flags, iobuf)" by (rule prod_cases3)
  have "log (tcp_rx_enqueue seq flags iobuf c) = log c" by (simp add: tcp_rx_enqueue_def Let_def)
  then show ?case using Cons process_chunks [of "tcp_rx_enqueue seq flags iobuf c" env] by (simp add: receive_all_def s)
qed (simp add: receive_all_def)

lemma receive_stream:
  assumes "rx_stream S base k c" and "length S < 2 ^ 29"
    and "\<forall>(seq, flags, iobuf) \<in> set segs. \<exists>ofs. piece S base \<lparr>qseq = seq, qflags = flags AND TCP_FIN, qdata = iobuf\<rparr> ofs"
  shows "\<exists>k'. rx_stream S base k' (receive_all env segs c)"
  using assms(1,3)
proof (induction segs arbitrary: k c)
  case (Cons s segs)
  obtain seq flags iobuf where s: "s = (seq, flags, iobuf)" by (rule prod_cases3)
  define d where "d = tcp_rx_enqueue seq flags iobuf c"
  obtain ofs where p: "piece S base \<lparr>qseq = seq, qflags = flags AND TCP_FIN, qdata = iobuf\<rparr> ofs" using Cons.prems(2) s by auto
  obtain os where at: "rx_at S base k c" "queue_at S base k (rx_queue c) os" using Cons.prems(1) by (auto simp: rx_stream_def)
  have "near k ofs" using at(1) p assms(2) by (auto simp: near_def rx_at_def piece_def)
  then obtain os1 where d: "rx_at S base k d" "queue_at S base k (rx_queue d) os1" using enqueue_at [OF at p] by (auto simp: d_def)
  obtain k' os' where "rx_at S base k' (tcp_process_rx_queue env d)" "queue_at S base k' (rx_queue (tcp_process_rx_queue env d)) os'" "\<forall>x \<in> set os'. k' < x"
    using process_rx_stream [OF d, of env] by auto
  then have "rx_stream S base k' (tcp_process_rx_queue env d)" by (auto simp: rx_stream_def)
  from Cons.IH [OF this] show ?case using Cons.prems(2) by (simp add: receive_all_def s d_def)
qed (auto simp: receive_all_def)

lemma receive_delivers:
  assumes "rx_stream S base k c" and "length S < 2 ^ 29" and "rcv_ack c = base + of_nat (length S)"
  shows "concat (chunks (log c)) = S"
proof -
  have at: "rcv_ack c = base + of_nat k" "k \<le> length S + 1" "delivered (log c) = take k S" using assms(1) by (simp_all add: rx_stream_def rx_at_def)
  then have "of_nat k = (of_nat (length S) :: u32)" using assms(3) by simp
  then have "unat (of_nat k :: u32) = unat (of_nat (length S) :: u32)" by simp
  then have "k = length S" using at(2) assms(2) by (simp add: unat_of_nat take_bit_eq_mod)
  then show ?thesis using at(3) by (simp add: concat_chunks)
qed

text \<open>A segment that arrives in order.\<close>

lemma segment_in_order:
  assumes "rx_queue c = []" and "tstate c AND TCP_STATE_RCVD TCP_SYN \<noteq> 0" and "flags AND TCP_FIN = 0"
    and "0 < length iobuf" and "length iobuf \<le> 2 ^ 16" and "0 < rcv_win c" and "unat (rcv_win c) \<le> 2 ^ 29"
  shows "tcp_process_rx_queue env (tcp_rx_enqueue (rcv_ack c) flags iobuf c) = emit (Deliver iobuf) (tcp_rx_seq (of_nat (length iobuf)) c)"
proof -
  let ?n = "of_nat (length iobuf) :: u32" and ?p = "\<lparr>qseq = rcv_ack c, qflags = 0, qdata = iobuf\<rparr>"
  have n: "unat ?n = length iobuf" using assms(5) by (simp add: unat_of_nat take_bit_eq_mod)
  obtain v where w: "rcv_win c = of_nat v" "0 < v" "v \<le> 2 ^ 29"
    using that [of "unat (rcv_win c)"] assms(6,7) by (simp add: word_less_nat_alt)
  have "tcp_cmp (rcv_ack c + of_nat 0) (rcv_ack c + of_nat v) = int 0 - int v" using w(3) by (intro cmp_offsets) auto
  then have c1: "tcp_cmp (rcv_ack c) (rcv_ack c + rcv_win c) < 0" using w by simp
  have "tcp_cmp (rcv_ack c + ?n) (rcv_ack c + of_nat 0) = int (length iobuf) - int 0" using assms(5) by (intro cmp_offsets) auto
  then have c2: "\<not> tcp_cmp (rcv_ack c + ?n) (rcv_ack c) < 0" by simp
  have nz: "?n \<noteq> 0" using n assms(4) by auto
  have e: "tcp_rx_enqueue (rcv_ack c) flags iobuf c = c\<lparr>rx_queue := [?p]\<rparr>"
    using assms(1-3) c1 c2 nz by (simp add: tcp_rx_enqueue_def Let_def)
  have z: "tcp_cmp (rcv_ack c) (rcv_ack c) = 0" by (simp add: tcp_cmp_def)
  have same: "c\<lparr>rx_queue := []\<rparr> = c" using assms(1) by simp
  show ?thesis
    using nz unfolding e
    by (simp add: tcp_process_rx_queue.simps [of env "c\<lparr>rx_queue := [?p]\<rparr>"] z tcp_rx_data_def Let_def same)
      (simp add: tcp_process_rx_queue.simps assms(1))
qed



end
